(* ===== verification/Prelude.thy ===== *)
theory Prelude
  imports Complex_Main "HOL-Library.Word" "HOL-Library.Multiset"
begin

text \<open>
  Shared vocabulary of the development: the machine integers of the C sources, the faults a C
  statement can end in, the result type that carries them, C arrays, the little-endian byte views
  that the sources take of 16- and 32-bit integers, \<^verbatim>\<open>memcmp\<close>, and the generic lemmas on lists and
  words that the component theories use.
\<close>

unbundle bit_operations_syntax

named_theorems c_simps \<open>rewriting of the fallible operations of the C model\<close>

subsection \<open>Machine integers\<close>

type_synonym u8 = "8 word"
type_synonym u16 = "16 word"
type_synonym u32 = "32 word"
type_synonym u64 = "64 word"

definition INT_MAX :: int where
  "INT_MAX = 2 ^ 31 - 1"

subsection \<open>Faults and results\<close>

text \<open>
  The ways in which the modelled code stops other than by returning: a failed \<^verbatim>\<open>assert\<close> (the Makefile
  does not define \<^verbatim>\<open>NDEBUG\<close>), an access outside an array or a buffer, a null pointer that is read
  through, a signed overflow, a division by zero, and the use of bytes that were never written. \<open>NoReturn\<close>
  stands for a call that does not return at all.
\<close>

datatype c_fault = AssertFail | OutOfBounds | NullDeref | IntOverflow | DivByZero | Uninit | NoReturn

type_synonym 'a c_result = "c_fault + 'a"

definition bind_r :: "'a c_result \<Rightarrow> ('a \<Rightarrow> 'b c_result) \<Rightarrow> 'b c_result" where
  "bind_r m f = (case m of Inl e \<Rightarrow> Inl e | Inr x \<Rightarrow> f x)"

definition c_assert :: "bool \<Rightarrow> unit c_result" where
  "c_assert b = (if b then Inr () else Inl AssertFail)"

lemma bind_r_simps [simp, c_simps]:
  "bind_r (Inl e) f = Inl e"
  "bind_r (Inr x) f = f x"
  by (simp_all add: bind_r_def)

lemma bind_r_Inr_iff [c_simps]: "bind_r m f = Inr y \<longleftrightarrow> (\<exists>x. m = Inr x \<and> f x = Inr y)"
  by (cases m) auto

lemma bind_r_cong [fundef_cong]:
  assumes "m = m'" and "\<And>x. m' = Inr x \<Longrightarrow> f x = g x"
  shows "bind_r m f = bind_r m' g"
  using assms by (cases m') auto

lemma bind_r_assoc: "bind_r (bind_r m f) g = bind_r m (\<lambda>x. bind_r (f x) g)"
  by (cases m) auto

lemma c_assert_simps [simp, c_simps]:
  "c_assert True = Inr ()"
  "c_assert False = Inl AssertFail"
  by (simp_all add: c_assert_def)

lemma c_assert_Inr_iff [c_simps]: "c_assert b = Inr u \<longleftrightarrow> b"
  by (simp add: c_assert_def)

subsection \<open>C arrays\<close>

text \<open>
  A large array of the shared memory segment: its number of elements and its contents. An access
  at an index that is not below \<^term>\<open>alen\<close> is the fault \<^term>\<open>OutOfBounds\<close>.
\<close>

record 'a carray =
  alen :: nat
  aget :: "nat \<Rightarrow> 'a"

definition arr_rd :: "'a carray \<Rightarrow> nat \<Rightarrow> 'a c_result" where
  "arr_rd a i = (if i < alen a then Inr (aget a i) else Inl OutOfBounds)"

definition arr_wr :: "'a carray \<Rightarrow> nat \<Rightarrow> 'a \<Rightarrow> 'a carray c_result" where
  "arr_wr a i v = (if i < alen a then Inr (a\<lparr>aget := (aget a)(i := v)\<rparr>) else Inl OutOfBounds)"

lemma arr_rd_in [simp]: "i < alen a \<Longrightarrow> arr_rd a i = Inr (aget a i)"
  by (simp add: arr_rd_def)

lemma arr_rd_out [simp]: "alen a \<le> i \<Longrightarrow> arr_rd a i = Inl OutOfBounds"
  by (simp add: arr_rd_def)

lemma arr_wr_in [simp]: "i < alen a \<Longrightarrow> arr_wr a i v = Inr (a\<lparr>aget := (aget a)(i := v)\<rparr>)"
  by (simp add: arr_wr_def)

lemma arr_wr_out [simp]: "alen a \<le> i \<Longrightarrow> arr_wr a i v = Inl OutOfBounds"
  by (simp add: arr_wr_def)

subsection \<open>Lists\<close>

lemma mset_swap_update:
  assumes "i < length xs" and "j < length xs"
  shows "mset (xs[i := xs ! j, j := xs ! i]) = mset xs"
  using assms by (simp add: mset_swap)

text \<open>
  Two lists with the same elements that agree before \<open>a\<close> and from \<open>b\<close> on have the same elements
  between \<open>a\<close> and \<open>b\<close>.
\<close>

lemma mset_slice_eq:
  assumes len: "length ys = length xs" and ms: "mset ys = mset xs"
    and pre: "\<And>k. k < a \<Longrightarrow> k < length xs \<Longrightarrow> ys ! k = xs ! k"
    and post: "\<And>k. b \<le> k \<Longrightarrow> k < length xs \<Longrightarrow> ys ! k = xs ! k"
    and ab: "a \<le> b"
  shows "mset (take (b - a) (drop a ys)) = mset (take (b - a) (drop a xs))"
proof -
  have split: "mset zs = mset (take a zs) + mset (take (b - a) (drop a zs)) + mset (drop b zs)"
    for zs :: "'a list"
  proof -
    have "zs = take a zs @ take (b - a) (drop a zs) @ drop b zs"
      using ab by (metis append_assoc append_take_drop_id drop_drop le_add_diff_inverse2)
    then show ?thesis by (metis mset_append add.assoc)
  qed
  have "take a ys = take a xs"
    using len pre by (intro nth_equalityI) auto
  moreover have "drop b ys = drop b xs"
    using len post by (intro nth_equalityI) auto
  ultimately show ?thesis
    using ms split [of ys] split [of xs] by simp
qed

subsection \<open>Words as natural numbers\<close>

lemma unat_plus1: "unat w + 1 < 2 ^ LENGTH('a) \<Longrightarrow> unat (w + 1) = unat w + 1" for w :: "'a::len word"
  by (simp add: unat_word_ariths unsigned_1)

lemma unat_plus1_less: "v < w \<Longrightarrow> unat (v + 1) = unat v + 1" for w :: "'a::len word"
proof -
  assume "v < w"
  then have "unat v + 1 \<le> unat w" by (simp add: word_less_nat_alt)
  also have "unat w < 2 ^ LENGTH('a)" by (rule unsigned_less)
  finally show ?thesis by (rule unat_plus1)
qed

lemma unat_lt32: "unat w < 2 ^ 32" for w :: u32
  using unsigned_less [of w, where ?'a = nat] by simp

lemma unat_minus1: "0 < unat w \<Longrightarrow> unat (w - 1) = unat w - 1" for w :: "'a::len word"
  by (metis unat_0 unat_minus_one less_irrefl)

lemma unat_minus: "unat v \<le> unat w \<Longrightarrow> unat (w - v) = unat w - unat v" for w :: "'a::len word"
  by (simp add: unat_sub word_le_nat_alt)

lemma unat_plus: "unat v + unat w < 2 ^ LENGTH('a) \<Longrightarrow> unat (v + w) = unat v + unat w" for w :: "'a::len word"
  by (simp add: unat_word_ariths)

lemma unat_half: "unat (w div 2) = unat w div 2" for w :: u32
  by (simp add: unat_div)

lemma sint32: "sint w = (if unat w < 2 ^ 31 then int (unat w) else int (unat w) - 2 ^ 32)" for w :: u32
proof -
  define u where "u = uint w"
  have s: "sint w = (u + 2147483648) mod 4294967296 - 2147483648"
    by (simp add: sint_uint signed_take_bit_eq_take_bit_shift take_bit_eq_mod u_def)
  have u: "0 \<le> u" "u < 4294967296"
    using unsigned_less [of w, where ?'a = int] by (simp_all add: u_def)
  have n: "unat w = nat u" by (simp add: u_def)
  have "(u + 2147483648) mod 4294967296 = (if u < 2147483648 then u + 2147483648 else u - 2147483648)"
  proof (cases "u < 2147483648")
    case False
    have "(u + 2147483648) mod 4294967296 = (u - 2147483648 + 4294967296) mod 4294967296"
      by (simp add: add.commute)
    also have "\<dots> = (u - 2147483648) mod 4294967296" by (rule mod_add_self2)
    finally show ?thesis using False u by simp
  qed (use u in simp)
  then have "sint w = (if u < 2147483648 then u else u - 4294967296)"
    unfolding s by simp
  then show ?thesis unfolding n using u by (simp add: nat_less_iff)
qed

lemma sint32_neg:
  fixes w :: u32
  assumes "2 ^ 31 \<le> unat w"
  shows "sint w < 0"
proof -
  have "\<not> unat w < 2 ^ 31" using assms by simp
  then have "sint w = int (unat w) - 2 ^ 32" by (simp only: sint32 if_False)
  moreover have "int (unat w) < 2 ^ 32"
    using unat_lt32 [of w] by (metis of_nat_less_iff of_nat_numeral of_nat_power)
  ultimately show ?thesis by linarith
qed

lemmas word_nat = word_less_nat_alt word_le_nat_alt

subsection \<open>Bytes in memory\<close>

text \<open>
  The sources look at integers through byte pointers (and the other way round). The machine is
  little-endian, as the masks of \<^verbatim>\<open>net/iputils.c\<close> and \<^verbatim>\<open>net/ip.h\<close> presume.
\<close>

definition le16 :: "u16 \<Rightarrow> u8 list" where
  "le16 w = [ucast w, ucast (drop_bit 8 w)]"

definition le32 :: "u32 \<Rightarrow> u8 list" where
  "le32 w = [ucast w, ucast (drop_bit 8 w), ucast (drop_bit 16 w), ucast (drop_bit 24 w)]"

definition of_le16 :: "u8 \<Rightarrow> u8 \<Rightarrow> u16" where
  "of_le16 a b = ucast a OR push_bit 8 (ucast b)"

definition of_le32 :: "u8 \<Rightarrow> u8 \<Rightarrow> u8 \<Rightarrow> u8 \<Rightarrow> u32" where
  "of_le32 a b c d =
     ucast a OR push_bit 8 (ucast b) OR push_bit 16 (ucast c) OR push_bit 24 (ucast d)"

definition ntohs :: "u16 \<Rightarrow> u16" where
  "ntohs w = push_bit 8 w OR drop_bit 8 w"

lemma length_le [simp]: "length (le16 w) = 2" "length (le32 v) = 4"
  by (simp_all add: le16_def le32_def)

lemma byte_high_bits: "\<not> bit a (8 + n)" "\<not> bit a (16 + n)" "\<not> bit a (24 + n)" for a :: u8
  by (auto dest: bit_imp_le_length)

lemmas byte_view = byte_high_bits of_le16_def of_le32_def le16_def le32_def ntohs_def bit_simps

lemma of_le16_le16: "of_le16 (ucast w) (ucast (drop_bit 8 w)) = w"
  by (rule bit_word_eqI) (auto simp: byte_view)

lemma of_le32_le32:
  "of_le32 (ucast w) (ucast (drop_bit 8 w)) (ucast (drop_bit 16 w)) (ucast (drop_bit 24 w)) = w"
proof (rule bit_word_eqI)
  fix n
  assume "n < LENGTH(32)"
  then consider "n < 8" | "8 \<le> n" "n < 16" | "16 \<le> n" "n < 24" | "24 \<le> n" "n < 32" by fastforce
  then show "bit (of_le32 (ucast w) (ucast (drop_bit 8 w)) (ucast (drop_bit 16 w)) (ucast (drop_bit 24 w))) n =
      bit w n"
    by cases (auto simp: byte_view)
qed

lemma le16_of_le16: "le16 (of_le16 a b) = [a, b]"
  by (auto simp: byte_view dest: bit_imp_le_length intro!: bit_word_eqI)

lemma le32_of_le32: "le32 (of_le32 a b c d) = [a, b, c, d]"
  by (auto simp: byte_view dest: bit_imp_le_length intro!: bit_word_eqI)

lemma le16_inject [simp]: "le16 v = le16 w \<longleftrightarrow> v = w"
  unfolding le16_def by (metis list.inject of_le16_le16)

lemma le32_inject [simp]: "le32 v = le32 w \<longleftrightarrow> v = w"
  unfolding le32_def by (metis list.inject of_le32_le32)

lemma ntohs_ntohs [simp]: "ntohs (ntohs w) = w"
  by (rule bit_word_eqI) (auto simp: byte_view)

lemma ntohs_inject [simp]: "ntohs v = ntohs w \<longleftrightarrow> v = w"
  by (metis ntohs_ntohs)

lemma ntohs_of_le16: "ntohs (of_le16 a b) = of_le16 b a"
proof (rule bit_word_eqI)
  fix n
  assume "n < LENGTH(16)"
  then consider "n < 8" | "8 \<le> n" "n < 16" by fastforce
  then show "bit (ntohs (of_le16 a b)) n = bit (of_le16 b a) n"
    by cases (auto simp: byte_view dest: bit_imp_le_length)
qed

text \<open>The sign of \<^verbatim>\<open>memcmp\<close> on two blocks of the same length.\<close>

primrec memcmp :: "u8 list \<Rightarrow> u8 list \<Rightarrow> int" where
  "memcmp [] bs = 0"
| "memcmp (a # as) bs =
     (case bs of [] \<Rightarrow> 0 | b # bs' \<Rightarrow> if a < b then - 1 else if b < a then 1 else memcmp as bs')"

lemma memcmp_zero: "length as = length bs \<Longrightarrow> memcmp as bs = 0 \<longleftrightarrow> as = bs"
  by (induction as arbitrary: bs) (auto split: list.splits)

lemma memcmp_sym: "length as = length bs \<Longrightarrow> memcmp bs as = - memcmp as bs"
  by (induction as arbitrary: bs) (auto split: list.splits)

subsection \<open>Decimal numbers\<close>

text \<open>What the conversions \<^verbatim>\<open>%u\<close> and \<^verbatim>\<open>%d\<close> of \<^verbatim>\<open>printf\<close> write.\<close>

fun dec :: "nat \<Rightarrow> string" where
  "dec n = (if n < 10 then [] else dec (n div 10)) @ [char_of (48 + n mod 10)]"

declare dec.simps [simp del]

definition dec_int :: "int \<Rightarrow> string" where
  "dec_int i = (if i < 0 then CHR ''-'' # dec (nat (- i)) else dec (nat i))"

text \<open>Reading decimal numbers back.\<close>

definition undec :: "string \<Rightarrow> nat" where
  "undec = foldl (\<lambda>n c. 10 * n + (of_char c - 48)) 0"

lemma undec_dec: "undec (dec n) = n"
proof (induction n rule: dec.induct)
  case (1 n)
  have "of_char (char_of (48 + n mod 10) :: char) = (48 + n mod 10 :: nat)"
    by (simp add: of_char_of)
  then show ?case
    using 1 by (subst dec.simps) (auto simp: undec_def)
qed

lemma dec_inject [simp]: "dec m = dec n \<longleftrightarrow> m = n"
  by (metis undec_dec)

lemma digits_dec: "c \<in> set (dec n) \<Longrightarrow> 48 \<le> (of_char c :: nat) \<and> (of_char c :: nat) \<le> 57"
proof (induction n rule: dec.induct)
  case (1 n)
  have "(of_char (char_of (48 + n mod 10) :: char) :: nat) = 48 + n mod 10" by (simp add: of_char_of)
  moreover have "n mod 10 \<le> 9" by simp
  ultimately show ?case using 1 by (subst (asm) (2) dec.simps) (auto split: if_splits)
qed

lemma notin_dec: "(of_char c :: nat) < 48 \<or> 57 < (of_char c :: nat) \<Longrightarrow> c \<notin> set (dec n)"
  using digits_dec [of c n] by auto

text \<open>A decimal number can be read up to the first character that is no digit.\<close>

lemma dec_sep_append:
  assumes "(of_char c :: nat) < 48 \<or> 57 < (of_char c :: nat)"
  shows "dec m @ c # xs = dec n @ c # ys \<longleftrightarrow> m = n \<and> xs = ys"
proof
  assume eq: "dec m @ c # xs = dec n @ c # ys"
  have head: "takeWhile (\<lambda>x. x \<noteq> c) (dec k @ c # zs) = dec k" for k zs
    using notin_dec [OF assms, of k] by (subst takeWhile_append2) auto
  then have "dec m = dec n" using eq by metis
  with eq show "m = n \<and> xs = ys" by simp
qed simp

lemma unat_u16_u32 [simp]: "unat (ucast (i :: u16) :: u32) = unat i"
  using unsigned_less [of i, where 'a = nat] by (simp add: unsigned_ucast_eq take_bit_nat_eq_self_iff)

subsection \<open>Loops\<close>

text \<open>A \<^verbatim>\<open>for\<close> loop over the elements of a list whose body can fault.\<close>

primrec fold_r :: "('a \<Rightarrow> 's \<Rightarrow> 's c_result) \<Rightarrow> 'a list \<Rightarrow> 's \<Rightarrow> 's c_result" where
  "fold_r f [] s = Inr s"
| "fold_r f (x # xs) s = bind_r (f x s) (fold_r f xs)"

lemma fold_r_append: "fold_r f (xs @ ys) s = bind_r (fold_r f xs s) (fold_r f ys)"
  by (induction xs arbitrary: s) (auto simp: bind_r_def split: sum.split)

text \<open>What every iteration keeps the loop keeps.\<close>

lemma fold_r_keeps:
  assumes "\<And>x s s'. x \<in> set xs \<Longrightarrow> P s \<Longrightarrow> f x s = Inr s' \<Longrightarrow> P s'" "P s" "fold_r f xs s = Inr s'"
  shows "P s'"
  using assms
proof (induction xs arbitrary: s)
  case (Cons x xs)
  from Cons.prems(3) obtain s1 where s1: "f x s = Inr s1" "fold_r f xs s1 = Inr s'" by (auto simp: c_simps)
  have "P s1" using Cons.prems(1) [of x s s1] Cons.prems(2) s1(1) by simp
  then show ?case using Cons.prems(1) s1(2) by (intro Cons.IH [of s1]) auto
qed simp

text \<open>A loop whose iterations all succeed succeeds.\<close>

lemma fold_r_total:
  assumes "\<And>x s. x \<in> set xs \<Longrightarrow> P s \<Longrightarrow> \<exists>s'. f x s = Inr s' \<and> P s'" "P s"
  shows "\<exists>s'. fold_r f xs s = Inr s' \<and> P s'"
  using assms
proof (induction xs arbitrary: s)
  case (Cons x xs)
  from Cons.prems obtain s1 where s1: "f x s = Inr s1" "P s1" by (meson list.set_intros(1))
  from Cons.IH [OF _ s1(2)] Cons.prems(1) obtain s' where "fold_r f xs s1 = Inr s'" "P s'" by auto
  with s1 show ?case by simp
qed simp

text \<open>The same with a bound on the iterations that are left.\<close>

lemma fold_r_total_count:
  assumes "\<And>x s n. x \<in> set xs \<Longrightarrow> P (Suc n) s \<Longrightarrow> \<exists>s'. f x s = Inr s' \<and> P n s'" "P (length xs) s"
  shows "\<exists>s'. fold_r f xs s = Inr s' \<and> P 0 s'"
  using assms
proof (induction xs arbitrary: s)
  case (Cons x xs)
  from Cons.prems obtain s1 where s1: "f x s = Inr s1" "P (length xs) s1" by (metis length_Cons list.set_intros(1))
  from Cons.IH [OF _ s1(2)] Cons.prems(1) obtain s' where "fold_r f xs s1 = Inr s'" "P 0 s'" by auto
  with s1 show ?case by simp
qed simp

lemma fold_r_map: "fold_r f (map g xs) s = fold_r (\<lambda>x. f (g x)) xs s"
  by (induction xs arbitrary: s) (auto simp: bind_r_def split: sum.split)

end
