(* ===== verification/Sort.thy ===== *)
theory Sort
  imports Prelude "HOL-Library.Signed_Division"
begin

text \<open>
  The in-place quicksort of \<^verbatim>\<open>utils/sort.c\<close>, which every Top-N report of the statistics process
  uses. The array of pointers is a list, an access outside it is a fault, and the C \<^verbatim>\<open>int\<close> indexes are
  integers with the overflow of \<^verbatim>\<open>m + n\<close> as a fault. The outer loop and the recursion are
  \<^theory_text>\<open>partial_function (option)\<close>: \<^term>\<open>None\<close> is "does not return". For a comparison function that
  is a total preorder the sort is shown to return, without a fault, a sorted permutation that leaves
  everything outside \<open>m..n\<close> as it was.
\<close>

subsection \<open>The code\<close>

definition list_rd :: "'a list \<Rightarrow> int \<Rightarrow> 'a c_result" where
  "list_rd xs i = (if 0 \<le> i \<and> i < int (length xs) then Inr (xs ! nat i) else Inl OutOfBounds)"

definition SWAP :: "'a list \<Rightarrow> int \<Rightarrow> int \<Rightarrow> 'a list c_result" where
  "SWAP xs i j =
     bind_r (list_rd xs i) (\<lambda>temp.
     bind_r (list_rd xs j) (\<lambda>y.
     Inr (xs[nat i := y, nat j := temp])))"

function scan_up :: "('a \<Rightarrow> 'a \<Rightarrow> int) \<Rightarrow> 'a list \<Rightarrow> 'a \<Rightarrow> int \<Rightarrow> int \<Rightarrow> int c_result" where
  "scan_up cmp xs key n i =
     (if i \<le> n then
        bind_r (list_rd xs i) (\<lambda>x.
          if cmp x key \<le> 0 then scan_up cmp xs key n (i + 1) else Inr i)
      else Inr i)"
  by pat_completeness auto
termination
  by (relation "measure (\<lambda>(cmp, xs, key, n, i). nat (n - i + 1))") auto

function scan_down :: "('a \<Rightarrow> 'a \<Rightarrow> int) \<Rightarrow> 'a list \<Rightarrow> 'a \<Rightarrow> int \<Rightarrow> int \<Rightarrow> int c_result" where
  "scan_down cmp xs key m j =
     (if j \<ge> m then
        bind_r (list_rd xs j) (\<lambda>x.
          if cmp x key > 0 then scan_down cmp xs key m (j - 1) else Inr j)
      else Inr j)"
  by pat_completeness auto
termination
  by (relation "measure (\<lambda>(cmp, xs, key, m, j). nat (j - m + 1))") auto

declare scan_up.simps [simp del] scan_down.simps [simp del]

partial_function (option) part_loop ::
  "('a \<Rightarrow> 'a \<Rightarrow> int) \<Rightarrow> 'a \<Rightarrow> int \<Rightarrow> int \<Rightarrow> 'a list \<Rightarrow> int \<Rightarrow> int \<Rightarrow> ('a list \<times> int) c_result option"
where
  "part_loop cmp key m n xs i j =
     (if i \<le> j then
        (case scan_up cmp xs key n i of Inl e \<Rightarrow> Some (Inl e) | Inr i' \<Rightarrow>
        (case scan_down cmp xs key m j of Inl e \<Rightarrow> Some (Inl e) | Inr j' \<Rightarrow>
        (if i' < j' then
           (case SWAP xs i' j' of Inl e \<Rightarrow> Some (Inl e) | Inr xs' \<Rightarrow>
              part_loop cmp key m n xs' i' j')
         else part_loop cmp key m n xs i' j')))
      else Some (Inr (xs, j)))"

partial_function (option) quicksort ::
  "('a \<Rightarrow> 'a \<Rightarrow> int) \<Rightarrow> 'a list \<Rightarrow> int \<Rightarrow> int \<Rightarrow> 'a list c_result option"
where
  "quicksort cmp xs m n =
     (if m < n then
        (if m + n > INT_MAX then Some (Inl IntOverflow) else
        (case SWAP xs m ((m + n) sdiv 2) of Inl e \<Rightarrow> Some (Inl e) | Inr xs1 \<Rightarrow>
        (case list_rd xs1 m of Inl e \<Rightarrow> Some (Inl e) | Inr key \<Rightarrow>
         Option.bind (part_loop cmp key m n xs1 (m + 1) n) (\<lambda>r.
           case r of Inl e \<Rightarrow> Some (Inl e) | Inr (xs2, j) \<Rightarrow>
           (case SWAP xs2 m j of Inl e \<Rightarrow> Some (Inl e) | Inr xs3 \<Rightarrow>
            Option.bind (quicksort cmp xs3 m (j - 1)) (\<lambda>r'.
              case r' of Inl e \<Rightarrow> Some (Inl e) | Inr xs4 \<Rightarrow>
                quicksort cmp xs4 (j + 1) n))))))
      else Some (Inr xs))"

declare part_loop.simps [code] quicksort.simps [code]

subsection \<open>Single steps\<close>

lemma list_rd_in [simp]: "0 \<le> i \<Longrightarrow> i < int (length xs) \<Longrightarrow> list_rd xs i = Inr (xs ! nat i)"
  by (simp add: list_rd_def)

lemma SWAP_in:
  assumes "0 \<le> i" "i < int (length xs)" "0 \<le> j" "j < int (length xs)"
  shows "SWAP xs i j = Inr (xs[nat i := xs ! nat j, nat j := xs ! nat i])"
  using assms by (simp add: SWAP_def)

lemma swap_nth:
  assumes "i < length xs" "j < length xs" "k < length xs"
  shows "xs[i := xs ! j, j := xs ! i] ! k = (if k = j then xs ! i else if k = i then xs ! j else xs ! k)"
  using assms by (auto simp: nth_list_update)

text \<open>The upward scan stops at the first element above the pivot, or just past \<open>n\<close>.\<close>

lemma scan_up_spec:
  assumes "0 \<le> i" "i \<le> n + 1" "n < int (length xs)"
  shows "\<exists>i'. scan_up cmp xs key n i = Inr i' \<and> i \<le> i' \<and> i' \<le> n + 1 \<and>
    (\<forall>k. i \<le> k \<and> k < i' \<longrightarrow> cmp (xs ! nat k) key \<le> 0) \<and> (i' \<le> n \<longrightarrow> cmp (xs ! nat i') key > 0)"
  using assms
proof (induction cmp xs key n i rule: scan_up.induct)
  case (1 cmp xs key n i)
  show ?case
  proof (cases "i \<le> n \<and> cmp (xs ! nat i) key \<le> 0")
    case True
    with "1.prems" have rd: "list_rd xs i = Inr (xs ! nat i)" by simp
    with True "1.prems" "1.IH" [of "xs ! nat i"] obtain i' where i':
      "scan_up cmp xs key n (i + 1) = Inr i'" "i + 1 \<le> i'" "i' \<le> n + 1"
      "\<forall>k. i + 1 \<le> k \<and> k < i' \<longrightarrow> cmp (xs ! nat k) key \<le> 0" "i' \<le> n \<longrightarrow> cmp (xs ! nat i') key > 0"
      by auto
    have "cmp (xs ! nat k) key \<le> 0" if "i \<le> k" "k < i'" for k
      using that True i'(4) by (cases "k = i") auto
    with True rd i' show ?thesis by (auto simp: scan_up.simps [of cmp xs key n i])
  next
    case False
    with "1.prems" show ?thesis by (auto simp: scan_up.simps [of cmp xs key n i])
  qed
qed

text \<open>The downward scan stops at the last element that is not above the pivot, or below \<open>m\<close>.\<close>

lemma scan_down_spec:
  assumes "0 \<le> m" "m - 1 \<le> j" "j < int (length xs)"
  shows "\<exists>j'. scan_down cmp xs key m j = Inr j' \<and> j' \<le> j \<and> m - 1 \<le> j' \<and>
    (\<forall>k. j' < k \<and> k \<le> j \<longrightarrow> cmp (xs ! nat k) key > 0) \<and> (m \<le> j' \<longrightarrow> cmp (xs ! nat j') key \<le> 0)"
  using assms
proof (induction cmp xs key m j rule: scan_down.induct)
  case (1 cmp xs key m j)
  show ?case
  proof (cases "m \<le> j \<and> cmp (xs ! nat j) key > 0")
    case True
    with "1.prems" have rd: "list_rd xs j = Inr (xs ! nat j)" by simp
    with True "1.prems" "1.IH" [of "xs ! nat j"] obtain j' where j':
      "scan_down cmp xs key m (j - 1) = Inr j'" "j' \<le> j - 1" "m - 1 \<le> j'"
      "\<forall>k. j' < k \<and> k \<le> j - 1 \<longrightarrow> cmp (xs ! nat k) key > 0" "m \<le> j' \<longrightarrow> cmp (xs ! nat j') key \<le> 0"
      by auto
    have "cmp (xs ! nat k) key > 0" if "j' < k" "k \<le> j" for k
      using that True j'(4) by (cases "k = j") auto
    with True rd j' show ?thesis by (auto simp: scan_down.simps [of cmp xs key m j])
  next
    case False
    with "1.prems" show ?thesis by (auto simp: scan_down.simps [of cmp xs key m j])
  qed
qed

subsection \<open>The partition loop\<close>

text \<open>
  The loop invariant: everything between the pivot and \<open>i\<close> is at most the pivot, everything above
  \<open>j\<close> is greater, and the pivot itself is at \<open>m\<close>.
\<close>

definition part_inv :: "('a \<Rightarrow> 'a \<Rightarrow> int) \<Rightarrow> 'a \<Rightarrow> int \<Rightarrow> int \<Rightarrow> 'a list \<Rightarrow> int \<Rightarrow> int \<Rightarrow> bool" where
  "part_inv cmp key m n xs i j \<longleftrightarrow>
     0 \<le> m \<and> m < i \<and> i \<le> n + 1 \<and> m \<le> j \<and> j \<le> n \<and> n < int (length xs) \<and> xs ! nat m = key \<and>
     (\<forall>k. m < k \<and> k < i \<longrightarrow> cmp (xs ! nat k) key \<le> 0) \<and>
     (\<forall>k. j < k \<and> k \<le> n \<longrightarrow> cmp (xs ! nat k) key > 0)"

text \<open>What a partial sort of \<open>m..n\<close> leaves as it was.\<close>

definition same_outside :: "int \<Rightarrow> int \<Rightarrow> 'a list \<Rightarrow> 'a list \<Rightarrow> bool" where
  "same_outside m n xs ys \<longleftrightarrow>
     length ys = length xs \<and> mset ys = mset xs \<and>
     (\<forall>k < length xs. int k < m \<or> n < int k \<longrightarrow> ys ! k = xs ! k)"

lemma same_outside_refl [simp]: "same_outside m n xs xs"
  by (simp add: same_outside_def)

lemma same_outside_trans:
  assumes "same_outside m n xs ys" "same_outside m' n' ys zs" "m \<le> m'" "n' \<le> n"
  shows "same_outside m n xs zs"
  using assms by (auto simp: same_outside_def)

lemma same_outside_swap:
  assumes "0 \<le> m" "n < int (length xs)" "m \<le> i" "i \<le> n" "m \<le> j" "j \<le> n"
  shows "same_outside m n xs (xs[nat i := xs ! nat j, nat j := xs ! nat i])"
  using assms by (auto simp: same_outside_def mset_swap_update nth_list_update)

lemma same_outside_nth:
  assumes "same_outside m n xs ys" "0 \<le> m" "n < int (length xs)" "m \<le> k" "k \<le> n"
  shows "\<exists>l. m \<le> l \<and> l \<le> n \<and> ys ! nat k = xs ! nat l"
proof -
  let ?a = "nat m" and ?b = "nat (n + 1)"
  have ms: "mset (take (?b - ?a) (drop ?a ys)) = mset (take (?b - ?a) (drop ?a xs))"
    using assms by (intro mset_slice_eq) (auto simp: same_outside_def)
  have len: "length ys = length xs" using assms by (simp add: same_outside_def)
  have "take (?b - ?a) (drop ?a ys) ! (nat k - ?a) = ys ! nat k"
    using assms len by (simp add: nat_diff_distrib)
  moreover have "nat k - ?a < length (take (?b - ?a) (drop ?a ys))"
    using assms len by (auto simp: nat_diff_distrib)
  ultimately have "ys ! nat k \<in> set (take (?b - ?a) (drop ?a ys))"
    by (metis nth_mem)
  then have "ys ! nat k \<in> set (take (?b - ?a) (drop ?a xs))"
    using ms by (metis set_mset_mset)
  then obtain p where "p < ?b - ?a" "ys ! nat k = xs ! (?a + p)"
    using assms by (auto simp: in_set_conv_nth)
  then show ?thesis
    using assms by (intro exI [of _ "m + int p"]) (auto simp: nat_add_distrib)
qed

lemma part_inv_swap:
  assumes inv: "part_inv cmp key m n xs i j" and ij: "i < j"
    and le: "cmp (xs ! nat j) key \<le> 0" and gt: "cmp (xs ! nat i) key > 0"
  shows "part_inv cmp key m n (xs[nat i := xs ! nat j, nat j := xs ! nat i]) i j"
  using assms unfolding part_inv_def by (auto simp: nth_list_update)

lemma part_inv_scan:
  assumes inv: "part_inv cmp key m n xs i j" and refl: "cmp key key \<le> 0"
  obtains i' j' where "scan_up cmp xs key n i = Inr i'" "scan_down cmp xs key m j = Inr j'"
    "i \<le> i'" "j' \<le> j" "part_inv cmp key m n xs i' j'"
    "i' \<le> n \<longrightarrow> cmp (xs ! nat i') key > 0" "cmp (xs ! nat j') key \<le> 0"
proof -
  from inv obtain i' where up: "scan_up cmp xs key n i = Inr i'" "i \<le> i'" "i' \<le> n + 1"
      "\<forall>k. i \<le> k \<and> k < i' \<longrightarrow> cmp (xs ! nat k) key \<le> 0" "i' \<le> n \<longrightarrow> cmp (xs ! nat i') key > 0"
    using scan_up_spec [of i n xs cmp key] by (auto simp: part_inv_def)
  from inv obtain j' where dn: "scan_down cmp xs key m j = Inr j'" "j' \<le> j" "m - 1 \<le> j'"
      "\<forall>k. j' < k \<and> k \<le> j \<longrightarrow> cmp (xs ! nat k) key > 0" "m \<le> j' \<longrightarrow> cmp (xs ! nat j') key \<le> 0"
    using scan_down_spec [of m j xs cmp key] by (auto simp: part_inv_def)
  have "m \<le> j'"
  proof (rule ccontr)
    assume "\<not> m \<le> j'"
    with inv have "j' < m \<and> m \<le> j" and "xs ! nat m = key" by (auto simp: part_inv_def)
    with dn(4) have "cmp key key > 0" by metis
    with refl show False by simp
  qed
  moreover have "cmp (xs ! nat k) key \<le> 0" if "m < k" "k < i'" for k
    using that up(4) inv by (cases "k < i") (auto simp: part_inv_def)
  moreover have "cmp (xs ! nat k) key > 0" if "j' < k" "k \<le> n" for k
    using that dn(4) inv by (cases "j < k") (auto simp: part_inv_def)
  ultimately have "part_inv cmp key m n xs i' j'"
    using inv up dn by (simp add: part_inv_def)
  with up dn \<open>m \<le> j'\<close> show ?thesis by (intro that) auto
qed

lemma part_loop_spec:
  assumes "part_inv cmp key m n xs i j" and "cmp key key \<le> 0"
  shows "\<exists>ys j'. part_loop cmp key m n xs i j = Some (Inr (ys, j')) \<and>
    same_outside (m + 1) n xs ys \<and> part_inv cmp key m n ys (j' + 1) j'"
  using assms
proof (induction "2 * nat (j - i + 1) +
    (if cmp (xs ! nat i) key > 0 \<and> cmp (xs ! nat j) key \<le> 0 then 1 else 0 :: nat)"
    arbitrary: xs i j rule: less_induct)
  case less
  show ?case
  proof (cases "i \<le> j")
    case False
    have "i = j + 1"
    proof (rule ccontr)
      assume "i \<noteq> j + 1"
      with False less.prems(1) have "cmp (xs ! nat (j + 1)) key \<le> 0" "cmp (xs ! nat (j + 1)) key > 0"
        by (auto simp: part_inv_def)
      then show False by simp
    qed
    with less.prems show ?thesis
      by (simp add: part_loop.simps [of cmp key m n xs "j + 1" j])
  next
    case True
    from part_inv_scan [OF less.prems] obtain i' j' where s:
      "scan_up cmp xs key n i = Inr i'" "scan_down cmp xs key m j = Inr j'" "i \<le> i'" "j' \<le> j"
      "part_inv cmp key m n xs i' j'" "i' \<le> n \<longrightarrow> cmp (xs ! nat i') key > 0"
      "cmp (xs ! nat j') key \<le> 0" .
    show ?thesis
    proof (cases "i' < j'")
      case swap: True
      let ?xs = "xs[nat i' := xs ! nat j', nat j' := xs ! nat i']"
      have b: "0 \<le> m" "m < i'" "j' \<le> n" "n < int (length xs)"
        using s(5) by (auto simp: part_inv_def)
      have gt: "cmp (xs ! nat i') key > 0" using s(6) swap b by simp
      have sw: "SWAP xs i' j' = Inr ?xs" using b swap by (simp add: SWAP_in)
      have inv: "part_inv cmp key m n ?xs i' j'"
        using part_inv_swap [OF s(5) swap s(7) gt] .
      have "?xs ! nat i' = xs ! nat j'"
        using b swap by (simp add: nth_list_update)
      then have "\<not> cmp (?xs ! nat i') key > 0" using s(7) by simp
      moreover have "2 * nat (j' - i' + 1) < 2 * nat (j - i + 1) +
          (if cmp (xs ! nat i) key > 0 \<and> cmp (xs ! nat j) key \<le> 0 then 1 else 0 :: nat)"
        using s(3,4,7) gt swap by (cases "i' = i"; cases "j' = j") auto
      ultimately obtain ys j'' where r: "part_loop cmp key m n ?xs i' j' = Some (Inr (ys, j''))"
          "same_outside (m + 1) n ?xs ys" "part_inv cmp key m n ys (j'' + 1) j''"
        using less.hyps [OF _ inv less.prems(2)] by fastforce
      have "same_outside (m + 1) n xs ?xs"
        using b swap by (intro same_outside_swap) auto
      then have "same_outside (m + 1) n xs ys"
        using r(2) by (rule same_outside_trans) auto
      with r True swap s sw show ?thesis by (simp add: part_loop.simps [of cmp key m n xs i j])
    next
      case noswap: False
      have "i' \<noteq> j'" using s(5,6,7) by (auto simp: part_inv_def)
      with noswap have "j' < i'" by simp
      with True have "2 * nat (j' - i' + 1) +
          (if cmp (xs ! nat i') key > 0 \<and> cmp (xs ! nat j') key \<le> 0 then 1 else 0 :: nat)
        < 2 * nat (j - i + 1)" by auto
      then have "\<exists>ys j''. part_loop cmp key m n xs i' j' = Some (Inr (ys, j'')) \<and>
          same_outside (m + 1) n xs ys \<and> part_inv cmp key m n ys (j'' + 1) j''"
        using less.hyps [OF _ s(5) less.prems(2)] by fastforce
      with True noswap s show ?thesis by (simp add: part_loop.simps [of cmp key m n xs i j])
    qed
  qed
qed

subsection \<open>The sort\<close>

text \<open>
  What the sort asks of its comparison function: \<open>cmp x y \<le> 0\<close> is a total preorder.
\<close>

locale comparator =
  fixes cmp :: "'a \<Rightarrow> 'a \<Rightarrow> int"
  assumes cmp_refl: "cmp x x \<le> 0"
    and cmp_trans: "cmp x y \<le> 0 \<Longrightarrow> cmp y z \<le> 0 \<Longrightarrow> cmp x z \<le> 0"
    and cmp_total: "cmp x y > 0 \<Longrightarrow> cmp y x \<le> 0"
begin

lemma sorted_glue:
  assumes left: "\<And>k l. m \<le> k \<Longrightarrow> k < l \<Longrightarrow> l < j \<Longrightarrow> cmp (f k) (f l) \<le> 0"
    and right: "\<And>k l. j < k \<Longrightarrow> k < l \<Longrightarrow> l \<le> n \<Longrightarrow> cmp (f k) (f l) \<le> 0"
    and below: "\<And>k. m \<le> k \<Longrightarrow> k < j \<Longrightarrow> cmp (f k) (f j) \<le> 0"
    and above: "\<And>k. j < k \<Longrightarrow> k \<le> n \<Longrightarrow> cmp (f j) (f k) \<le> 0"
    and kl: "m \<le> k" "k < l" "l \<le> (n :: int)"
  shows "cmp (f k) (f l) \<le> 0"
proof -
  consider "l < j" | "l = j" | "k < j" "j < l" | "k = j" | "j < k" using kl by linarith
  then show ?thesis
  proof cases
    case 3
    then show ?thesis using below [of k] above [of l] kl by (blast intro: cmp_trans)
  qed (use assms in auto)
qed

text \<open>One partition pass: the pivot ends at its place \<open>j\<close>, with nothing greater on its left.\<close>

lemma partition_pass:
  assumes "0 \<le> m" "m < n" "n < int (length xs)"
  obtains xs1 key xs2 j xs3 where "SWAP xs m ((m + n) sdiv 2) = Inr xs1" "list_rd xs1 m = Inr key"
    "part_loop cmp key m n xs1 (m + 1) n = Some (Inr (xs2, j))" "SWAP xs2 m j = Inr xs3"
    "m \<le> j" "j \<le> n" "same_outside m n xs xs3"
    "\<forall>k. m \<le> k \<and> k \<le> j \<longrightarrow> cmp (xs3 ! nat k) (xs3 ! nat j) \<le> 0"
    "\<forall>k. j < k \<and> k \<le> n \<longrightarrow> cmp (xs3 ! nat j) (xs3 ! nat k) \<le> 0"
proof -
  let ?k = "(m + n) sdiv 2"
  have kb: "m \<le> ?k" "?k \<le> n" using assms by (auto simp: signed_divide_int_def)
  define xs1 where "xs1 = xs[nat m := xs ! nat ?k, nat ?k := xs ! nat m]"
  define key where "key = xs1 ! nat m"
  have sw1: "SWAP xs m ?k = Inr xs1" and rd: "list_rd xs1 m = Inr key"
    using assms kb by (simp_all add: SWAP_in xs1_def key_def)
  have so1: "same_outside m n xs xs1"
    using assms kb unfolding xs1_def by (intro same_outside_swap) auto
  have "part_inv cmp key m n xs1 (m + 1) n"
    using assms by (auto simp: part_inv_def key_def xs1_def)
  from part_loop_spec [OF this cmp_refl] obtain xs2 j where
    pl: "part_loop cmp key m n xs1 (m + 1) n = Some (Inr (xs2, j))"
      "same_outside (m + 1) n xs1 xs2" and pinv: "part_inv cmp key m n xs2 (j + 1) j" by blast
  have so2: "same_outside m n xs xs2"
    using so1 pl(2) by (rule same_outside_trans) auto
  then have b: "m \<le> j" "j \<le> n" "n < int (length xs2)" "xs2 ! nat m = key"
    using pinv by (auto simp: part_inv_def)
  define xs3 where "xs3 = xs2[nat m := xs2 ! nat j, nat j := xs2 ! nat m]"
  have sw3: "SWAP xs2 m j = Inr xs3" using assms b by (simp add: SWAP_in xs3_def)
  have "same_outside m n xs2 xs3"
    using assms b unfolding xs3_def by (intro same_outside_swap) auto
  with so2 have so3: "same_outside m n xs xs3" by (rule same_outside_trans) auto
  have "cmp (xs3 ! nat k) (xs3 ! nat j) \<le> 0" if "m \<le> k" "k \<le> j" for k
    using that assms b pinv cmp_refl by (auto simp: xs3_def part_inv_def nth_list_update)
  moreover have "cmp (xs3 ! nat j) (xs3 ! nat k) \<le> 0" if "j < k" "k \<le> n" for k
    using that assms b pinv by (auto simp: xs3_def part_inv_def nth_list_update intro: cmp_total)
  ultimately show ?thesis using that [OF sw1 rd pl(1) sw3 b(1,2) so3] by blast
qed

text \<open>Sorting the two sides of a partitioned range sorts the range.\<close>

lemma sort_halves:
  assumes b: "0 \<le> m" "m \<le> j" "j \<le> n" "n < int (length xs)"
    and lo: "\<forall>k. m \<le> k \<and> k \<le> j \<longrightarrow> cmp (xs ! nat k) (xs ! nat j) \<le> 0"
    and hi: "\<forall>k. j < k \<and> k \<le> n \<longrightarrow> cmp (xs ! nat j) (xs ! nat k) \<le> 0"
    and l: "same_outside m (j - 1) xs ys"
      "\<forall>k l. m \<le> k \<and> k < l \<and> l \<le> j - 1 \<longrightarrow> cmp (ys ! nat k) (ys ! nat l) \<le> 0"
    and r: "same_outside (j + 1) n ys zs"
      "\<forall>k l. j + 1 \<le> k \<and> k < l \<and> l \<le> n \<longrightarrow> cmp (zs ! nat k) (zs ! nat l) \<le> 0"
  shows "same_outside m n xs zs"
    and "\<forall>k l. m \<le> k \<and> k < l \<and> l \<le> n \<longrightarrow> cmp (zs ! nat k) (zs ! nat l) \<le> 0"
proof -
  have len: "length ys = length xs" using l(1) by (simp add: same_outside_def)
  have zy: "zs ! nat k = ys ! nat k" if "m \<le> k" "k \<le> j" for k
    using that r(1) b len by (auto simp: same_outside_def)
  have yx: "ys ! nat k = xs ! nat k" if "j \<le> k" "k \<le> n" for k
    using that l(1) b by (auto simp: same_outside_def)
  have below: "cmp (zs ! nat k) (zs ! nat j) \<le> 0" if kb: "m \<le> k" "k < j" for k
  proof -
    obtain l where "m \<le> l" "l \<le> j - 1" "ys ! nat k = xs ! nat l"
      using same_outside_nth [OF l(1), of k] kb b by auto
    then show ?thesis using lo zy [of k] zy [of j] yx [of j] kb b by auto
  qed
  have above: "cmp (zs ! nat j) (zs ! nat k) \<le> 0" if kb: "j < k" "k \<le> n" for k
  proof -
    obtain l where "j + 1 \<le> l" "l \<le> n" "zs ! nat k = ys ! nat l"
      using same_outside_nth [OF r(1), of k] kb b len by auto
    then show ?thesis using hi zy [of j] yx [of j] yx [of l] b by auto
  qed
  have left: "cmp (zs ! nat k) (zs ! nat l) \<le> 0" if "m \<le> k" "k < l" "l < j" for k l
    using that l(2) zy by auto
  have right: "cmp (zs ! nat k) (zs ! nat l) \<le> 0" if "j < k" "k < l" "l \<le> n" for k l
    using that r(2) by auto
  show "\<forall>k l. m \<le> k \<and> k < l \<and> l \<le> n \<longrightarrow> cmp (zs ! nat k) (zs ! nat l) \<le> 0"
    using sorted_glue [of m j "\<lambda>k. zs ! nat k" n, OF left right below above] by blast
  show "same_outside m n xs zs"
    using l(1) r(1) b by (auto simp: same_outside_def)
qed

lemma quicksort_spec:
  assumes "0 \<le> m" "n < int (length xs)" "2 * n \<le> INT_MAX"
  shows "\<exists>ys. quicksort cmp xs m n = Some (Inr ys) \<and> same_outside m n xs ys \<and>
    (\<forall>k l. m \<le> k \<and> k < l \<and> l \<le> n \<longrightarrow> cmp (ys ! nat k) (ys ! nat l) \<le> 0)"
  using assms
proof (induction "nat (n - m + 1)" arbitrary: xs m n rule: less_induct)
  case less
  show ?case
  proof (cases "m < n")
    case False
    then show ?thesis by (auto simp: quicksort.simps [of cmp xs m n])
  next
    case mn: True
    from partition_pass [OF less.prems(1) mn less.prems(2)] obtain xs1 key xs2 j xs3 where
      p: "SWAP xs m ((m + n) sdiv 2) = Inr xs1" "list_rd xs1 m = Inr key"
        "part_loop cmp key m n xs1 (m + 1) n = Some (Inr (xs2, j))" "SWAP xs2 m j = Inr xs3"
      and jb: "m \<le> j" "j \<le> n" and so: "same_outside m n xs xs3"
      and lo: "\<forall>k. m \<le> k \<and> k \<le> j \<longrightarrow> cmp (xs3 ! nat k) (xs3 ! nat j) \<le> 0"
      and hi: "\<forall>k. j < k \<and> k \<le> n \<longrightarrow> cmp (xs3 ! nat j) (xs3 ! nat k) \<le> 0" .
    have len3: "length xs3 = length xs" using so by (simp add: same_outside_def)
    obtain ys where l: "quicksort cmp xs3 m (j - 1) = Some (Inr ys)" "same_outside m (j - 1) xs3 ys"
        "\<forall>k l. m \<le> k \<and> k < l \<and> l \<le> j - 1 \<longrightarrow> cmp (ys ! nat k) (ys ! nat l) \<le> 0"
      using less.hyps [of "j - 1" m xs3] less.prems jb mn len3 by auto
    have len4: "length ys = length xs" using l(2) len3 by (simp add: same_outside_def)
    obtain zs where r: "quicksort cmp ys (j + 1) n = Some (Inr zs)" "same_outside (j + 1) n ys zs"
        "\<forall>k l. j + 1 \<le> k \<and> k < l \<and> l \<le> n \<longrightarrow> cmp (zs ! nat k) (zs ! nat l) \<le> 0"
      using less.hyps [of n "j + 1" ys] less.prems jb mn len4 by auto
    have "n < int (length xs3)" using less.prems len3 by simp
    note halves = sort_halves [OF less.prems(1) jb this lo hi l(2,3) r(2,3)]
    from so halves(1) have "same_outside m n xs zs" by (rule same_outside_trans) auto
    moreover have "quicksort cmp xs m n = Some (Inr zs)"
      using mn less.prems p l(1) r(1) by (simp add: quicksort.simps [of cmp xs m n])
    ultimately show ?thesis using halves(2) by blast
  qed
qed

text \<open>The whole array.\<close>

lemma quicksort_all:
  assumes "2 * int (length xs) \<le> INT_MAX"
  shows "\<exists>ys. quicksort cmp xs 0 (int (length xs) - 1) = Some (Inr ys) \<and> mset ys = mset xs \<and>
    sorted_wrt (\<lambda>a b. cmp a b \<le> 0) ys"
proof -
  obtain ys where ys: "quicksort cmp xs 0 (int (length xs) - 1) = Some (Inr ys)"
      "same_outside 0 (int (length xs) - 1) xs ys"
      "\<forall>k l. 0 \<le> k \<and> k < l \<and> l \<le> int (length xs) - 1 \<longrightarrow> cmp (ys ! nat k) (ys ! nat l) \<le> 0"
    using quicksort_spec [of 0 "int (length xs) - 1" xs] assms by auto
  have len: "length ys = length xs" and "mset ys = mset xs" using ys(2) by (simp_all add: same_outside_def)
  moreover have "cmp (ys ! k) (ys ! l) \<le> 0" if "k < l" "l < length ys" for k l
    using ys(3) [rule_format, of "int k" "int l"] that len by simp
  ultimately show ?thesis using ys(1) by (auto simp: sorted_wrt_iff_nth_less)
qed

end

subsection \<open>The sort as its callers use it\<close>

text \<open>
  C7: For a comparison function that is a total preorder, \<^verbatim>\<open>quicksort\<close> over the whole array returns,
  reads and writes only inside the array, and leaves a permutation of the array in ascending order.
\<close>

theorem quicksort_sorts:
  assumes "\<And>x. cmp x x \<le> 0" and "\<And>x y z. cmp x y \<le> 0 \<Longrightarrow> cmp y z \<le> 0 \<Longrightarrow> cmp x z \<le> 0"
    and "\<And>x y. cmp x y > 0 \<Longrightarrow> cmp y x \<le> 0" and "2 * int (length xs) \<le> INT_MAX"
  shows "\<exists>ys. quicksort cmp xs 0 (int (length xs) - 1) = Some (Inr ys) \<and> mset ys = mset xs \<and>
    sorted_wrt (\<lambda>a b. cmp a b \<le> 0) ys"
proof -
  have "comparator cmp" by unfold_locales (use assms(1-3) in auto)
  then show ?thesis using assms(4) by (rule comparator.quicksort_all)
qed

text \<open>The test program \<^verbatim>\<open>test/sort_test.c\<close>: its array, its comparison functions and its assertions.\<close>

record my_t =
  my_bytes :: u32
  my_packets :: u32

definition my_arr :: "my_t list" where
  "my_arr =
     [\<lparr>my_bytes = 555, my_packets = 5\<rparr>, \<lparr>my_bytes = 111, my_packets = 1\<rparr>, \<lparr>my_bytes = 888, my_packets = 8\<rparr>,
      \<lparr>my_bytes = 777, my_packets = 7\<rparr>, \<lparr>my_bytes = 222, my_packets = 2\<rparr>, \<lparr>my_bytes = 333, my_packets = 3\<rparr>,
      \<lparr>my_bytes = 999, my_packets = 9\<rparr>, \<lparr>my_bytes = 444, my_packets = 4\<rparr>, \<lparr>my_bytes = 666, my_packets = 6\<rparr>]"

definition my_cmp :: "my_t \<Rightarrow> my_t \<Rightarrow> int" where
  "my_cmp a b =
     (if my_bytes a < my_bytes b then - 1 else if my_bytes a > my_bytes b then 1 else 0)"

definition my_rcmp :: "my_t \<Rightarrow> my_t \<Rightarrow> int" where
  "my_rcmp a b = my_cmp b a"

interpretation my_order: comparator my_rcmp
  by unfold_locales (auto simp: my_rcmp_def my_cmp_def split: if_splits)

theorem quicksort_sorts_witness:
  "\<exists>ys. quicksort my_rcmp my_arr 0 8 = Some (Inr ys) \<and> mset ys = mset my_arr \<and>
     sorted_wrt (\<lambda>a b. my_rcmp a b \<le> 0) ys"
proof -
  have "2 * int (length my_arr) \<le> INT_MAX" "int (length my_arr) - 1 = 8"
    by (simp_all add: my_arr_def INT_MAX_def)
  then show ?thesis
    using quicksort_sorts [of my_rcmp my_arr] by (simp add: my_order.cmp_refl my_order.cmp_trans my_order.cmp_total)
qed

definition sort_test :: "unit c_result option" where
  "sort_test =
     Option.bind (quicksort my_rcmp my_arr 0 (int (length my_arr) - 1)) (\<lambda>r. Some (
       bind_r r (\<lambda>ptrs.
       bind_r (bind_r (list_rd ptrs 0) (\<lambda>x. c_assert (my_bytes x = 999))) (\<lambda>_.
       bind_r (bind_r (list_rd ptrs 8) (\<lambda>x. c_assert (my_bytes x = 111))) (\<lambda>_.
       bind_r (bind_r (list_rd ptrs 3) (\<lambda>x. c_assert (my_bytes x = 666))) (\<lambda>_.
       bind_r (bind_r (list_rd ptrs 0) (\<lambda>x. c_assert (my_packets x = 9))) (\<lambda>_.
               bind_r (list_rd ptrs 8) (\<lambda>x. c_assert (my_packets x = 1)))))))))"

lemma sort_test_passes: "sort_test = Some (Inr ())"
  by code_simp

end
