(* ===== verification/MgArray.thy ===== *)
theory MgArray
  imports Prelude
begin

text \<open>
  The managed array of \<^verbatim>\<open>utils/mgarray.c\<close>: a slot allocator over a caller's array. It keeps the
  allocated slots inside a window \<open>idx_lo < i < idx_hi\<close> around the middle of \<open>idx_min..idx_max\<close>, and
  asks a caller's function whether a slot is free. The counters live in shared memory
  (\<^verbatim>\<open>common/mgainfo.h\<close>) and are 32-bit words, so the model keeps them as words: the code relies on
  their wrap-around in places. A failed \<^verbatim>\<open>assert\<close> and a slot outside the array are faults.
\<close>

subsection \<open>The code\<close>

datatype mgaop_t = MGA_OP_TST | MGA_OP_SET | MGA_OP_TSTSET | MGA_OP_CLR

datatype entry_status_t = ENTRY_AVAIL | ENTRY_TAKEN

record mga_info_t =
  num_entries :: u32
  idx_lo :: u32
  idx_hi :: u32

text \<open>
  The caller's function receives a pointer to the entry: it returns the status and may change the
  entry. The raw array \<^verbatim>\<open>ptr\<close> and the counters \<^verbatim>\<open>p\<close>, which the C struct points to, are passed to each
  operation.
\<close>

type_synonym 'e mga_isempty_func = "'e \<Rightarrow> mgaop_t \<Rightarrow> entry_status_t \<times> 'e"

record 'e mgarray_t =
  isempty_func :: "'e mga_isempty_func"
  entry_size :: u32
  total_entries :: u32
  idx_min :: u32
  idx_max :: u32

text \<open>The byte offset of an entry from the start of the array: a 32-bit product.\<close>

definition ENTRY_PTR :: "'e mgarray_t \<Rightarrow> u32 \<Rightarrow> nat" where
  "ENTRY_PTR ma index = unat (index * entry_size ma)"

definition call_isempty ::
  "'e mgarray_t \<Rightarrow> 'e carray \<Rightarrow> u32 \<Rightarrow> mgaop_t \<Rightarrow> (entry_status_t \<times> 'e carray) c_result"
where
  "call_isempty ma es index opr =
     (let off = ENTRY_PTR ma index; sz = unat (entry_size ma) in
      if off mod sz = 0 then
        bind_r (arr_rd es (off div sz)) (\<lambda>e.
          let (status, e') = isempty_func ma e opr in
          bind_r (arr_wr es (off div sz) e') (\<lambda>es'. Inr (status, es')))
      else Inl OutOfBounds)"

definition mga_mid :: "'e mgarray_t \<Rightarrow> u32" where
  "mga_mid ma = idx_min ma + total_entries ma div 2"

definition mga_more_lo_than_hi :: "'e mgarray_t \<Rightarrow> mga_info_t \<Rightarrow> bool" where
  "mga_more_lo_than_hi ma p =
     (let mid = idx_min ma + total_entries ma div 2 in
      mid - idx_lo p > idx_hi p - 1 - mid)"

text \<open>A null \<^verbatim>\<open>raw_array_ptr\<close> is reported on stderr and leaves everything as it was.\<close>

definition mga_init ::
  "'e mgarray_t \<Rightarrow> 'e carray option \<Rightarrow> mga_info_t \<Rightarrow> u32 \<Rightarrow> 'e mga_isempty_func \<Rightarrow> u32 \<Rightarrow> u32 \<Rightarrow>
   'e mgarray_t \<times> mga_info_t"
where
  "mga_init mga raw_array_ptr pinfo esize func index_min index_max =
     (case raw_array_ptr of
        None \<Rightarrow> (mga, pinfo)
      | Some _ \<Rightarrow>
          let total = index_max - index_min + 1;
              lo = index_min + total div 2
          in (mga\<lparr>entry_size := esize, idx_max := index_max, idx_min := index_min,
                  total_entries := total, isempty_func := func\<rparr>,
              pinfo\<lparr>num_entries := 0, idx_lo := lo, idx_hi := lo + 1\<rparr>))"

definition mga_get :: "'e mgarray_t \<Rightarrow> u32 \<Rightarrow> nat c_result" where
  "mga_get ma idx =
     (if idx < idx_min ma \<or> idx > idx_max ma then Inl AssertFail else Inr (ENTRY_PTR ma idx))"

text \<open>The search for a free slot inside the window: the \<^verbatim>\<open>for\<close> loop of \<^verbatim>\<open>mga_alloc_entry\<close>.\<close>

function alloc_interior ::
  "'e mgarray_t \<Rightarrow> 'e carray \<Rightarrow> u32 \<Rightarrow> u32 \<Rightarrow> (u32 \<times> 'e carray) option c_result"
where
  "alloc_interior ma es hi i =
     (if i < hi then
        bind_r (call_isempty ma es i MGA_OP_TSTSET) (\<lambda>(status, es').
          if status = ENTRY_AVAIL then Inr (Some (i, es')) else alloc_interior ma es' hi (i + 1))
      else Inr None)"
  by pat_completeness auto
termination
proof (relation "measure (\<lambda>(ma, es, hi, i). unat hi - unat i)", goal_cases)
  case (2 ma es hi i)
  then have "unat (i + 1) = unat i + 1"
    by (simp add: unat_plus1_less)
  with 2 show ?case by (auto simp: word_less_nat_alt)
qed simp

definition mga_alloc_entry ::
  "'e mgarray_t \<Rightarrow> mga_info_t \<Rightarrow> 'e carray \<Rightarrow> (mga_info_t \<times> 'e carray \<times> u32 option) c_result"
where
  "mga_alloc_entry ma p es =
     (if num_entries p \<ge> total_entries ma then Inr (p, es, None)
      else
        bind_r (c_assert (0 \<le> sint (idx_hi p - idx_lo p - 1))) (\<lambda>_.
        if idx_hi p - idx_lo p - 1 > num_entries p then
          bind_r (alloc_interior ma es (idx_hi p) (idx_lo p + 1)) (\<lambda>r.
            case r of
              Some (i, es') \<Rightarrow> Inr (p\<lparr>num_entries := num_entries p + 1\<rparr>, es', Some i)
            | None \<Rightarrow> Inl AssertFail)
        else if mga_more_lo_than_hi ma p then
          bind_r (call_isempty ma es (idx_hi p) MGA_OP_TSTSET) (\<lambda>(prev, es').
          bind_r (c_assert (prev = ENTRY_AVAIL)) (\<lambda>_.
            let idx = idx_hi p;
                p' = p\<lparr>num_entries := num_entries p + 1, idx_hi := idx_hi p + 1\<rparr> in
            bind_r (call_isempty ma es' idx MGA_OP_TST) (\<lambda>(status, es'').
            bind_r (c_assert (status = ENTRY_TAKEN)) (\<lambda>_.
              Inr (p', es'', Some idx)))))
        else
          bind_r (call_isempty ma es (idx_lo p) MGA_OP_TSTSET) (\<lambda>(prev, es').
          bind_r (c_assert (prev = ENTRY_AVAIL)) (\<lambda>_.
            let idx = idx_lo p;
                p' = p\<lparr>num_entries := num_entries p + 1, idx_lo := idx_lo p - 1\<rparr> in
            bind_r (call_isempty ma es' idx MGA_OP_TST) (\<lambda>(status, es'').
            bind_r (c_assert (status = ENTRY_TAKEN)) (\<lambda>_.
              Inr (p', es'', Some idx)))))))"

text \<open>The two loops with which \<^verbatim>\<open>mga_free_entry\<close> tightens the window.\<close>

function shrink_lo :: "'e mgarray_t \<Rightarrow> 'e carray \<Rightarrow> u32 \<Rightarrow> u32 \<Rightarrow> (u32 \<times> 'e carray) c_result" where
  "shrink_lo ma es mid lo =
     (if lo < mid then
        bind_r (call_isempty ma es (lo + 1) MGA_OP_TST) (\<lambda>(status, es').
          if status = ENTRY_AVAIL then shrink_lo ma es' mid (lo + 1) else Inr (lo, es'))
      else Inr (lo, es))"
  by pat_completeness auto
termination
proof (relation "measure (\<lambda>(ma, es, mid, lo). unat mid - unat lo)", goal_cases)
  case (2 ma es mid lo)
  then have "unat (lo + 1) = unat lo + 1"
    by (simp add: unat_plus1_less)
  with 2 show ?case by (auto simp: word_less_nat_alt)
qed simp

function shrink_hi :: "'e mgarray_t \<Rightarrow> 'e carray \<Rightarrow> u32 \<Rightarrow> u32 \<Rightarrow> (u32 \<times> 'e carray) c_result" where
  "shrink_hi ma es lo hi =
     (if hi > lo + 1 then
        bind_r (call_isempty ma es (hi - 1) MGA_OP_TST) (\<lambda>(status, es').
          if status = ENTRY_AVAIL then shrink_hi ma es' lo (hi - 1) else Inr (hi, es'))
      else Inr (hi, es))"
  by pat_completeness auto
termination
proof (relation "measure (\<lambda>(ma, es, lo, hi). unat hi)", goal_cases)
  case (2 ma es lo hi)
  then have "0 < unat hi" by (simp add: word_less_nat_alt)
  then show ?case by (simp add: unat_minus1)
qed simp

declare alloc_interior.simps [simp del] shrink_lo.simps [simp del] shrink_hi.simps [simp del]

definition mga_free_entry ::
  "'e mgarray_t \<Rightarrow> mga_info_t \<Rightarrow> 'e carray \<Rightarrow> u32 \<Rightarrow> (mga_info_t \<times> 'e carray) c_result"
where
  "mga_free_entry ma p es idx =
     (if idx \<le> idx_lo p \<or> idx \<ge> idx_hi p then Inr (p, es)
      else
        bind_r (call_isempty ma es idx MGA_OP_TST) (\<lambda>(status, es1).
        if status = ENTRY_AVAIL then Inr (p, es1)
        else
          let p1 = p\<lparr>num_entries := num_entries p - 1\<rparr> in
          bind_r (call_isempty ma es1 idx MGA_OP_CLR) (\<lambda>(_, es2).
          bind_r (shrink_lo ma es2 (idx_min ma + total_entries ma div 2) (idx_lo p1)) (\<lambda>(lo, es3).
          bind_r (shrink_hi ma es3 lo (idx_hi p1)) (\<lambda>(hi, es4).
            Inr (p1\<lparr>idx_lo := lo, idx_hi := hi\<rparr>, es4))))))"

definition mga_capacity :: "'e mgarray_t \<Rightarrow> int" where
  "mga_capacity ma = sint (total_entries ma)"

definition mga_lo :: "mga_info_t \<Rightarrow> u32" where
  "mga_lo p = idx_lo p"

definition mga_hi :: "mga_info_t \<Rightarrow> u32" where
  "mga_hi p = idx_hi p"

definition mga_count :: "mga_info_t \<Rightarrow> int" where
  "mga_count p = sint (num_entries p)"

definition mga_to_s :: "'e mgarray_t \<Rightarrow> mga_info_t \<Rightarrow> string" where
  "mga_to_s ma p =
     ''['' @ dec_int (sint (num_entries p)) @ '' / '' @ dec_int (sint (total_entries ma)) @ '']  '' @
     dec_int (sint (idx_lo p)) @ '' <-> '' @ dec_int (sint (idx_hi p))"

subsection \<open>Window and slots\<close>

definition taken :: "'e mgarray_t \<Rightarrow> 'e carray \<Rightarrow> nat \<Rightarrow> bool" where
  "taken ma es i \<longleftrightarrow> fst (isempty_func ma (aget es i) MGA_OP_TST) = ENTRY_TAKEN"

definition taken_slots :: "'e mgarray_t \<Rightarrow> 'e carray \<Rightarrow> nat set" where
  "taken_slots ma es = {i. unat (idx_min ma) \<le> i \<and> i \<le> unat (idx_max ma) \<and> taken ma es i}"

abbreviation (input) wlo :: "mga_info_t \<Rightarrow> nat" where "wlo p \<equiv> unat (idx_lo p)"
abbreviation (input) whi :: "mga_info_t \<Rightarrow> nat" where "whi p \<equiv> unat (idx_hi p)"
abbreviation (input) rmin :: "'e mgarray_t \<Rightarrow> nat" where "rmin ma \<equiv> unat (idx_min ma)"
abbreviation (input) rmax :: "'e mgarray_t \<Rightarrow> nat" where "rmax ma \<equiv> unat (idx_max ma)"
abbreviation (input) rmid :: "'e mgarray_t \<Rightarrow> nat" where "rmid ma \<equiv> unat (mga_mid ma)"

definition window :: "'e mgarray_t \<Rightarrow> mga_info_t \<Rightarrow> 'e carray \<Rightarrow> nat set" where
  "window ma p es = {i. wlo p < i \<and> i < whi p \<and> taken ma es i}"

text \<open>
  The state the operations keep while the window has room: the window is around the middle and
  inside the managed range, every slot of the range outside it is free, and the counter is the
  number of taken slots inside it.
\<close>

definition mga_inv :: "'e mgarray_t \<Rightarrow> mga_info_t \<Rightarrow> 'e carray \<Rightarrow> bool" where
  "mga_inv ma p es \<longleftrightarrow>
     wlo p \<le> rmid ma \<and> wlo p < whi p \<and> rmin ma \<le> wlo p + 1 \<and> whi p \<le> rmax ma + 1 \<and>
     (\<forall>i. rmin ma \<le> i \<and> i \<le> rmax ma \<and> (i \<le> wlo p \<or> whi p \<le> i) \<longrightarrow> \<not> taken ma es i) \<and>
     unat (num_entries p) = card (window ma p es)"

text \<open>
  Where the next allocation finds room: a free slot inside the window, or a slot of the range on
  the side that \<^term>\<open>mga_more_lo_than_hi\<close> selects. (Slot 0 is no room: taking it would wrap
  \<^verbatim>\<open>idx_lo\<close> around.)
\<close>

definition alloc_room :: "'e mgarray_t \<Rightarrow> mga_info_t \<Rightarrow> bool" where
  "alloc_room ma p \<longleftrightarrow>
     unat (num_entries p) < whi p - wlo p - 1 \<or>
     (if mga_more_lo_than_hi ma p then whi p \<le> rmax ma else rmin ma \<le> wlo p \<and> 0 < wlo p)"

text \<open>
  When releasing slot \<open>i\<close> keeps the window in order: the window reaches over the middle, or another
  slot stays taken.
\<close>

definition free_room :: "'e mgarray_t \<Rightarrow> mga_info_t \<Rightarrow> 'e carray \<Rightarrow> nat \<Rightarrow> bool" where
  "free_room ma p es i \<longleftrightarrow> rmid ma < whi p \<or> window ma p es - {i} \<noteq> {}"

text \<open>The part of the invariant that every release keeps, also the last one of a side: the taken slots of the range are inside the window.\<close>

definition covers :: "'e mgarray_t \<Rightarrow> mga_info_t \<Rightarrow> 'e carray \<Rightarrow> bool" where
  "covers ma p es \<longleftrightarrow> wlo p \<le> rmid ma \<and> whi p \<le> rmax ma + 1 \<and>
     (\<forall>i. rmin ma \<le> i \<and> i \<le> rmax ma \<and> taken ma es i \<longrightarrow> wlo p < i \<and> i < whi p)"

text \<open>The counters as \<^term>\<open>mga_init\<close> leaves them.\<close>

definition mga_fresh :: "'e mgarray_t \<Rightarrow> mga_info_t \<Rightarrow> bool" where
  "mga_fresh ma p \<longleftrightarrow> num_entries p = 0 \<and> idx_lo p = mga_mid ma \<and> idx_hi p = mga_mid ma + 1"

text \<open>A run of \<open>k\<close> allocations, with the slots that were handed out in their order.\<close>

primrec alloc_run ::
  "nat \<Rightarrow> 'e mgarray_t \<Rightarrow> mga_info_t \<Rightarrow> 'e carray \<Rightarrow> (mga_info_t \<times> 'e carray \<times> u32 option list) c_result"
where
  "alloc_run 0 ma p es = Inr (p, es, [])"
| "alloc_run (Suc k) ma p es =
     bind_r (alloc_run k ma p es) (\<lambda>(p', es', is).
     bind_r (mga_alloc_entry ma p' es') (\<lambda>(p'', es'', i). Inr (p'', es'', is @ [i])))"

lemma mga_inv_cong:
  assumes "\<And>i. taken ma es i = taken ma es' i"
  shows "mga_inv ma p es = mga_inv ma p es'"
  using assms by (simp add: mga_inv_def window_def)

lemma inv_covers: "mga_inv ma p es \<Longrightarrow> covers ma p es"
  by (auto simp: mga_inv_def covers_def not_le [symmetric])

lemma covers_cong: "(\<And>i. taken ma es' i = taken ma es i) \<Longrightarrow> covers ma p es' = covers ma p es"
  by (simp add: covers_def)

subsection \<open>The contract of the caller's function\<close>

locale slot_status =
  fixes func :: "'e mga_isempty_func"
  assumes tst_pure: "snd (func e MGA_OP_TST) = e"
    and set_taken: "fst (func (snd (func e MGA_OP_SET)) MGA_OP_TST) = ENTRY_TAKEN"
    and tstset_status: "fst (func e MGA_OP_TSTSET) = fst (func e MGA_OP_TST)"
    and tstset_taken: "fst (func (snd (func e MGA_OP_TSTSET)) MGA_OP_TST) = ENTRY_TAKEN"
    and tstset_keep: "fst (func e MGA_OP_TST) = ENTRY_TAKEN \<Longrightarrow> snd (func e MGA_OP_TSTSET) = e"
    and clr_avail: "fst (func (snd (func e MGA_OP_CLR)) MGA_OP_TST) = ENTRY_AVAIL"

text \<open>
  A managed array over \<open>cap\<close> entries: the caller's function keeps its contract, the managed range
  lies inside the array, its indexes are C \<^verbatim>\<open>int\<close> values and its byte offsets are 32-bit values.
\<close>

locale managed_array = slot_status "isempty_func ma" for ma :: "'e mgarray_t" +
  fixes cap :: nat
  assumes entry_size_pos: "0 < unat (entry_size ma)"
    and cap_bytes: "cap * unat (entry_size ma) \<le> 2 ^ 32"
    and total_eq: "unat (idx_min ma) + unat (total_entries ma) = unat (idx_max ma) + 1"
    and total_pos: "0 < unat (total_entries ma)"
    and max_int: "unat (idx_max ma) + 1 < 2 ^ 31"
    and max_cap: "unat (idx_max ma) < cap"
begin

lemma taken_iff: "taken ma es i \<longleftrightarrow> fst (isempty_func ma (aget es i) MGA_OP_TST) = ENTRY_TAKEN"
  by (simp add: taken_def)

lemma not_taken_iff: "\<not> taken ma es i \<longleftrightarrow> fst (isempty_func ma (aget es i) MGA_OP_TST) = ENTRY_AVAIL"
  by (cases "fst (isempty_func ma (aget es i) MGA_OP_TST)") (simp_all add: taken_def)

lemma rmid_eq: "rmid ma = rmin ma + unat (total_entries ma) div 2"
  unfolding mga_mid_def using total_eq max_int by (subst unat_plus) (simp_all add: unat_half)

lemma rmid_bounds: "rmin ma \<le> rmid ma" "rmid ma \<le> rmax ma"
  using rmid_eq total_eq total_pos by linarith+

lemma call_isempty_in:
  assumes "unat i < cap" "alen es = cap"
  shows "call_isempty ma es i opr =
    Inr (fst (isempty_func ma (aget es (unat i)) opr),
         es\<lparr>aget := (aget es)(unat i := snd (isempty_func ma (aget es (unat i)) opr))\<rparr>)"
proof -
  have "unat i * unat (entry_size ma) < cap * unat (entry_size ma)"
    using assms(1) entry_size_pos by simp
  with cap_bytes have "unat i * unat (entry_size ma) < 2 ^ 32" by linarith
  then have "ENTRY_PTR ma i = unat i * unat (entry_size ma)"
    unfolding ENTRY_PTR_def by (simp add: unat_word_ariths)
  then have "ENTRY_PTR ma i mod unat (entry_size ma) = 0"
    and "ENTRY_PTR ma i div unat (entry_size ma) = unat i"
    using entry_size_pos by simp_all
  then show ?thesis
    using assms by (simp add: call_isempty_def Let_def split_beta)
qed

lemma call_tst:
  assumes "unat i < cap" "alen es = cap"
  shows "call_isempty ma es i MGA_OP_TST =
    Inr (if taken ma es (unat i) then ENTRY_TAKEN else ENTRY_AVAIL, es)"
  using call_isempty_in [OF assms, of MGA_OP_TST] not_taken_iff [of es "unat i"]
  by (simp add: tst_pure taken_def)

definition set_slot :: "'e carray \<Rightarrow> nat \<Rightarrow> 'e carray" where
  "set_slot es i = es\<lparr>aget := (aget es)(i := snd (isempty_func ma (aget es i) MGA_OP_TSTSET))\<rparr>"

definition clr_slot :: "'e carray \<Rightarrow> nat \<Rightarrow> 'e carray" where
  "clr_slot es i = es\<lparr>aget := (aget es)(i := snd (isempty_func ma (aget es i) MGA_OP_CLR))\<rparr>"

lemma alen_slot [simp]: "alen (set_slot es i) = alen es" "alen (clr_slot es i) = alen es"
  by (simp_all add: set_slot_def clr_slot_def)

lemma aget_slot:
  "aget (set_slot es i) j = (if j = i then snd (isempty_func ma (aget es i) MGA_OP_TSTSET) else aget es j)"
  "aget (clr_slot es i) j = (if j = i then snd (isempty_func ma (aget es i) MGA_OP_CLR) else aget es j)"
  by (simp_all add: set_slot_def clr_slot_def)

lemma taken_set_slot [simp]: "taken ma (set_slot es i) j \<longleftrightarrow> j = i \<or> taken ma es j"
  by (simp add: taken_def aget_slot tstset_taken)

lemma taken_clr_slot [simp]: "taken ma (clr_slot es i) j \<longleftrightarrow> j \<noteq> i \<and> taken ma es j"
  by (simp add: taken_def aget_slot clr_avail)

lemma set_slot_taken: "taken ma es i \<Longrightarrow> set_slot es i = es"
  by (simp add: set_slot_def taken_def tstset_keep)

lemma call_tstset:
  assumes "unat i < cap" "alen es = cap"
  shows "call_isempty ma es i MGA_OP_TSTSET =
    Inr (if taken ma es (unat i) then ENTRY_TAKEN else ENTRY_AVAIL, set_slot es (unat i))"
  using call_isempty_in [OF assms, of MGA_OP_TSTSET] not_taken_iff [of es "unat i"]
  by (simp add: tstset_status taken_def set_slot_def)

lemma call_clr:
  assumes "unat i < cap" "alen es = cap"
  shows "\<exists>st. call_isempty ma es i MGA_OP_CLR = Inr (st, clr_slot es (unat i))"
  using call_isempty_in [OF assms, of MGA_OP_CLR] by (simp add: clr_slot_def)

lemma alloc_interior_spec:
  assumes "alen es = cap" "unat hi \<le> cap"
  shows "(\<exists>k. alloc_interior ma es hi i = Inr (Some (k, set_slot es (unat k))) \<and>
             unat i \<le> unat k \<and> unat k < unat hi \<and> \<not> taken ma es (unat k))
       \<or> alloc_interior ma es hi i = Inr None \<and> (\<forall>k. unat i \<le> k \<and> k < unat hi \<longrightarrow> taken ma es k)"
  using assms
proof (induction "unat hi - unat i" arbitrary: i rule: less_induct)
  case less
  show ?case
  proof (cases "i < hi")
    case False
    then show ?thesis by (auto simp: alloc_interior.simps [of ma es hi i] word_nat)
  next
    case True
    then have lt: "unat i < unat hi" and suc: "unat (i + 1) = unat i + 1"
      by (simp_all add: word_nat unat_plus1_less)
    have call: "call_isempty ma es i MGA_OP_TSTSET =
        Inr (if taken ma es (unat i) then ENTRY_TAKEN else ENTRY_AVAIL, set_slot es (unat i))"
      using lt less.prems by (intro call_tstset) auto
    show ?thesis
    proof (cases "taken ma es (unat i)")
      case tk: True
      then have eq: "alloc_interior ma es hi i = alloc_interior ma es hi (i + 1)"
        using True call by (simp add: alloc_interior.simps [of ma es hi i] set_slot_taken)
      have IH: "(\<exists>k. alloc_interior ma es hi (i + 1) = Inr (Some (k, set_slot es (unat k))) \<and>
             unat (i + 1) \<le> unat k \<and> unat k < unat hi \<and> \<not> taken ma es (unat k))
          \<or> alloc_interior ma es hi (i + 1) = Inr None \<and>
            (\<forall>k. unat (i + 1) \<le> k \<and> k < unat hi \<longrightarrow> taken ma es k)"
        using lt suc less.prems by (intro less.hyps) auto
      have "taken ma es k" if "unat i \<le> k" "\<forall>k. unat (i + 1) \<le> k \<and> k < unat hi \<longrightarrow> taken ma es k"
        "k < unat hi" for k
        using that tk suc by (cases "k = unat i") auto
      with IH eq suc show ?thesis by auto
    next
      case fr: False
      then show ?thesis
        using True call lt by (auto simp: alloc_interior.simps [of ma es hi i])
    qed
  qed
qed

text \<open>The window after one more slot of it is taken, and after it grows by a slot.\<close>

lemma window_finite [simp]: "finite (window ma p es)"
  by (rule finite_subset [of _ "{..<whi p}"]) (auto simp: window_def)

lemma window_le: "card (window ma p es) \<le> whi p - wlo p - 1"
proof -
  have "card (window ma p es) \<le> card {wlo p<..<whi p}"
    by (rule card_mono) (auto simp: window_def)
  then show ?thesis by simp
qed

lemma window_hole:
  assumes "card (window ma p es) < whi p - wlo p - 1"
  shows "\<exists>k. wlo p < k \<and> k < whi p \<and> \<not> taken ma es k"
proof (rule ccontr)
  assume "\<not> ?thesis"
  then have "window ma p es = {wlo p<..<whi p}" by (auto simp: window_def)
  with assms show False by simp
qed

lemma more_lo_iff:
  assumes "mga_inv ma p es"
  shows "mga_more_lo_than_hi ma p \<longleftrightarrow> rmid ma < whi p \<and> whi p - 1 - rmid ma < rmid ma - wlo p"
proof -
  have b: "wlo p \<le> rmid ma" "wlo p < whi p" "whi p \<le> rmax ma + 1" "rmid ma \<le> rmax ma"
    using assms rmid_bounds by (auto simp: mga_inv_def)
  moreover have "unat (idx_hi p - 1) = whi p - 1" using b by (simp add: unat_minus1)
  ultimately show ?thesis
    using max_int
    by (auto simp: mga_more_lo_than_hi_def Let_def mga_mid_def [symmetric] word_less_nat_alt
        unat_sub_if')
qed

text \<open>The width of the window, as the code computes it.\<close>

lemma diff_eq:
  assumes "mga_inv ma p es"
  shows "unat (idx_hi p - idx_lo p - 1) = whi p - wlo p - 1" and "0 \<le> sint (idx_hi p - idx_lo p - 1)"
proof -
  have b: "wlo p < whi p" "whi p \<le> rmax ma + 1" using assms by (auto simp: mga_inv_def)
  then have "unat (idx_hi p - idx_lo p) = whi p - wlo p" by (simp add: unat_minus)
  with b show eq: "unat (idx_hi p - idx_lo p - 1) = whi p - wlo p - 1" by (simp add: unat_minus1)
  have "whi p - wlo p - 1 < 2 ^ 31" using b max_int by simp
  with eq show "0 \<le> sint (idx_hi p - idx_lo p - 1)" by (simp add: sint32)
qed

text \<open>A state from which the window has to grow: it holds no free slot.\<close>

lemma window_full:
  assumes "mga_inv ma p es" "\<not> idx_hi p - idx_lo p - 1 > num_entries p"
  shows "unat (num_entries p) = whi p - wlo p - 1"
  using assms diff_eq(1) [OF assms(1)] window_le [of p es] by (simp add: mga_inv_def word_nat)

text \<open>Allocation, branch by branch: a slot inside the window.\<close>

lemma alloc_inside:
  assumes inv: "mga_inv ma p es" and len: "alen es = cap"
    and free: "num_entries p < total_entries ma" and hole: "idx_hi p - idx_lo p - 1 > num_entries p"
  obtains k where
    "mga_alloc_entry ma p es =
       Inr (p\<lparr>num_entries := num_entries p + 1\<rparr>, set_slot es (unat k), Some k)"
    "wlo p < unat k" "unat k < whi p" "\<not> taken ma es (unat k)"
proof -
  have b: "wlo p < whi p" "whi p \<le> rmax ma + 1" using inv by (auto simp: mga_inv_def)
  then have lo1: "unat (idx_lo p + 1) = wlo p + 1" by (simp add: unat_plus1_less word_nat)
  have "card (window ma p es) < whi p - wlo p - 1"
    using hole inv diff_eq(1) [OF inv] by (simp add: mga_inv_def word_nat)
  then have "\<not> (\<forall>k. wlo p + 1 \<le> k \<and> k < whi p \<longrightarrow> taken ma es k)"
    using window_hole by fastforce
  then obtain k where k: "alloc_interior ma es (idx_hi p) (idx_lo p + 1) = Inr (Some (k, set_slot es (unat k)))"
      "wlo p + 1 \<le> unat k" "unat k < whi p" "\<not> taken ma es (unat k)"
    using alloc_interior_spec [OF len, of "idx_hi p" "idx_lo p + 1"] b max_cap lo1 by auto
  moreover have "mga_alloc_entry ma p es =
      Inr (p\<lparr>num_entries := num_entries p + 1\<rparr>, set_slot es (unat k), Some k)"
    using k(1) free hole diff_eq(2) [OF inv] by (simp add: mga_alloc_entry_def)
  ultimately show ?thesis by (intro that) auto
qed

text \<open>Growth to the right and to the left, where the slot next to the window is in the array and free.\<close>

lemma alloc_grow_hi:
  assumes inv: "mga_inv ma p es" and len: "alen es = cap"
    and free: "num_entries p < total_entries ma" and full: "\<not> idx_hi p - idx_lo p - 1 > num_entries p"
    and side: "mga_more_lo_than_hi ma p" and slot: "whi p < cap" "\<not> taken ma es (whi p)"
  shows "mga_alloc_entry ma p es =
    Inr (p\<lparr>num_entries := num_entries p + 1, idx_hi := idx_hi p + 1\<rparr>,
         set_slot es (whi p), Some (idx_hi p))"
  using iffD2 [OF not_le free] full side diff_eq(2) [OF inv] slot len
  by (simp add: mga_alloc_entry_def call_tstset call_tst Let_def)

lemma alloc_grow_lo:
  assumes inv: "mga_inv ma p es" and len: "alen es = cap"
    and free: "num_entries p < total_entries ma" and full: "\<not> idx_hi p - idx_lo p - 1 > num_entries p"
    and side: "\<not> mga_more_lo_than_hi ma p" and slot: "\<not> taken ma es (wlo p)"
  shows "mga_alloc_entry ma p es =
    Inr (p\<lparr>num_entries := num_entries p + 1, idx_lo := idx_lo p - 1\<rparr>,
         set_slot es (wlo p), Some (idx_lo p))"
proof -
  have "wlo p < cap" using inv rmid_bounds max_cap by (auto simp: mga_inv_def)
  then show ?thesis
    using iffD2 [OF not_le free] full side diff_eq(2) [OF inv] slot len
    by (simp add: mga_alloc_entry_def call_tstset call_tst Let_def)
qed

lemma alloc_full:
  assumes "num_entries p \<ge> total_entries ma"
  shows "mga_alloc_entry ma p es = Inr (p, es, None)"
  using assms by (simp add: mga_alloc_entry_def)

text \<open>Each kind of allocation keeps the invariant.\<close>

lemma num_plus1:
  assumes "num_entries p < total_entries ma"
  shows "unat (num_entries p + 1) = unat (num_entries p) + 1"
  using assms by (rule unat_plus1_less)

lemma inv_inside:
  assumes inv: "mga_inv ma p es" and free: "num_entries p < total_entries ma"
    and k: "wlo p < k" "k < whi p" "\<not> taken ma es k"
  shows "mga_inv ma (p\<lparr>num_entries := num_entries p + 1\<rparr>) (set_slot es k)"
proof -
  have "window ma (p\<lparr>num_entries := num_entries p + 1\<rparr>) (set_slot es k) = insert k (window ma p es)"
    using k by (auto simp: window_def)
  moreover have "k \<notin> window ma p es" using k by (simp add: window_def)
  ultimately show ?thesis
    using inv k num_plus1 [OF free] by (auto simp: mga_inv_def)
qed

lemma inv_grow_hi:
  assumes inv: "mga_inv ma p es" and free: "num_entries p < total_entries ma"
    and room: "whi p \<le> rmax ma"
  shows "mga_inv ma (p\<lparr>num_entries := num_entries p + 1, idx_hi := idx_hi p + 1\<rparr>) (set_slot es (whi p))"
    and "\<not> taken ma es (whi p)"
proof -
  let ?p = "p\<lparr>num_entries := num_entries p + 1, idx_hi := idx_hi p + 1\<rparr>"
  have b: "wlo p < whi p" "rmin ma \<le> wlo p + 1" using inv by (auto simp: mga_inv_def)
  show fr: "\<not> taken ma es (whi p)" using inv b room by (auto simp: mga_inv_def)
  have hi1: "unat (idx_hi p + 1) = whi p + 1" using room max_int by (intro unat_plus1) simp
  have "window ma ?p (set_slot es (whi p)) = insert (whi p) (window ma p es)"
    using b hi1 by (auto simp: window_def)
  moreover have "whi p \<notin> window ma p es" by (simp add: window_def)
  ultimately show "mga_inv ma ?p (set_slot es (whi p))"
    using inv room num_plus1 [OF free] hi1 by (auto simp: mga_inv_def)
qed

lemma inv_grow_lo:
  assumes inv: "mga_inv ma p es" and free: "num_entries p < total_entries ma"
    and room: "rmin ma \<le> wlo p" "0 < wlo p"
  shows "mga_inv ma (p\<lparr>num_entries := num_entries p + 1, idx_lo := idx_lo p - 1\<rparr>) (set_slot es (wlo p))"
    and "\<not> taken ma es (wlo p)"
proof -
  let ?p = "p\<lparr>num_entries := num_entries p + 1, idx_lo := idx_lo p - 1\<rparr>"
  have b: "wlo p < whi p" "wlo p \<le> rmax ma" using inv rmid_bounds by (auto simp: mga_inv_def)
  show fr: "\<not> taken ma es (wlo p)" using inv b room by (auto simp: mga_inv_def)
  have lo1: "unat (idx_lo p - 1) = wlo p - 1" using room by (simp add: unat_minus1)
  have "window ma ?p (set_slot es (wlo p)) = insert (wlo p) (window ma p es)"
    using b lo1 room by (auto simp: window_def)
  moreover have "wlo p \<notin> window ma p es" by (simp add: window_def)
  ultimately show "mga_inv ma ?p (set_slot es (wlo p))"
    using inv room num_plus1 [OF free] lo1 by (auto simp: mga_inv_def)
qed

theorem alloc_correct:
  assumes inv: "mga_inv ma p es" and len: "alen es = cap"
    and free: "num_entries p < total_entries ma" and room: "alloc_room ma p"
  shows "\<exists>p' i. mga_alloc_entry ma p es = Inr (p', set_slot es (unat i), Some i) \<and>
    mga_inv ma p' (set_slot es (unat i)) \<and> num_entries p' = num_entries p + 1 \<and>
    rmin ma \<le> unat i \<and> unat i \<le> rmax ma \<and> \<not> taken ma es (unat i)"
proof -
  have b: "rmin ma \<le> wlo p + 1" "whi p \<le> rmax ma + 1" "wlo p < whi p" "wlo p \<le> rmax ma"
    using inv rmid_bounds by (auto simp: mga_inv_def)
  consider (inside) "idx_hi p - idx_lo p - 1 > num_entries p"
    | (hi) "\<not> idx_hi p - idx_lo p - 1 > num_entries p" "mga_more_lo_than_hi ma p" "whi p \<le> rmax ma"
    | (lo) "\<not> idx_hi p - idx_lo p - 1 > num_entries p" "\<not> mga_more_lo_than_hi ma p"
        "rmin ma \<le> wlo p" "0 < wlo p"
    using room diff_eq(1) [OF inv] by (auto simp: alloc_room_def word_nat split: if_splits)
  then show ?thesis
  proof cases
    case inside
    from alloc_inside [OF inv len free inside] obtain k where k:
      "mga_alloc_entry ma p es = Inr (p\<lparr>num_entries := num_entries p + 1\<rparr>, set_slot es (unat k), Some k)"
      "wlo p < unat k" "unat k < whi p" "\<not> taken ma es (unat k)" .
    with inv_inside [OF inv free k(2,3,4)] b show ?thesis by auto
  next
    case hi
    with inv_grow_hi [OF inv free hi(3)] alloc_grow_hi [OF inv len free hi(1,2)] b max_cap
    show ?thesis by auto
  next
    case lo
    with inv_grow_lo [OF inv free lo(3,4)] alloc_grow_lo [OF inv len free lo(1,2)] b
    show ?thesis by auto
  qed
qed

text \<open>The two loops that tighten the window after a release.\<close>

lemma shrink_lo_spec:
  assumes "alen es = cap" "unat mid < cap"
  shows "\<exists>lo'. shrink_lo ma es mid lo = Inr (lo', es) \<and> unat lo \<le> unat lo' \<and>
    (unat lo \<le> unat mid \<longrightarrow> unat lo' \<le> unat mid) \<and>
    (unat lo' < unat mid \<longrightarrow> taken ma es (unat lo' + 1)) \<and>
    (\<forall>k. unat lo < k \<and> k \<le> unat lo' \<longrightarrow> \<not> taken ma es k)"
  using assms
proof (induction "unat mid - unat lo" arbitrary: lo rule: less_induct)
  case less
  show ?case
  proof (cases "lo < mid \<and> \<not> taken ma es (unat lo + 1)")
    case True
    then have suc: "unat (lo + 1) = unat lo + 1" and lt: "unat lo < unat mid"
      using unat_plus1_less [of lo mid] by (simp_all add: word_nat)
    then have dec: "unat mid - unat (lo + 1) < unat mid - unat lo" by linarith
    from suc lt less.prems have "call_isempty ma es (lo + 1) MGA_OP_TST = Inr (ENTRY_AVAIL, es)"
      using True by (subst call_tst) auto
    moreover obtain lo' where "shrink_lo ma es mid (lo + 1) = Inr (lo', es)"
        "unat (lo + 1) \<le> unat lo'" "unat (lo + 1) \<le> unat mid \<longrightarrow> unat lo' \<le> unat mid"
        "unat lo' < unat mid \<longrightarrow> taken ma es (unat lo' + 1)"
        "\<forall>k. unat (lo + 1) < k \<and> k \<le> unat lo' \<longrightarrow> \<not> taken ma es k"
      using less.hyps [OF dec less.prems] by blast
    moreover have "\<not> taken ma es k" if "unat lo < k" "k \<le> unat lo'" for k
      using that True suc calculation(6) by (cases "k = unat lo + 1") auto
    ultimately show ?thesis
      using True suc lt by (auto simp: shrink_lo.simps [of ma es mid lo])
  next
    case False
    show ?thesis
    proof (cases "lo < mid")
      case True
      then have suc: "unat (lo + 1) = unat lo + 1" and lt: "unat lo < unat mid"
        by (simp_all add: unat_plus1_less word_nat)
      with less.prems have "call_isempty ma es (lo + 1) MGA_OP_TST = Inr (ENTRY_TAKEN, es)"
        using True False by (subst call_tst) auto
      with True False show ?thesis by (auto simp: shrink_lo.simps [of ma es mid lo])
    qed (auto simp: shrink_lo.simps [of ma es mid lo] word_nat)
  qed
qed

lemma shrink_hi_spec:
  assumes "alen es = cap" "unat hi \<le> cap" "unat lo < unat hi"
  shows "\<exists>hi'. shrink_hi ma es lo hi = Inr (hi', es) \<and> unat lo < unat hi' \<and> unat hi' \<le> unat hi \<and>
    (\<forall>k. unat hi' \<le> k \<and> k < unat hi \<longrightarrow> \<not> taken ma es k)"
  using assms
proof (induction "unat hi" arbitrary: hi rule: less_induct)
  case less
  have lo1: "unat (lo + 1) = unat lo + 1" using less.prems by (simp add: unat_plus1_less word_nat)
  have hi1: "unat (hi - 1) = unat hi - 1" using less.prems by (simp add: unat_minus1)
  show ?case
  proof (cases "hi > lo + 1")
    case False
    with less.prems show ?thesis by (auto simp: shrink_hi.simps [of ma es lo hi])
  next
    case True
    then have gt: "unat lo + 1 < unat hi" using lo1 by (simp add: word_nat)
    have call: "call_isempty ma es (hi - 1) MGA_OP_TST =
        Inr (if taken ma es (unat hi - 1) then ENTRY_TAKEN else ENTRY_AVAIL, es)"
      using less.prems hi1 gt by (subst call_tst) auto
    show ?thesis
    proof (cases "taken ma es (unat hi - 1)")
      case tk: True
      with True call less.prems show ?thesis by (auto simp: shrink_hi.simps [of ma es lo hi])
    next
      case fr: False
      have dec: "unat (hi - 1) < unat hi" and prem: "unat (hi - 1) \<le> cap" "unat lo < unat (hi - 1)"
        using less.prems hi1 gt by linarith+
      obtain hi' where "shrink_hi ma es lo (hi - 1) = Inr (hi', es)" "unat lo < unat hi'"
          "unat hi' \<le> unat (hi - 1)" "\<forall>k. unat hi' \<le> k \<and> k < unat (hi - 1) \<longrightarrow> \<not> taken ma es k"
        using less.hyps [OF dec less.prems(1) prem] by blast
      moreover have "\<not> taken ma es k" if "unat hi' \<le> k" "k < unat hi" for k
        using that fr hi1 calculation(4) by (cases "k = unat hi - 1") auto
      ultimately show ?thesis
        using True call fr hi1 by (auto simp: shrink_hi.simps [of ma es lo hi])
    qed
  qed
qed

lemma free_nothing:
  assumes "unat i \<le> wlo p \<or> whi p \<le> unat i \<or> \<not> taken ma es (unat i) \<and> unat i < cap \<and> alen es = cap"
  shows "mga_free_entry ma p es i = Inr (p, es)"
  using assms by (auto simp: mga_free_entry_def call_tst word_nat)

theorem free_correct:
  assumes inv: "mga_inv ma p es" and len: "alen es = cap" and i: "unat i \<in> window ma p es"
    and room: "free_room ma p es (unat i)"
  shows "\<exists>p'. mga_free_entry ma p es i = Inr (p', clr_slot es (unat i)) \<and>
    mga_inv ma p' (clr_slot es (unat i)) \<and> unat (num_entries p') + 1 = unat (num_entries p)"
proof -
  let ?es = "clr_slot es (unat i)"
  have b: "wlo p \<le> rmid ma" "wlo p < whi p" "rmin ma \<le> wlo p + 1" "whi p \<le> rmax ma + 1"
    and num: "unat (num_entries p) = card (window ma p es)"
    and out: "\<And>k. rmin ma \<le> k \<Longrightarrow> k \<le> rmax ma \<Longrightarrow> k \<le> wlo p \<or> whi p \<le> k \<Longrightarrow> \<not> taken ma es k"
    using inv by (auto simp: mga_inv_def)
  have ib: "wlo p < unat i" "unat i < whi p" "taken ma es (unat i)" using i by (auto simp: window_def)
  have ic: "unat i < cap" using ib b max_cap by simp
  obtain st where clr: "call_isempty ma es i MGA_OP_CLR = Inr (st, ?es)"
    using call_clr [OF ic len] by blast
  obtain lo' where lo: "shrink_lo ma ?es (mga_mid ma) (idx_lo p) = Inr (lo', ?es)"
      "wlo p \<le> unat lo'" "unat lo' \<le> rmid ma" "\<forall>k. wlo p < k \<and> k \<le> unat lo' \<longrightarrow> \<not> taken ma ?es k"
    using shrink_lo_spec [of ?es "mga_mid ma" "idx_lo p"] len b rmid_bounds max_cap by auto
  have "unat lo' < whi p"
  proof (cases "rmid ma < whi p")
    case False
    with room obtain j where "wlo p < j" "j < whi p" "taken ma es j" "j \<noteq> unat i"
      by (auto simp: free_room_def window_def)
    then show ?thesis using lo(4) [rule_format, of j] by (cases "j \<le> unat lo'") auto
  qed (use lo in simp)
  then obtain hi' where hi: "shrink_hi ma ?es lo' (idx_hi p) = Inr (hi', ?es)" "unat lo' < unat hi'"
      "unat hi' \<le> whi p" "\<forall>k. unat hi' \<le> k \<and> k < whi p \<longrightarrow> \<not> taken ma ?es k"
    using shrink_hi_spec [of ?es "idx_hi p" lo'] len b max_cap by auto
  let ?p = "p\<lparr>num_entries := num_entries p - 1, idx_lo := lo', idx_hi := hi'\<rparr>"
  have run: "mga_free_entry ma p es i = Inr (?p, ?es)"
    using ib ic len clr lo(1) hi(1)
    by (simp add: mga_free_entry_def call_tst word_nat mga_mid_def [symmetric])
  have "window ma ?p ?es = window ma p es - {unat i}"
    using lo(2,4) hi(3,4) by (auto simp: window_def) (metis not_le taken_clr_slot)+
  then have card: "card (window ma ?p ?es) = card (window ma p es) - 1"
    using i by simp
  have pos: "0 < card (window ma p es)" using i by (auto simp: card_gt_0_iff)
  then have n: "unat (num_entries p - 1) = card (window ma p es) - 1"
    using num by (simp add: unat_minus1)
  have "\<not> taken ma ?es k" if "rmin ma \<le> k" "k \<le> rmax ma" "k \<le> unat lo' \<or> unat hi' \<le> k" for k
    using that out [of k] lo(4) hi(4) by (metis not_le taken_clr_slot)
  then have "mga_inv ma ?p ?es"
    using b lo(2,3) hi(2,3) n card by (auto simp: mga_inv_def)
  with run n num pos show ?thesis by auto
qed

text \<open>While the window covers the taken slots, a release of any slot returns, and the window covers them again.\<close>

lemma free_total:
  assumes cov: "covers ma p es" and len: "alen es = cap" and i: "unat i < cap"
  shows "\<exists>p' es'. mga_free_entry ma p es i = Inr (p', es') \<and> covers ma p' es' \<and> es' \<in> {es, clr_slot es (unat i)} \<and>
    (rmin ma \<le> unat i \<longrightarrow> unat i \<le> rmax ma \<longrightarrow> \<not> taken ma es' (unat i))"
proof (cases "wlo p < unat i \<and> unat i < whi p \<and> taken ma es (unat i)")
  case False
  then have "mga_free_entry ma p es i = Inr (p, es)" using i len by (intro free_nothing) auto
  then show ?thesis using cov False by (auto simp: covers_def)
next
  case True
  let ?es = "clr_slot es (unat i)"
  obtain st where clr: "call_isempty ma es i MGA_OP_CLR = Inr (st, ?es)" using call_clr [OF i len] by blast
  obtain lo where lo: "shrink_lo ma ?es (mga_mid ma) (idx_lo p) = Inr (lo, ?es)" "wlo p \<le> unat lo"
      "unat lo \<le> rmid ma" "\<forall>k. wlo p < k \<and> k \<le> unat lo \<longrightarrow> \<not> taken ma ?es k"
    using shrink_lo_spec [of ?es "mga_mid ma" "idx_lo p"] len cov rmid_bounds max_cap by (auto simp: covers_def)
  obtain hi where hi: "shrink_hi ma ?es lo (idx_hi p) = Inr (hi, ?es)" "unat hi \<le> whi p"
      "\<forall>k. unat hi \<le> k \<and> k < whi p \<longrightarrow> \<not> taken ma ?es k"
  proof (cases "unat lo < whi p")
    case True
    then show ?thesis using shrink_hi_spec [of ?es "idx_hi p" lo] len cov max_cap that by (auto simp: covers_def)
  next
    case False
    have "unat (lo + 1) = unat lo + 1" using lo(3) rmid_bounds max_int by (intro unat_plus1) simp
    then have "\<not> lo + 1 < idx_hi p" using False by (simp add: word_nat)
    then show ?thesis using that [of "idx_hi p"] shrink_hi.simps [of ma ?es lo "idx_hi p"] by auto
  qed
  have "mga_free_entry ma p es i = Inr (p\<lparr>num_entries := num_entries p - 1, idx_lo := lo, idx_hi := hi\<rparr>, ?es)"
    using True i len clr lo(1) hi(1) by (simp add: mga_free_entry_def call_tst word_nat mga_mid_def [symmetric])
  moreover have "covers ma (p\<lparr>num_entries := num_entries p - 1, idx_lo := lo, idx_hi := hi\<rparr>) ?es"
    using cov lo(3,4) hi(2,3) unfolding covers_def by (auto) (metis not_le taken_clr_slot)+
  ultimately show ?thesis by auto
qed

text \<open>On the abstract level: an allocation adds a fresh slot, a release removes its slot.\<close>

lemma taken_slots_set:
  assumes "rmin ma \<le> i" "i \<le> rmax ma"
  shows "taken_slots ma (set_slot es i) = insert i (taken_slots ma es)"
  using assms by (auto simp: taken_slots_def)

lemma taken_slots_clr: "taken_slots ma (clr_slot es i) = taken_slots ma es - {i}"
  by (auto simp: taken_slots_def)

lemma taken_slots_window:
  assumes "mga_inv ma p es"
  shows "taken_slots ma es = window ma p es"
  using assms by (auto simp: taken_slots_def window_def mga_inv_def)

text \<open>Filling a fresh array: the window grows by turns to the left and to the right.\<close>

lemma fresh_inv:
  assumes "mga_fresh ma p" "taken_slots ma es = {}"
  shows "mga_inv ma p es" "wlo p = rmid ma" "whi p = rmid ma + 1"
proof -
  show lo: "wlo p = rmid ma" using assms by (simp add: mga_fresh_def)
  have "unat (mga_mid ma + 1) = rmid ma + 1"
    using rmid_bounds max_int by (intro unat_plus1) simp
  then show hi: "whi p = rmid ma + 1" using assms by (simp add: mga_fresh_def)
  have "window ma p es = {}" using lo hi by (auto simp: window_def)
  then show "mga_inv ma p es"
    using assms lo hi rmid_bounds by (auto simp: mga_inv_def mga_fresh_def taken_slots_def)
qed

lemma fill_step:
  assumes inv: "mga_inv ma p es" and len: "alen es = cap"
    and num: "unat (num_entries p) = k" and k: "k < unat (total_entries ma)"
    and lo: "wlo p = rmid ma - (k + 1) div 2" and hi: "whi p = rmid ma + 1 + k div 2"
    and lob: "(k + 1) div 2 \<le> rmid ma"
    and room: "even k \<Longrightarrow> rmin ma + k div 2 \<le> rmid ma \<and> k div 2 < rmid ma"
      "odd k \<Longrightarrow> rmid ma + 1 + k div 2 \<le> rmax ma"
  obtains p' i where "mga_alloc_entry ma p es = Inr (p', set_slot es (unat i), Some i)"
    "mga_inv ma p' (set_slot es (unat i))" "unat (num_entries p') = k + 1"
    "wlo p' = rmid ma - (k + 2) div 2" "whi p' = rmid ma + 1 + (k + 1) div 2"
    "rmin ma \<le> unat i" "unat i \<le> rmax ma"
proof -
  have free: "num_entries p < total_entries ma" using num k by (simp add: word_nat)
  have full: "\<not> idx_hi p - idx_lo p - 1 > num_entries p"
    using diff_eq(1) [OF inv] num lo hi lob by (simp add: word_nat)
  have side: "mga_more_lo_than_hi ma p \<longleftrightarrow> odd k"
    using more_lo_iff [OF inv] lo hi lob by simp presburger
  have n1: "unat (num_entries p + 1) = k + 1" using num_plus1 [OF free] num by simp
  show ?thesis
  proof (cases "odd k")
    case True
    with room hi have rm: "whi p \<le> rmax ma" by simp
    have hi1: "unat (idx_hi p + 1) = whi p + 1" using rm max_int by (intro unat_plus1) simp
    have d: "(k + 2) div 2 = (k + 1) div 2" "(k + 1) div 2 = k div 2 + 1"
      using True by presburger+
    have c: "whi p < cap" using rm max_cap by simp
    show ?thesis
      by (rule that, rule alloc_grow_hi [OF inv len free full _ c inv_grow_hi(2) [OF inv free rm]],
          use True side in simp, rule inv_grow_hi(1) [OF inv free rm])
        (use n1 lo hi hi1 d rm rmid_bounds in simp_all)
  next
    case False
    with room lo have rm: "rmin ma \<le> wlo p" "0 < wlo p" by auto
    have lo1: "unat (idx_lo p - 1) = wlo p - 1" using rm by (simp add: unat_minus1)
    have d: "(k + 2) div 2 = (k + 1) div 2 + 1" "(k + 1) div 2 = k div 2"
      using False by presburger+
    have top: "wlo p \<le> rmax ma" using lo rmid_bounds by linarith
    show ?thesis
      by (rule that, rule alloc_grow_lo [OF inv len free full _ inv_grow_lo(2) [OF inv free rm]],
          use False side in simp, rule inv_grow_lo(1) [OF inv free rm])
        (use n1 lo hi lo1 d rm top in simp_all)
  qed
qed

lemma fill_state:
  assumes fresh: "mga_fresh ma p" "taken_slots ma es = {}" and len: "alen es = cap"
    and even: "even (unat (total_entries ma))" and k: "k < unat (total_entries ma)"
  shows "\<exists>p' es' is. alloc_run k ma p es = Inr (p', es', map Some is) \<and> mga_inv ma p' es' \<and>
    alen es' = cap \<and> unat (num_entries p') = k \<and>
    wlo p' = rmid ma - (k + 1) div 2 \<and> whi p' = rmid ma + 1 + k div 2 \<and>
    (\<forall>i \<in> set is. rmin ma \<le> unat i \<and> unat i \<le> rmax ma) \<and>
    (\<forall>j. rmax ma < j \<longrightarrow> aget es' j = aget es j)"
  using k
proof (induction k)
  case 0
  with fresh_inv [OF fresh] fresh len show ?case by (auto simp: mga_fresh_def)
next
  case (Suc k)
  then obtain p' es' "is" where IH: "alloc_run k ma p es = Inr (p', es', map Some is)"
      "mga_inv ma p' es'" "alen es' = cap" "unat (num_entries p') = k"
      "wlo p' = rmid ma - (k + 1) div 2" "whi p' = rmid ma + 1 + k div 2"
      "\<forall>i \<in> set is. rmin ma \<le> unat i \<and> unat i \<le> rmax ma"
      "\<forall>j. rmax ma < j \<longrightarrow> aget es' j = aget es j" by auto
  have k: "k < unat (total_entries ma)" using Suc.prems by simp
  obtain t where t: "unat (total_entries ma) = 2 * t" using even by (elim evenE)
  then have mid: "rmid ma = rmin ma + t" and top: "rmin ma + 2 * t = rmax ma + 1" and kt: "Suc k < 2 * t"
    using rmid_eq total_eq Suc.prems by simp_all
  have r: "(k + 1) div 2 \<le> rmid ma"
      "even k \<Longrightarrow> rmin ma + k div 2 \<le> rmid ma \<and> k div 2 < rmid ma"
      "odd k \<Longrightarrow> rmid ma + 1 + k div 2 \<le> rmax ma"
    using mid top kt by (auto elim!: evenE oddE)
  from fill_step [OF IH(2,3,4) k IH(5,6) r(1) r(2,3)] obtain p'' i where
    st: "mga_alloc_entry ma p' es' = Inr (p'', set_slot es' (unat i), Some i)"
      "mga_inv ma p'' (set_slot es' (unat i))" "unat (num_entries p'') = k + 1"
      "wlo p'' = rmid ma - (k + 2) div 2" "whi p'' = rmid ma + 1 + (k + 1) div 2"
      "rmin ma \<le> unat i" "unat i \<le> rmax ma" by blast
  have "alloc_run (Suc k) ma p es = Inr (p'', set_slot es' (unat i), map Some (is @ [i]))"
    using IH(1) st(1) by simp
  with st IH(3,7,8) show ?case
    by (intro exI [of _ p''] exI [of _ "set_slot es' (unat i)"] exI [of _ "is @ [i]"])
      (auto simp: aget_slot)
qed

text \<open>
  With an even number of slots the left side of the middle has one slot more than the right side,
  and the last allocation of a fill goes to the right: it leaves the managed range.
\<close>

lemma fill_edge:
  assumes fresh: "mga_fresh ma p" "taken_slots ma es = {}" and len: "alen es = cap"
    and even: "even (unat (total_entries ma))"
  obtains p' es' "is" where
    "alloc_run (unat (total_entries ma) - 1) ma p es = Inr (p', es', map Some is)"
    "\<forall>i \<in> set is. rmin ma \<le> unat i \<and> unat i \<le> rmax ma"
    "mga_inv ma p' es'" "alen es' = cap" "unat (num_entries p') + 1 = unat (total_entries ma)"
    "whi p' = rmax ma + 1" "mga_more_lo_than_hi ma p'" "\<not> idx_hi p' - idx_lo p' - 1 > num_entries p'"
    "\<forall>j. rmax ma < j \<longrightarrow> aget es' j = aget es j"
proof -
  obtain t where t: "unat (total_entries ma) = 2 * t" and t0: "0 < t"
    using even total_pos by (auto elim: evenE)
  then have mid: "rmid ma = rmin ma + t" and top: "rmin ma + 2 * t = rmax ma + 1"
    using rmid_eq total_eq by simp_all
  obtain p' es' "is" where st: "alloc_run (2 * t - 1) ma p es = Inr (p', es', map Some is)"
      "mga_inv ma p' es'" "alen es' = cap" "unat (num_entries p') = 2 * t - 1"
      "wlo p' = rmid ma - (2 * t - 1 + 1) div 2" "whi p' = rmid ma + 1 + (2 * t - 1) div 2"
      "\<forall>i \<in> set is. rmin ma \<le> unat i \<and> unat i \<le> rmax ma"
      "\<forall>j. rmax ma < j \<longrightarrow> aget es' j = aget es j"
    using fill_state [OF fresh len even, of "2 * t - 1"] t t0 by auto
  have "(2 * t - 1) div 2 = t - 1" using t0 by linarith
  then have hi: "whi p' = rmax ma + 1" using st(6) mid top t0 by simp
  have lo: "wlo p' = rmin ma" using st(5) mid t0 by simp
  have side: "mga_more_lo_than_hi ma p'"
    using more_lo_iff [OF st(2)] hi lo mid top t0 by simp
  have full: "\<not> idx_hi p' - idx_lo p' - 1 > num_entries p'"
    using diff_eq(1) [OF st(2)] st(4) hi lo top by (simp add: word_nat)
  show ?thesis
    using that [OF _ st(7,2,3) _ hi side full st(8)] st(1,4) t t0 by simp
qed

lemma call_past_end:
  assumes "unat i = cap" "cap * unat (entry_size ma) < 2 ^ 32" "alen es = cap"
  shows "call_isempty ma es i opr = Inl OutOfBounds"
proof -
  have "ENTRY_PTR ma i = cap * unat (entry_size ma)"
    using assms by (simp add: ENTRY_PTR_def unat_word_ariths)
  then show ?thesis
    using assms entry_size_pos by (simp add: call_isempty_def Let_def)
qed

lemma fill_overrun:
  assumes fresh: "mga_fresh ma p" "taken_slots ma es = {}" and len: "alen es = cap"
    and even: "even (unat (total_entries ma))"
  shows "rmax ma + 1 < cap \<Longrightarrow> \<not> taken ma es (rmax ma + 1) \<Longrightarrow>
      \<exists>p' es' is. alloc_run (unat (total_entries ma)) ma p es = Inr (p', es', map Some is @ [Some (idx_max ma + 1)])"
    and "rmax ma + 1 = cap \<Longrightarrow> cap * unat (entry_size ma) < 2 ^ 32 \<Longrightarrow>
      alloc_run (unat (total_entries ma)) ma p es = Inl OutOfBounds"
proof -
  from fill_edge [OF fresh len even] obtain p' es' "is" where
    e: "alloc_run (unat (total_entries ma) - 1) ma p es = Inr (p', es', map Some is)"
      "mga_inv ma p' es'" "alen es' = cap" "unat (num_entries p') + 1 = unat (total_entries ma)"
      "whi p' = rmax ma + 1" "mga_more_lo_than_hi ma p'" "\<not> idx_hi p' - idx_lo p' - 1 > num_entries p'"
      "\<forall>j. rmax ma < j \<longrightarrow> aget es' j = aget es j" by metis
  have free: "num_entries p' < total_entries ma" using e(4) by (simp add: word_nat)
  have "unat (idx_max ma + 1) = rmax ma + 1" using max_int by (intro unat_plus1) simp
  with e(5) have hi: "idx_hi p' = idx_max ma + 1" by (simp add: word_unat_eq_iff)
  have unfold: "alloc_run (unat (total_entries ma)) ma p es =
      bind_r (mga_alloc_entry ma p' es') (\<lambda>(p'', es'', i). Inr (p'', es'', map Some is @ [i]))"
    using e(1,4) alloc_run.simps(2) [of "unat (total_entries ma) - 1" ma p es] by simp
  show "\<exists>p' es' is. alloc_run (unat (total_entries ma)) ma p es = Inr (p', es', map Some is @ [Some (idx_max ma + 1)])"
    if "rmax ma + 1 < cap" "\<not> taken ma es (rmax ma + 1)"
  proof -
    have "\<not> taken ma es' (whi p')" using that e(5,8) by (simp add: taken_def)
    then show ?thesis
      using alloc_grow_hi [OF e(2,3) free e(7,6)] that e(5) hi unfold by auto
  qed
  show "alloc_run (unat (total_entries ma)) ma p es = Inl OutOfBounds"
    if "rmax ma + 1 = cap" "cap * unat (entry_size ma) < 2 ^ 32"
    using that e(3,5,6,7) unfold iffD2 [OF not_le free] diff_eq(2) [OF e(2)]
    by (simp add: mga_alloc_entry_def call_past_end)
qed

text \<open>
  The two ways in which a window that has moved to the left of the middle leaves its bounds. When
  its last slot is released, \<^verbatim>\<open>idx_lo\<close> runs past \<^verbatim>\<open>idx_hi\<close> and the next allocation fails its
  assertion; while it is full, every allocation goes to the left, below \<^verbatim>\<open>idx_min\<close> at the end.
\<close>

lemma free_last_left:
  assumes inv: "mga_inv ma p es" and len: "alen es = cap"
    and last: "window ma p es = {unat i}" and left: "whi p \<le> rmid ma"
  shows "\<exists>p'. mga_free_entry ma p es i = Inr (p', clr_slot es (unat i)) \<and>
    num_entries p' = 0 \<and> wlo p' = rmid ma \<and> whi p' \<le> wlo p' \<and>
    mga_alloc_entry ma p' (clr_slot es (unat i)) = Inl AssertFail"
proof -
  let ?es = "clr_slot es (unat i)"
  have b: "wlo p \<le> rmid ma" "wlo p < whi p" "rmin ma \<le> wlo p + 1" "whi p \<le> rmax ma + 1"
    and num: "unat (num_entries p) = 1"
    using inv last by (auto simp: mga_inv_def)
  have ib: "wlo p < unat i" "unat i < whi p" "taken ma es (unat i)"
    using last by (auto simp: window_def set_eq_iff)
  have ic: "unat i < cap" using ib b max_cap by simp
  have none: "\<not> taken ma ?es k" if "wlo p < k" "k \<le> rmid ma" for k
  proof (cases "k < whi p")
    case True
    then have "taken ma es k \<longrightarrow> k = unat i" using last that by (auto simp: window_def set_eq_iff)
    then show ?thesis by auto
  next
    case False
    then show ?thesis using inv that b rmid_bounds by (auto simp: mga_inv_def)
  qed
  obtain st where clr: "call_isempty ma es i MGA_OP_CLR = Inr (st, ?es)"
    using call_clr [OF ic len] by blast
  obtain lo' where lo: "shrink_lo ma ?es (mga_mid ma) (idx_lo p) = Inr (lo', ?es)"
      "wlo p \<le> unat lo'" "unat lo' \<le> rmid ma" "unat lo' < rmid ma \<longrightarrow> taken ma ?es (unat lo' + 1)"
    using shrink_lo_spec [of ?es "mga_mid ma" "idx_lo p"] len b rmid_bounds max_cap by auto
  have lo': "lo' = mga_mid ma"
    using lo(2-4) none [of "unat lo' + 1"] by (cases "unat lo' < rmid ma") (auto simp: word_unat_eq_iff)
  have mid1: "unat (mga_mid ma + 1) = rmid ma + 1"
    using rmid_bounds max_int by (intro unat_plus1) simp
  have hi: "shrink_hi ma ?es lo' (idx_hi p) = Inr (idx_hi p, ?es)"
    unfolding lo' using left mid1
    by (simp add: shrink_hi.simps [of ma ?es "mga_mid ma" "idx_hi p"] word_less_nat_alt)
  let ?p = "p\<lparr>num_entries := num_entries p - 1, idx_lo := lo', idx_hi := idx_hi p\<rparr>"
  have run: "mga_free_entry ma p es i = Inr (?p, ?es)"
    using ib ic len clr lo(1) hi
    by (simp add: mga_free_entry_def call_tst word_nat mga_mid_def [symmetric])
  have n0: "num_entries p - 1 = 0" using num by (simp add: word_unat_eq_iff unat_minus1)
  have "unat (idx_hi p - mga_mid ma) = (if whi p = rmid ma then 0 else whi p + 2 ^ 32 - rmid ma)"
    using left by (simp add: unat_sub_if')
  then have "2 ^ 31 \<le> unat (idx_hi p - mga_mid ma - 1)"
    using left rmid_bounds max_int b by (simp add: unat_sub_if' split: if_splits) linarith
  then have "\<not> 0 \<le> sint (idx_hi p - mga_mid ma - 1)"
    using sint32_neg by fastforce
  then have "mga_alloc_entry ma ?p ?es = Inl AssertFail"
    using n0 lo' total_pos by (simp add: mga_alloc_entry_def c_assert_def word_nat)
  with run n0 lo' left show ?thesis by auto
qed

lemma alloc_left_of_range:
  assumes inv: "mga_inv ma p es" and len: "alen es = cap"
    and left: "whi p \<le> rmid ma" and full: "\<not> idx_hi p - idx_lo p - 1 > num_entries p"
    and edge: "wlo p < rmin ma" and slot: "\<not> taken ma es (wlo p)"
  shows "\<exists>p'. mga_alloc_entry ma p es = Inr (p', set_slot es (wlo p), Some (idx_lo p)) \<and>
    unat (idx_lo p) < rmin ma"
proof -
  have side: "\<not> mga_more_lo_than_hi ma p" using more_lo_iff [OF inv] left by simp
  have "unat (num_entries p) < unat (total_entries ma)"
    using window_full [OF inv full] left edge total_eq rmid_eq inv total_pos
    by (auto simp: mga_inv_def)
  then have free: "num_entries p < total_entries ma" by (simp add: word_nat)
  show ?thesis using alloc_grow_lo [OF inv len free full side slot] edge by auto
qed

end

subsection \<open>Windows without assumptions\<close>

text \<open>
  What every sequence of operations keeps, whatever it does to the rest: the lower end is at or below the middle,
  or has wrapped around below 0; the upper end is at most \<open>n\<close>. (A window may be inverted: its upper end below its
  lower end.)
\<close>

definition win_ok :: "'e mgarray_t \<Rightarrow> nat \<Rightarrow> mga_info_t \<Rightarrow> bool" where
  "win_ok ma n p \<longleftrightarrow> (idx_lo p \<le> mga_mid ma \<or> idx_lo p = -1) \<and> unat (idx_hi p) \<le> n"

lemma call_index:
  assumes "call_isempty ma es i opr = Inr r" "entry_size ma = 52" "unat i < 2 ^ 20 \<or> i = -1"
  shows "unat i < alen es" "i \<noteq> -1"
proof -
  have m: "i \<noteq> -1"
  proof
    assume "i = -1"
    then have "ENTRY_PTR ma i = 4294967244" by (simp add: ENTRY_PTR_def assms(2))
    then show False using assms(1,2) by (simp add: call_isempty_def Let_def)
  qed
  with assms(3) have "unat i * 52 < 2 ^ 32" by auto
  then have "ENTRY_PTR ma i = unat i * 52" by (simp add: ENTRY_PTR_def assms(2) unat_word_ariths)
  then show "unat i < alen es"
    using assms(1,2) by (auto simp: call_isempty_def Let_def bind_r_Inr_iff arr_rd_def split: if_splits)
  show "i \<noteq> -1" by (rule m)
qed

lemma more_lo_bound:
  assumes "mga_more_lo_than_hi ma p" "idx_lo p \<le> mga_mid ma \<or> idx_lo p = -1" "unat (mga_mid ma) < 2 ^ 20"
  shows "unat (idx_hi p) \<le> 2 * unat (mga_mid ma) + 1"
proof -
  let ?mid = "mga_mid ma" and ?x = "idx_hi p - 1 - mga_mid ma"
  have "unat (?mid - idx_lo p) \<le> unat ?mid + 1"
  proof (cases "idx_lo p = -1")
    case True
    then show ?thesis using assms(3) by (simp add: unat_word_ariths)
  next
    case False
    with assms(2) have "unat (?mid - idx_lo p) = unat ?mid - unat (idx_lo p)" by (intro unat_minus) (simp add: word_le_nat_alt)
    then show ?thesis by simp
  qed
  moreover have "unat ?x < unat (?mid - idx_lo p)"
    using assms(1) by (simp add: mga_more_lo_than_hi_def mga_mid_def Let_def word_less_nat_alt)
  ultimately have x: "unat ?x \<le> unat ?mid" by linarith
  have "idx_hi p = ?x + (?mid + 1)" by simp
  also have "unat \<dots> \<le> unat ?x + (unat ?mid + 1)"
    using unat_word_ariths(1) [of ?x "?mid + 1"] unat_word_ariths(1) [of ?mid 1] by simp
  finally show ?thesis using x by linarith
qed

lemma alloc_window:
  assumes run: "mga_alloc_entry ma p es = Inr (p', es', r)" and win: "win_ok ma n p" and size: "entry_size ma = 52"
    and small: "unat (mga_mid ma) < 2 ^ 20" "n < 2 ^ 20" and top: "alen es \<le> n \<or> 2 * unat (mga_mid ma) + 2 \<le> n"
  shows "win_ok ma n p'"
proof -
  have hi: "unat (idx_hi p) < 2 ^ 20" using win small(2) by (simp add: win_ok_def)
  have "idx_lo p' = idx_lo p \<and> idx_hi p' = idx_hi p \<or>
    (\<exists>s. call_isempty ma es (idx_hi p) MGA_OP_TSTSET = Inr s) \<and> mga_more_lo_than_hi ma p \<and> idx_lo p' = idx_lo p \<and> idx_hi p' = idx_hi p + 1 \<or>
    (\<exists>s. call_isempty ma es (idx_lo p) MGA_OP_TSTSET = Inr s) \<and> idx_lo p' = idx_lo p - 1 \<and> idx_hi p' = idx_hi p"
  proof (cases "num_entries p \<ge> total_entries ma \<or> idx_hi p - idx_lo p - 1 > num_entries p")
    case True
    then have "idx_lo p' = idx_lo p \<and> idx_hi p' = idx_hi p"
      using run by (auto simp: mga_alloc_entry_def bind_r_Inr_iff split: if_splits option.splits)
    then show ?thesis ..
  next
    case False
    then show ?thesis
      using run by (cases "mga_more_lo_than_hi ma p") (auto simp: mga_alloc_entry_def bind_r_Inr_iff Let_def)
  qed
  then consider "idx_lo p' = idx_lo p" "idx_hi p' = idx_hi p"
    | s where "call_isempty ma es (idx_hi p) MGA_OP_TSTSET = Inr s" "mga_more_lo_than_hi ma p" "idx_lo p' = idx_lo p" "idx_hi p' = idx_hi p + 1"
    | s where "call_isempty ma es (idx_lo p) MGA_OP_TSTSET = Inr s" "idx_lo p' = idx_lo p - 1" "idx_hi p' = idx_hi p"
    by blast
  then show ?thesis
  proof cases
    case 2
    have "unat (idx_hi p) < alen es" using call_index(1) [OF 2(1) size] hi by simp
    moreover have "unat (idx_hi p) \<le> 2 * unat (mga_mid ma) + 1" using more_lo_bound [OF 2(2)] win small(1) by (simp add: win_ok_def)
    moreover have "unat (idx_hi p + 1) = unat (idx_hi p) + 1" using hi by (intro unat_plus1) simp
    ultimately show ?thesis using win top 2(3,4) by (auto simp: win_ok_def)
  next
    case 3
    have lo: "idx_lo p \<le> mga_mid ma" using call_index(2) [OF 3(1) size] win small(1) by (auto simp: win_ok_def word_le_nat_alt)
    have "idx_lo p - 1 \<le> mga_mid ma \<or> idx_lo p - 1 = -1"
    proof (cases "idx_lo p = 0")
      case False
      then have "unat (idx_lo p - 1) = unat (idx_lo p) - 1" by (simp add: unat_minus1 unat_gt_0)
      then have "unat (idx_lo p - 1) \<le> unat (mga_mid ma)" using lo unfolding word_le_nat_alt by linarith
      then show ?thesis unfolding word_le_nat_alt ..
    qed simp
    then show ?thesis using win 3(2,3) by (simp add: win_ok_def)
  qed (use win in \<open>simp add: win_ok_def\<close>)
qed

lemma shrink_lo_bound:
  "shrink_lo ma es mid lo = Inr (lo', es') \<Longrightarrow> lo \<le> mid \<or> lo = -1 \<Longrightarrow> lo' \<le> mid \<or> lo' = -1"
proof (induction ma es mid lo rule: shrink_lo.induct)
  case (1 ma es mid lo)
  show ?case
  proof (cases "lo < mid")
    case True
    then have "lo + 1 \<le> mid" by (rule inc_le)
    moreover have "bind_r (call_isempty ma es (lo + 1) MGA_OP_TST) (\<lambda>(status, es').
        if status = ENTRY_AVAIL then shrink_lo ma es' mid (lo + 1) else Inr (lo, es')) = Inr (lo', es')"
      using 1(2) True by (simp add: shrink_lo.simps [of ma es mid lo])
    ultimately show ?thesis using 1(1) [OF True] 1(3) by (auto simp: bind_r_Inr_iff split: if_splits)
  next
    case False
    then show ?thesis using 1(2,3) by (simp add: shrink_lo.simps [of ma es mid lo])
  qed
qed

lemma shrink_hi_bound: "shrink_hi ma es lo hi = Inr (hi', es') \<Longrightarrow> unat hi' \<le> unat hi"
proof (induction ma es lo hi rule: shrink_hi.induct)
  case (1 ma es lo hi)
  show ?case
  proof (cases "hi > lo + 1")
    case True
    then have "unat (hi - 1) \<le> unat hi" by (simp add: unat_minus1 word_less_nat_alt)
    moreover have "bind_r (call_isempty ma es (hi - 1) MGA_OP_TST) (\<lambda>(status, es').
        if status = ENTRY_AVAIL then shrink_hi ma es' lo (hi - 1) else Inr (hi, es')) = Inr (hi', es')"
      using 1(2) True by (simp add: shrink_hi.simps [of ma es lo hi])
    ultimately show ?thesis using 1(1) [OF True] by (force simp: bind_r_Inr_iff split: if_splits)
  next
    case False
    then show ?thesis using 1(2) by (simp add: shrink_hi.simps [of ma es lo hi])
  qed
qed

lemma free_window:
  assumes run: "mga_free_entry ma p es i = Inr (p', es')" and win: "win_ok ma n p"
  shows "win_ok ma n p'"
proof -
  from run consider "p' = p" | es2 es3 es4 lo hi where
    "shrink_lo ma es2 (mga_mid ma) (idx_lo p) = Inr (lo, es3)" "shrink_hi ma es3 lo (idx_hi p) = Inr (hi, es4)"
    "idx_lo p' = lo" "idx_hi p' = hi"
    by (auto simp: mga_free_entry_def mga_mid_def bind_r_Inr_iff Let_def split: if_splits)
  then show ?thesis
  proof cases
    case 2
    then show ?thesis using win shrink_lo_bound [OF 2(1)] shrink_hi_bound [OF 2(2)] by (simp add: win_ok_def)
  qed (use win in simp)
qed

subsection \<open>What every call keeps\<close>

text \<open>
  The status function is the only access to the entries: the length of the array and every property
  of entries that the function keeps survive any call, whether or not the window is in order.
\<close>

definition all_entries :: "nat \<Rightarrow> ('e \<Rightarrow> bool) \<Rightarrow> 'e carray \<Rightarrow> bool" where
  "all_entries n Q es \<longleftrightarrow> alen es = n \<and> (\<forall>i. Q (aget es i))"

definition keeps :: "'e mgarray_t \<Rightarrow> ('e \<Rightarrow> bool) \<Rightarrow> bool" where
  "keeps ma Q \<longleftrightarrow> (\<forall>e opr. Q e \<longrightarrow> Q (snd (isempty_func ma e opr)))"

lemma call_keeps:
  assumes "keeps ma Q" "all_entries n Q es" "call_isempty ma es i opr = Inr (status, es')"
  shows "all_entries n Q es'"
  using assms
  by (auto simp: keeps_def all_entries_def call_isempty_def arr_rd_def arr_wr_def Let_def split_beta split: if_splits)

lemma interior_keeps:
  assumes "keeps ma Q" "all_entries n Q es" "alloc_interior ma es hi i = Inr (Some (j, es'))"
  shows "all_entries n Q es'"
  using assms
proof (induction ma es hi i rule: alloc_interior.induct)
  case (1 ma es hi i)
  from 1(4) obtain status es1 where call: "i < hi" "call_isempty ma es i MGA_OP_TSTSET = Inr (status, es1)"
    and rest: "(if status = ENTRY_AVAIL then Inr (Some (i, es1)) else alloc_interior ma es1 hi (i + 1)) = Inr (Some (j, es'))"
    by (subst (asm) alloc_interior.simps) (auto simp: c_simps split: if_splits)
  have "all_entries n Q es1" using call_keeps [OF 1(2,3) call(2)] .
  then show ?case using rest 1(1) [OF call(1) _ refl _ 1(2)] call(2) by (auto split: if_splits)
qed

lemma alloc_keeps:
  assumes "keeps ma Q" "all_entries n Q es" "mga_alloc_entry ma p es = Inr (p', es', r)"
  shows "all_entries n Q es'"
  using assms
  by (auto simp: mga_alloc_entry_def c_simps Let_def split: if_splits option.splits
      dest: interior_keeps call_keeps [OF assms(1)])

lemma shrink_lo_keeps:
  assumes "keeps ma Q" "all_entries n Q es" "shrink_lo ma es mid lo = Inr (lo', es')"
  shows "all_entries n Q es'"
  using assms
proof (induction ma es mid lo rule: shrink_lo.induct)
  case (1 ma es mid lo)
  show ?case
  proof (cases "lo < mid")
    case True
    with 1(4) obtain status es1 where call: "call_isempty ma es (lo + 1) MGA_OP_TST = Inr (status, es1)"
      and rest: "(if status = ENTRY_AVAIL then shrink_lo ma es1 mid (lo + 1) else Inr (lo, es1)) = Inr (lo', es')"
      by (subst (asm) shrink_lo.simps) (auto simp: c_simps)
    have "all_entries n Q es1" using call_keeps [OF 1(2,3) call] .
    then show ?thesis using rest 1(1) [OF True _ refl _ 1(2)] call by (auto split: if_splits)
  next
    case False
    then show ?thesis using 1(3,4) shrink_lo.simps [of ma es mid lo] by simp
  qed
qed

lemma shrink_hi_keeps:
  assumes "keeps ma Q" "all_entries n Q es" "shrink_hi ma es lo hi = Inr (hi', es')"
  shows "all_entries n Q es'"
  using assms
proof (induction ma es lo hi rule: shrink_hi.induct)
  case (1 ma es lo hi)
  show ?case
  proof (cases "lo + 1 < hi")
    case True
    with 1(4) obtain status es1 where call: "call_isempty ma es (hi - 1) MGA_OP_TST = Inr (status, es1)"
      and rest: "(if status = ENTRY_AVAIL then shrink_hi ma es1 lo (hi - 1) else Inr (hi, es1)) = Inr (hi', es')"
      by (subst (asm) shrink_hi.simps) (auto simp: c_simps)
    have "all_entries n Q es1" using call_keeps [OF 1(2,3) call] .
    then show ?thesis using rest 1(1) [OF True _ refl _ 1(2)] call by (auto split: if_splits)
  next
    case False
    then show ?thesis using 1(3,4) shrink_hi.simps [of ma es lo hi] by simp
  qed
qed

lemma free_keeps:
  assumes k: "keeps ma Q" and es: "all_entries n Q es" and run: "mga_free_entry ma p es i = Inr (p', es')"
  shows "all_entries n Q es'"
proof (cases "es' = es")
  case False
  with run obtain s1 es1 where 1: "call_isempty ma es i MGA_OP_TST = Inr (s1, es1)"
    and rest: "es' = es1 \<or> (\<exists>s2 es2 lo es3 hi. call_isempty ma es1 i MGA_OP_CLR = Inr (s2, es2) \<and>
      shrink_lo ma es2 (idx_min ma + total_entries ma div 2) (idx_lo p) = Inr (lo, es3) \<and>
      shrink_hi ma es3 lo (idx_hi p) = Inr (hi, es'))"
    by (auto simp: mga_free_entry_def c_simps Let_def split: if_splits)
  note es1 = call_keeps [OF k es 1]
  from rest show ?thesis
  proof
    assume "\<exists>s2 es2 lo es3 hi. call_isempty ma es1 i MGA_OP_CLR = Inr (s2, es2) \<and>
      shrink_lo ma es2 (idx_min ma + total_entries ma div 2) (idx_lo p) = Inr (lo, es3) \<and>
      shrink_hi ma es3 lo (idx_hi p) = Inr (hi, es')"
    then show ?thesis by (meson k es1 call_keeps shrink_lo_keeps shrink_hi_keeps)
  qed (use es1 in simp)
qed (use es in simp)

subsection \<open>The test program\<close>

text \<open>
  \<^verbatim>\<open>test/mga_test.c\<close>: its entries, its status function (\<open>now\<close> is what \<^verbatim>\<open>time\<close> returns) and its main
  program, with every assertion.
\<close>

record myval_t =
  myval_ts :: u32
  myval_b :: u32
  myval_num :: u32

definition my_isempty_func :: "u32 \<Rightarrow> myval_t mga_isempty_func" where
  "my_isempty_func now entry opr =
     (let status = (if myval_ts entry = 0 then ENTRY_AVAIL else ENTRY_TAKEN) in
      case opr of
        MGA_OP_SET \<Rightarrow> (status, entry\<lparr>myval_ts := now\<rparr>)
      | MGA_OP_TSTSET \<Rightarrow> (status, if status = ENTRY_AVAIL then entry\<lparr>myval_ts := now\<rparr> else entry)
      | MGA_OP_CLR \<Rightarrow> (status, entry\<lparr>myval_ts := 0\<rparr>)
      | MGA_OP_TST \<Rightarrow> (status, entry))"

definition init_random_item :: "u32 \<Rightarrow> myval_t carray \<Rightarrow> u32 \<Rightarrow> myval_t carray" where
  "init_random_item now es idx =
     es\<lparr>aget := (aget es)(unat idx := \<lparr>myval_ts = now, myval_b = 0xBABE, myval_num = idx\<rparr>)\<rparr>"

definition test_arr :: "myval_t carray" where
  "test_arr = \<lparr>alen = 21, aget = (\<lambda>_. \<lparr>myval_ts = 0, myval_b = 0, myval_num = 0\<rparr>)\<rparr>"

text \<open>Static storage starts out as zero.\<close>

definition test_init :: "u32 \<Rightarrow> u32 \<Rightarrow> u32 \<Rightarrow> myval_t mgarray_t \<times> mga_info_t" where
  "test_init now index_min index_max =
     mga_init \<lparr>isempty_func = my_isempty_func now, entry_size = 0, total_entries = 0, idx_min = 0, idx_max = 0\<rparr>
       (Some test_arr) \<lparr>num_entries = 0, idx_lo = 0, idx_hi = 0\<rparr> 12 (my_isempty_func now) index_min index_max"

primrec test_fill :: "nat \<Rightarrow> u32 \<Rightarrow> myval_t mgarray_t \<Rightarrow> nat \<Rightarrow> mga_info_t \<times> myval_t carray \<Rightarrow> (mga_info_t \<times> myval_t carray) c_result" where
  "test_fill 0 now ma i st = Inr st"
| "test_fill (Suc n) now ma i st =
     bind_r (mga_alloc_entry ma (fst st) (snd st)) (\<lambda>(p, es, r). case r of None \<Rightarrow> Inl AssertFail | Some idx \<Rightarrow>
     bind_r (c_assert (i = 0 \<longrightarrow> idx = 12)) (\<lambda>_.
     bind_r (c_assert (i = 1 \<longrightarrow> idx = 13)) (\<lambda>_.
     bind_r (c_assert (mga_count p = int (i + 1))) (\<lambda>_.
       test_fill n now ma (i + 1) (p, init_random_item now es idx)))))"

primrec test_free :: "myval_t mgarray_t \<Rightarrow> u32 list \<Rightarrow> mga_info_t \<times> myval_t carray \<Rightarrow> (mga_info_t \<times> myval_t carray) c_result" where
  "test_free ma [] st = Inr st"
| "test_free ma (i # is) st = bind_r (mga_free_entry ma (fst st) (snd st) i) (\<lambda>st'. test_free ma is st')"

definition test_alloc :: "myval_t mgarray_t \<Rightarrow> mga_info_t \<times> myval_t carray \<Rightarrow> (mga_info_t \<times> myval_t carray) c_result" where
  "test_alloc ma st =
     bind_r (mga_alloc_entry ma (fst st) (snd st)) (\<lambda>(p, es, r).
     bind_r (c_assert (r \<noteq> None)) (\<lambda>_. Inr (p, es)))"

definition mga_test :: "u32 \<Rightarrow> unit c_result" where
  "mga_test now =
     (let (ma, p) = test_init now 9 15; mid = 12; capacity = nat (mga_capacity ma) in
      bind_r (c_assert (mga_capacity ma = 7)) (\<lambda>_.
      bind_r (c_assert (mga_lo p = mid)) (\<lambda>_.
      bind_r (c_assert (mga_hi p = mid + 1)) (\<lambda>_.
      bind_r (test_fill capacity now ma 0 (p, test_arr)) (\<lambda>st.
      bind_r (c_assert (mga_lo (fst st) = 8)) (\<lambda>_.
      bind_r (c_assert (mga_hi (fst st) = 16)) (\<lambda>_.
      bind_r (mga_alloc_entry ma (fst st) (snd st)) (\<lambda>(p, es, r).
      bind_r (c_assert (r = None)) (\<lambda>_.
      bind_r (test_free ma [mid, mid + 1, mid - 1] (p, es)) (\<lambda>st.
      bind_r (c_assert (mga_count (fst st) = int capacity - 3)) (\<lambda>_.
      bind_r (test_alloc ma st) (\<lambda>st.
      bind_r (test_alloc ma st) (\<lambda>st.
      bind_r (test_alloc ma st) (\<lambda>st.
      bind_r (c_assert (mga_count (fst st) = mga_capacity ma)) (\<lambda>_.
      bind_r (test_free ma [12, 11, 10, 9] st) (\<lambda>st.
      bind_r (c_assert (mga_lo (fst st) = mid)) (\<lambda>_.
      bind_r (test_free ma [12, 13, 14, 15] st) (\<lambda>st.
      bind_r (c_assert (mga_lo (fst st) = mid)) (\<lambda>_.
      bind_r (c_assert (mga_hi (fst st) = mid + 1)) (\<lambda>_.
      bind_r (test_free ma (map of_nat [0..<21]) st) (\<lambda>st.
      bind_r (c_assert (mga_count (fst st) = 0)) (\<lambda>_.
      bind_r (c_assert (mga_lo (fst st) = mid)) (\<lambda>_.
              c_assert (mga_hi (fst st) = mid + 1)))))))))))))))))))))))) "

lemma my_slot_status: "now \<noteq> 0 \<Longrightarrow> slot_status (my_isempty_func now)"
  by unfold_locales (simp_all add: my_isempty_func_def Let_def)

lemma test_managed:
  assumes "now \<noteq> 0" "unat lo \<le> unat hi" "unat hi < 21"
  shows "managed_array (fst (test_init now lo hi)) 21"
proof -
  have "unat (hi - lo + 1) = unat hi - unat lo + 1"
    using assms by (subst unat_plus1) (simp_all add: unat_minus)
  with assms my_slot_status [OF assms(1)] show ?thesis
    by (auto simp: managed_array_def managed_array_axioms_def test_init_def mga_init_def Let_def)
qed

lemma test_fresh:
  assumes "now \<noteq> 0" "unat lo \<le> unat hi" "unat hi < 21"
  shows "mga_inv (fst (test_init now lo hi)) (snd (test_init now lo hi)) test_arr"
proof -
  note ma = test_managed [OF assms]
  have "mga_fresh (fst (test_init now lo hi)) (snd (test_init now lo hi))"
    by (simp add: mga_fresh_def mga_mid_def test_init_def mga_init_def Let_def)
  moreover have "taken_slots (fst (test_init now lo hi)) test_arr = {}"
    by (simp add: taken_slots_def taken_def test_init_def mga_init_def Let_def test_arr_def my_isempty_func_def)
  ultimately show ?thesis by (rule managed_array.fresh_inv(1) [OF ma])
qed

subsection \<open>Allocation and release\<close>

text \<open>
  C5: While the window has room, an allocation hands out a slot of the managed range that was free,
  marks that slot and no other, counts it and keeps the invariant of the allocator.
\<close>

theorem mga_alloc_refines:
  assumes "managed_array ma cap" "mga_inv ma p es" "alen es = cap"
    and "num_entries p < total_entries ma" "alloc_room ma p"
  shows "\<exists>p' es' i. mga_alloc_entry ma p es = Inr (p', es', Some i) \<and> mga_inv ma p' es' \<and> alen es' = cap \<and>
    idx_min ma \<le> i \<and> i \<le> idx_max ma \<and> unat i \<notin> taken_slots ma es \<and>
    taken_slots ma es' = insert (unat i) (taken_slots ma es) \<and>
    (\<forall>j. j \<noteq> unat i \<longrightarrow> aget es' j = aget es j) \<and> num_entries p' = num_entries p + 1"
proof -
  from managed_array.alloc_correct [OF assms] obtain p' i where
    run: "mga_alloc_entry ma p es = Inr (p', managed_array.set_slot ma es (unat i), Some i)"
    and inv: "mga_inv ma p' (managed_array.set_slot ma es (unat i))" "num_entries p' = num_entries p + 1"
    and i: "rmin ma \<le> unat i" "unat i \<le> rmax ma" "\<not> taken ma es (unat i)" by blast
  have "\<forall>j. j \<noteq> unat i \<longrightarrow> aget (managed_array.set_slot ma es (unat i)) j = aget es j"
    by (simp add: managed_array.aget_slot [OF assms(1)])
  moreover have "unat i \<notin> taken_slots ma es" using i(3) by (simp add: taken_slots_def)
  ultimately show ?thesis
    using run inv i assms(3)
    by (simp add: managed_array.taken_slots_set [OF assms(1)] managed_array.alen_slot [OF assms(1)] word_nat)
qed

theorem mga_alloc_refines_witness:
  "\<exists>p es. mga_alloc_entry (fst (test_init 1 9 15)) (snd (test_init 1 9 15)) test_arr = Inr (p, es, Some 12) \<and>
     mga_inv (fst (test_init 1 9 15)) p es \<and> taken_slots (fst (test_init 1 9 15)) es = {12}"
proof -
  let ?ma = "fst (test_init 1 9 15)" and ?p = "snd (test_init 1 9 15)"
  have "managed_array ?ma 21" and "mga_inv ?ma ?p test_arr"
    by (rule test_managed test_fresh; simp)+
  moreover have "taken_slots ?ma test_arr = {}"
    by (simp add: taken_slots_def taken_def test_init_def mga_init_def test_arr_def my_isempty_func_def)
  moreover have "num_entries ?p < total_entries ?ma" "alloc_room ?ma ?p" "alen test_arr = 21"
    by (simp_all add: test_init_def mga_init_def alloc_room_def mga_more_lo_than_hi_def test_arr_def)
  moreover have "\<exists>p es. mga_alloc_entry ?ma ?p test_arr = Inr (p, es, Some 12)"
    by (simp add: mga_alloc_entry_def test_init_def mga_init_def mga_more_lo_than_hi_def call_isempty_def
        ENTRY_PTR_def test_arr_def my_isempty_func_def arr_rd_def arr_wr_def)
  ultimately show ?thesis using mga_alloc_refines [of ?ma 21 ?p test_arr] by force
qed

text \<open>
  C6: Releasing a taken slot, as long as the window reaches over the middle of the range or another
  slot stays taken, frees that slot and no other, counts it and keeps the invariant of the allocator.
\<close>

theorem mga_free_refines:
  assumes "managed_array ma cap" "mga_inv ma p es" "alen es = cap"
    and i: "unat i \<in> taken_slots ma es" and room: "free_room ma p es (unat i)"
  shows "\<exists>p' es'. mga_free_entry ma p es i = Inr (p', es') \<and> mga_inv ma p' es' \<and> alen es' = cap \<and>
    taken_slots ma es' = taken_slots ma es - {unat i} \<and>
    (\<forall>j. j \<noteq> unat i \<longrightarrow> aget es' j = aget es j) \<and> unat (num_entries p') + 1 = unat (num_entries p)"
proof -
  have "unat i \<in> window ma p es"
    using i managed_array.taken_slots_window [OF assms(1,2)] by simp
  from managed_array.free_correct [OF assms(1-3) this room] obtain p' where
    run: "mga_free_entry ma p es i = Inr (p', managed_array.clr_slot ma es (unat i))"
    and inv: "mga_inv ma p' (managed_array.clr_slot ma es (unat i))"
      "unat (num_entries p') + 1 = unat (num_entries p)" by blast
  have "\<forall>j. j \<noteq> unat i \<longrightarrow> aget (managed_array.clr_slot ma es (unat i)) j = aget es j"
    by (simp add: managed_array.aget_slot [OF assms(1)])
  with run inv assms(3) show ?thesis
    by (simp add: managed_array.taken_slots_clr [OF assms(1)] managed_array.alen_slot [OF assms(1)])
qed

theorem mga_free_refines_witness:
  "\<exists>p es p' es'. mga_alloc_entry (fst (test_init 1 9 15)) (snd (test_init 1 9 15)) test_arr = Inr (p, es, Some 12) \<and>
     mga_free_entry (fst (test_init 1 9 15)) p es 12 = Inr (p', es') \<and>
     taken_slots (fst (test_init 1 9 15)) es' = {}"
proof -
  let ?ma = "fst (test_init 1 9 15)" and ?p = "snd (test_init 1 9 15)"
  have ma: "managed_array ?ma 21" and inv: "mga_inv ?ma ?p test_arr"
    by (rule test_managed test_fresh; simp)+
  let ?es = "test_arr\<lparr>aget := (aget test_arr)(12 := \<lparr>myval_ts = 1, myval_b = 0, myval_num = 0\<rparr>)\<rparr>"
  let ?p' = "\<lparr>num_entries = 1, idx_lo = 11, idx_hi = 13\<rparr>"
  have run: "mga_alloc_entry ?ma ?p test_arr = Inr (?p', ?es, Some 12)"
    by (simp add: mga_alloc_entry_def test_init_def mga_init_def mga_more_lo_than_hi_def call_isempty_def
        ENTRY_PTR_def test_arr_def my_isempty_func_def arr_rd_def arr_wr_def)
  have taken: "taken_slots ?ma ?es = {12}"
    by (auto simp: taken_slots_def taken_def test_init_def mga_init_def test_arr_def my_isempty_func_def Let_def)
  have "managed_array.set_slot ?ma test_arr 12 = ?es"
    unfolding managed_array.set_slot_def [OF ma]
    by (simp add: test_init_def mga_init_def test_arr_def my_isempty_func_def)
  moreover have "num_entries ?p < total_entries ?ma" "alloc_room ?ma ?p" "alen test_arr = 21"
    by (simp_all add: test_init_def mga_init_def alloc_room_def mga_more_lo_than_hi_def test_arr_def)
  ultimately have inv': "mga_inv ?ma ?p' ?es"
    using managed_array.alloc_correct [OF ma inv] run by force
  have room: "free_room ?ma ?p' ?es 12"
    by (simp add: free_room_def mga_mid_def test_init_def mga_init_def)
  have "alen ?es = 21" by (simp add: test_arr_def)
  then have "\<exists>p es. mga_free_entry ?ma ?p' ?es 12 = Inr (p, es) \<and> taken_slots ?ma es = {}"
    using mga_free_refines [OF ma inv', of 12] taken room by force
  with run show ?thesis by blast
qed

text \<open>
  The program \<^verbatim>\<open>test/mga_test.c\<close> runs to its end: no assertion fails and no access leaves the array.
\<close>

theorem mga_test_passes: "mga_test 1 = Inr ()"
  by code_simp

text \<open>
  C35: Filling an array with an even number of slots goes wrong at the last slot. All allocations but
  the last hand out slots of the range; the last one grows the window to the right although only the
  leftmost slot is free, and takes slot \<^verbatim>\<open>idx_max + 1\<close>, or faults when the array ends there.
\<close>

theorem mga_fill_even_overruns:
  assumes "managed_array ma cap" "mga_fresh ma p" "taken_slots ma es = {}" "alen es = cap"
    and "even (unat (total_entries ma))"
  shows "(\<exists>p' es' is. alloc_run (unat (total_entries ma) - 1) ma p es = Inr (p', es', map Some is) \<and>
      (\<forall>i \<in> set is. idx_min ma \<le> i \<and> i \<le> idx_max ma)) \<and>
    (unat (idx_max ma) + 1 < cap \<longrightarrow> \<not> taken ma es (unat (idx_max ma) + 1) \<longrightarrow>
      (\<exists>p' es' is. alloc_run (unat (total_entries ma)) ma p es =
         Inr (p', es', map Some is @ [Some (idx_max ma + 1)]))) \<and>
    (unat (idx_max ma) + 1 = cap \<longrightarrow> cap * unat (entry_size ma) < 2 ^ 32 \<longrightarrow>
      alloc_run (unat (total_entries ma)) ma p es = Inl OutOfBounds)"
proof (intro conjI impI)
  note fresh = assms(1-5)
  show "\<exists>p' es' is. alloc_run (unat (total_entries ma) - 1) ma p es = Inr (p', es', map Some is) \<and>
      (\<forall>i \<in> set is. idx_min ma \<le> i \<and> i \<le> idx_max ma)"
    using managed_array.fill_edge [OF fresh] by (metis word_le_nat_alt)
qed (use managed_array.fill_overrun [OF assms(1-5)] in blast)+

theorem mga_fill_even_overruns_witness:
  "\<exists>p es is. alloc_run 6 (fst (test_init 1 9 14)) (snd (test_init 1 9 14)) test_arr =
     Inr (p, es, map Some is @ [Some 15])"
proof -
  let ?ma = "fst (test_init 1 9 14)" and ?p = "snd (test_init 1 9 14)"
  have "managed_array ?ma 21" by (rule test_managed) simp_all
  moreover have "mga_fresh ?ma ?p" by (simp add: mga_fresh_def mga_mid_def test_init_def mga_init_def)
  moreover have "taken_slots ?ma test_arr = {}" "\<not> taken ?ma test_arr 15"
    by (simp_all add: taken_slots_def taken_def test_init_def mga_init_def test_arr_def my_isempty_func_def)
  moreover have "total_entries ?ma = 6" "idx_max ?ma = 14" "alen test_arr = 21"
    by (simp_all add: test_init_def mga_init_def test_arr_def)
  ultimately show ?thesis using mga_fill_even_overruns [of ?ma 21 ?p test_arr] by simp
qed

text \<open>
  When releases have moved the whole window to the left of the middle, releasing its last slot
  moves \<^verbatim>\<open>idx_lo\<close> past \<^verbatim>\<open>idx_hi\<close>: the array is empty, and the next allocation aborts in
  \<^verbatim>\<open>assert(diff >= 0)\<close>.
\<close>

theorem mga_free_last_left_aborts:
  assumes "managed_array ma cap" "mga_inv ma p es" "alen es = cap"
    and "taken_slots ma es = {unat i}" "idx_hi p \<le> mga_mid ma"
  shows "\<exists>p' es'. mga_free_entry ma p es i = Inr (p', es') \<and> taken_slots ma es' = {} \<and>
    mga_alloc_entry ma p' es' = Inl AssertFail"
proof -
  have last: "window ma p es = {unat i}"
    using assms(4) managed_array.taken_slots_window [OF assms(1,2)] by simp
  have left: "whi p \<le> rmid ma" using assms(5) by (simp add: word_nat)
  from managed_array.free_last_left [OF assms(1-3) last left] show ?thesis
    using managed_array.taken_slots_clr [OF assms(1), of es "unat i"] assms(4) by fastforce
qed

theorem mga_free_last_left_aborts_witness:
  "let ma = fst (test_init 1 9 15); p = \<lparr>num_entries = 1, idx_lo = 10, idx_hi = 12\<rparr>;
       es = test_arr\<lparr>aget := (aget test_arr)(11 := \<lparr>myval_ts = 1, myval_b = 0, myval_num = 0\<rparr>)\<rparr>
   in \<exists>p' es'. mga_free_entry ma p es 11 = Inr (p', es') \<and> mga_alloc_entry ma p' es' = Inl AssertFail"
proof -
  let ?ma = "fst (test_init 1 9 15)" and ?p = "\<lparr>num_entries = 1, idx_lo = 10, idx_hi = 12\<rparr> :: mga_info_t"
  let ?es = "test_arr\<lparr>aget := (aget test_arr)(11 := \<lparr>myval_ts = 1, myval_b = 0, myval_num = 0\<rparr>)\<rparr>"
  have ma: "managed_array ?ma 21" by (rule test_managed) simp_all
  have taken: "taken ?ma ?es i \<longleftrightarrow> i = 11" for i
    by (simp add: taken_def test_init_def mga_init_def test_arr_def my_isempty_func_def Let_def)
  have w: "window ?ma ?p ?es = {11}" and t: "taken_slots ?ma ?es = {11}"
    by (auto simp: window_def taken_slots_def taken) (simp_all add: test_init_def mga_init_def)
  have "mga_inv ?ma ?p ?es"
    unfolding mga_inv_def w taken by (auto simp: mga_mid_def test_init_def mga_init_def)
  moreover have "alen ?es = 21" "idx_hi ?p \<le> mga_mid ?ma"
    by (simp_all add: test_arr_def mga_mid_def test_init_def mga_init_def)
  ultimately show ?thesis
    using mga_free_last_left_aborts [OF ma, of ?p ?es 11] t unfolding Let_def by force
qed

subsection \<open>Windows that only grow\<close>

text \<open>
  A window that has only grown since the start: its two ends have moved by turns, as far as the number of entries says.
  Before the last slot of the range is taken, the next allocation finds room.
\<close>

definition grown :: "'e mgarray_t \<Rightarrow> mga_info_t \<Rightarrow> bool" where
  "grown ma p \<longleftrightarrow> (let k = unat (num_entries p) in wlo p = rmid ma - (k + 1) div 2 \<and> whi p = rmid ma + 1 + k div 2)"

lemma grown_alloc:
  assumes ma: "managed_array ma cap" and inv: "mga_inv ma p es" and len: "alen es = cap" and gr: "grown ma p"
    and tot: "even (unat (total_entries ma))" "Suc (unat (num_entries p)) < unat (total_entries ma)"
  obtains p' i where "mga_alloc_entry ma p es = Inr (p', managed_array.set_slot ma es (unat i), Some i)"
    "mga_inv ma p' (managed_array.set_slot ma es (unat i))" "grown ma p'" "unat (num_entries p') = Suc (unat (num_entries p))"
    "\<not> taken ma es (unat i)" "unat i < cap" "num_entries p < total_entries ma" "alloc_room ma p"
proof -
  define k where "k = unat (num_entries p)"
  obtain t where t: "unat (total_entries ma) = 2 * t" using tot(1) by (elim evenE)
  then have mid: "rmid ma = rmin ma + t" and top: "rmin ma + 2 * t = rmax ma + 1"
    using managed_array.rmid_eq [OF ma] managed_array.total_eq [OF ma] by simp_all
  have r: "(k + 1) div 2 \<le> rmid ma" "even k \<Longrightarrow> rmin ma + k div 2 \<le> rmid ma \<and> k div 2 < rmid ma"
      "odd k \<Longrightarrow> rmid ma + 1 + k div 2 \<le> rmax ma"
    using mid top tot t by (auto simp: k_def elim!: evenE oddE)
  have w: "wlo p = rmid ma - (k + 1) div 2" "whi p = rmid ma + 1 + k div 2" using gr by (simp_all add: grown_def k_def Let_def)
  have k: "k < unat (total_entries ma)" using tot(2) by (simp add: k_def)
  obtain p' i where run: "mga_alloc_entry ma p es = Inr (p', managed_array.set_slot ma es (unat i), Some i)"
    "mga_inv ma p' (managed_array.set_slot ma es (unat i))" "unat (num_entries p') = k + 1"
    "wlo p' = rmid ma - (k + 2) div 2" "whi p' = rmid ma + 1 + (k + 1) div 2" "unat i \<le> rmax ma"
    by (rule managed_array.fill_step [OF ma inv len k_def [symmetric] k w r])
  have free: "num_entries p < total_entries ma" using k by (simp add: word_nat k_def)
  have "mga_more_lo_than_hi ma p \<longleftrightarrow> odd k"
    using managed_array.more_lo_iff [OF ma inv] w r(1) by simp presburger
  moreover have "0 < wlo p \<and> rmin ma \<le> wlo p" if "even k" using r(2) [OF that] w(1) that by (auto elim!: evenE)
  ultimately have room: "alloc_room ma p" using r(3) w(2) by (auto simp: alloc_room_def)
  have "\<not> taken ma es (unat i)" using managed_array.alloc_correct [OF ma inv len free room] run(1) by auto
  moreover have "unat i < cap" using run(6) managed_array.max_cap [OF ma] by simp
  moreover have "grown ma p'" using run(3-5) by (simp add: grown_def Let_def)
  ultimately show ?thesis using that run(1,2,3) room free by (simp add: k_def)
qed

end
