(* ===== verification/HashTable.thy ===== *)
theory HashTable
  imports Prelude "HOL-Library.Log_Nat"
begin

text \<open>
  The chained hash table of \<^verbatim>\<open>utils/hashtable.c\<close>. A table holds \<^emph>\<open>pointers\<close> to keys, and compares and
  hashes them through caller-supplied functions that read the memory behind them: in the model these
  functions take the memory (of type \<open>'m\<close>) as it is at the time of the call. Pointers are values
  of the types \<open>'k\<close> (keys) and \<open>'v\<close> (values) and are not null, a null result is \<^term>\<open>None\<close>. Whether
  \<^verbatim>\<open>malloc\<close> succeeds is an argument of the operations that call it. Ratios are single-precision
  numbers: rationals, rounded as IEEE 754 does.
\<close>

unbundle bit_operations_syntax

subsection \<open>The code\<close>

record ('m, 'k, 'v) HashTable =
  numOfBuckets :: u32
  numOfElements :: u32
  bucketArray :: "('k \<times> 'v) list list"
  idealRatio :: rat
  lowerRehashThreshold :: rat
  upperRehashThreshold :: rat
  keycmp :: "'m \<Rightarrow> 'k \<Rightarrow> 'k \<Rightarrow> int"
  valuecmp :: "'m \<Rightarrow> 'v \<Rightarrow> 'v \<Rightarrow> int"
  hashFunction :: "'m \<Rightarrow> 'k \<Rightarrow> u32"
  keyDeallocator :: "('k \<Rightarrow> 'm \<Rightarrow> 'm) option"
  valueDeallocator :: "('v \<Rightarrow> 'm \<Rightarrow> 'm) option"

text \<open>
  A non-negative rational rounded to the nearest single-precision number, ties to even. All the
  numbers here are quotients of 32-bit integers, so no exponent is out of range.
\<close>

definition f32 :: "rat \<Rightarrow> rat" where
  "f32 q =
     (if q \<le> 0 then 0
      else
        let (a, b) = quotient_of q;
            e0 = int (floorlog 2 (nat a)) - int (floorlog 2 (nat b));
            e = (if 2 powi e0 \<le> q then e0 else e0 - 1);
            ulp = 2 powi (e - 23);
            n = \<lfloor>q / ulp\<rfloor>;
            r = q / ulp - of_int n
        in of_int (if r < 1 / 2 \<or> r = 1 / 2 \<and> even n then n else n + 1) * ulp)"

definition pointercmp :: "'p \<Rightarrow> 'p \<Rightarrow> int" where
  "pointercmp pointer1 pointer2 = (if pointer1 \<noteq> pointer2 then 1 else 0)"

text \<open>The numeric address of a pointer, \<open>addr_of\<close>, is the machine's.\<close>

definition pointerHashFunction :: "('p \<Rightarrow> u64) \<Rightarrow> 'p \<Rightarrow> u32" where
  "pointerHashFunction addr_of pointer = drop_bit 4 (ucast (addr_of pointer))"

text \<open>
  The loops over the buckets (here and in \<^verbatim>\<open>HashTableRehash\<close>) count in an \<^verbatim>\<open>int\<close>; tables of 2^31 buckets and more, 16 gigabytes
  of pointers, for which that would overflow, are not considered.
\<close>

definition HashTableCreate ::
  "('k \<Rightarrow> u64) \<Rightarrow> bool \<Rightarrow> bool \<Rightarrow> u32 \<Rightarrow> ('m, 'k, 'v) HashTable option c_result"
where
  "HashTableCreate addr_of table_ok array_ok n =
     bind_r (c_assert (n > 0)) (\<lambda>_.
       if \<not> table_ok \<or> \<not> array_ok then Inr None
       else Inr (Some
         \<lparr>numOfBuckets = n, numOfElements = 0, bucketArray = replicate (unat n) [],
          idealRatio = 3, lowerRehashThreshold = 0, upperRehashThreshold = 15,
          keycmp = (\<lambda>_. pointercmp), valuecmp = (\<lambda>_. pointercmp),
          hashFunction = (\<lambda>_. pointerHashFunction addr_of),
          keyDeallocator = None, valueDeallocator = None\<rparr>))"

definition dealloc :: "('p \<Rightarrow> 'm \<Rightarrow> 'm) option \<Rightarrow> 'p \<Rightarrow> 'm \<Rightarrow> 'm" where
  "dealloc f p m = (case f of None \<Rightarrow> m | Some g \<Rightarrow> g p m)"

definition dealloc_pair :: "('m, 'k, 'v) HashTable \<Rightarrow> 'k \<times> 'v \<Rightarrow> 'm \<Rightarrow> 'm" where
  "dealloc_pair ht pair m =
     dealloc (valueDeallocator ht) (snd pair) (dealloc (keyDeallocator ht) (fst pair) m)"

definition HashTableDestroy :: "'m \<Rightarrow> ('m, 'k, 'v) HashTable \<Rightarrow> 'm" where
  "HashTableDestroy m ht = fold (dealloc_pair ht) (concat (bucketArray ht)) m"

text \<open>The walk down a bucket: the position of the first pair whose key compares equal.\<close>

primrec find_pair :: "('k \<Rightarrow> int) \<Rightarrow> ('k \<times> 'v) list \<Rightarrow> nat option" where
  "find_pair cmp [] = None"
| "find_pair cmp (pair # rest) =
     (if cmp (fst pair) \<noteq> 0 then map_option Suc (find_pair cmp rest) else Some 0)"

definition bucket_index :: "'m \<Rightarrow> ('m, 'k, 'v) HashTable \<Rightarrow> 'k \<Rightarrow> nat c_result" where
  "bucket_index m ht key =
     (if numOfBuckets ht = 0 then Inl DivByZero
      else
        let i = unat (hashFunction ht m key mod numOfBuckets ht) in
        if i < length (bucketArray ht) then Inr i else Inl OutOfBounds)"

definition HashTableGet :: "'m \<Rightarrow> ('m, 'k, 'v) HashTable \<Rightarrow> 'k \<Rightarrow> 'v option c_result" where
  "HashTableGet m ht key =
     bind_r (bucket_index m ht key) (\<lambda>i.
       let bucket = bucketArray ht ! i in
       case find_pair (keycmp ht m key) bucket of
         None \<Rightarrow> Inr None
       | Some n \<Rightarrow> Inr (Some (snd (bucket ! n))))"

definition HashTableContainsKey :: "'m \<Rightarrow> ('m, 'k, 'v) HashTable \<Rightarrow> 'k \<Rightarrow> bool c_result" where
  "HashTableContainsKey m ht key = bind_r (HashTableGet m ht key) (\<lambda>v. Inr (v \<noteq> None))"

definition HashTableContainsValue :: "'m \<Rightarrow> ('m, 'k, 'v) HashTable \<Rightarrow> 'v \<Rightarrow> bool" where
  "HashTableContainsValue m ht val =
     list_ex (\<lambda>bucket. list_ex (\<lambda>pair. valuecmp ht m val (snd pair) = 0) bucket) (bucketArray ht)"

function prime_loop :: "u32 \<Rightarrow> u32 \<Rightarrow> bool" where
  "prime_loop oddNumber i =
     (if i < 51 then
        if oddNumber = i then True
        else if oddNumber mod i = 0 then False
        else prime_loop oddNumber (i + 2)
      else True)"
  by pat_completeness auto
termination
proof (relation "measure (\<lambda>(n, i). 51 - unat i)", goal_cases)
  case (2 n i)
  then have "unat i < 51" by (simp add: word_less_nat_alt)
  moreover from this have "unat (i + 2) = unat i + 2" by (subst unat_plus) simp_all
  ultimately show ?case by simp
qed simp

declare prime_loop.simps [simp del]

definition isProbablePrime :: "u32 \<Rightarrow> bool" where
  "isProbablePrime oddNumber = prime_loop oddNumber 3"

text \<open>
  The search for the next probable prime, with 32-bit wrap-around. It stops because it meets 3 when
  it walks over the odd numbers, and 4 when it walks over the even ones.
\<close>

lemma isProbablePrime_3_4: "isProbablePrime 3" "isProbablePrime 4"
  by (simp_all add: isProbablePrime_def prime_loop.simps)

lemma step2_decreases:
  fixes d :: u32
  assumes "even d" "d \<noteq> 0"
  shows "unat (d - 2) < unat d"
proof -
  have "d \<noteq> 1" using assms by auto
  with assms have "2 \<le> unat d"
    by (metis One_nat_def Suc_1 less_2_cases not_le unat_0 unat_1 word_unat_eq_iff)
  then show ?thesis by (simp add: unat_minus)
qed

function next_probable_prime :: "u32 \<Rightarrow> u32" where
  "next_probable_prime n = (if isProbablePrime n then n else next_probable_prime (n + 2))"
  by pat_completeness auto
termination
proof (relation "measure (\<lambda>n. unat ((if odd n then 3 else 4) - n))", goal_cases)
  case (2 n)
  define t :: u32 where "t = (if odd n then 3 else 4)"
  have "even (t - n)" by (simp add: t_def)
  moreover have "t - n \<noteq> 0" using 2 isProbablePrime_3_4 by (auto simp: t_def split: if_splits)
  ultimately have "unat (t - n - 2) < unat (t - n)" by (rule step2_decreases)
  then have dec: "unat (t - (n + 2)) < unat (t - n)" by (simp only: diff_diff_eq)
  have "(if odd (n + 2) then 3 else 4) = t" by (simp add: t_def)
  with dec show ?case by (simp only: in_measure t_def [symmetric])
qed simp

declare next_probable_prime.simps [simp del]

text \<open>
  The quotient is converted to a 32-bit integer. Where it is infinite or does not fit, which C leaves undefined, the
  definition has what the x86-64 code does: the conversion goes through 64 bits and the upper half is dropped.
\<close>

definition calculateIdealNumOfBuckets :: "('m, 'k, 'v) HashTable \<Rightarrow> u32" where
  "calculateIdealNumOfBuckets ht =
     (let ideal = of_int \<lfloor>f32 (f32 (of_nat (unat (numOfElements ht))) / idealRatio ht)\<rfloor> in
      next_probable_prime (if ideal < 5 then 5 else ideal OR 1))"

text \<open>Moving a pair to the head of its bucket in the new array.\<close>

definition rehash_pair ::
  "('k \<Rightarrow> u32) \<Rightarrow> u32 \<Rightarrow> ('k \<times> 'v) list list \<Rightarrow> 'k \<times> 'v \<Rightarrow> ('k \<times> 'v) list list"
where
  "rehash_pair hash n buckets pair =
     (let i = unat (hash (fst pair) mod n) in buckets[i := pair # buckets ! i])"

definition HashTableRehash :: "'m \<Rightarrow> bool \<Rightarrow> ('m, 'k, 'v) HashTable \<Rightarrow> u32 \<Rightarrow> ('m, 'k, 'v) HashTable" where
  "HashTableRehash m array_ok ht n =
     (let n' = (if n = 0 then calculateIdealNumOfBuckets ht else n) in
      if n' = numOfBuckets ht then ht
      else if \<not> array_ok then ht
      else ht\<lparr>bucketArray :=
                foldl (rehash_pair (hashFunction ht m) n') (replicate (unat n') []) (concat (bucketArray ht)),
              numOfBuckets := n'\<rparr>)"

definition elementToBucketRatio :: "('m, 'k, 'v) HashTable \<Rightarrow> rat" where
  "elementToBucketRatio ht =
     f32 (f32 (of_nat (unat (numOfElements ht))) / f32 (of_nat (unat (numOfBuckets ht))))"

text \<open>
  Adding a pair: the return code, the memory and the table. \<open>pair_ok\<close> and \<open>array_ok\<close> are the
  outcomes of the two calls of \<^verbatim>\<open>malloc\<close>.
\<close>

definition HashTablePut ::
  "'m \<Rightarrow> bool \<Rightarrow> bool \<Rightarrow> ('m, 'k, 'v) HashTable \<Rightarrow> 'k \<Rightarrow> 'v \<Rightarrow> (int \<times> 'm \<times> ('m, 'k, 'v) HashTable) c_result"
where
  "HashTablePut m pair_ok array_ok ht key val =
     bind_r (bucket_index m ht key) (\<lambda>i.
       let bucket = bucketArray ht ! i in
       case find_pair (keycmp ht m key) bucket of
         Some n \<Rightarrow>
           let (key0, val0) = bucket ! n;
               m1 = (if key0 \<noteq> key then dealloc (keyDeallocator ht) key0 m else m);
               m2 = (if val0 \<noteq> val then dealloc (valueDeallocator ht) val0 m1 else m1)
           in Inr (0, m2, ht\<lparr>bucketArray := (bucketArray ht)[i := bucket[n := (key, val)]]\<rparr>)
       | None \<Rightarrow>
           if \<not> pair_ok then Inr (-1, m, ht)
           else
             let ht1 = ht\<lparr>bucketArray := (bucketArray ht)[i := (key, val) # bucket],
                          numOfElements := numOfElements ht + 1\<rparr>
             in if upperRehashThreshold ht1 > idealRatio ht1 \<and>
                   elementToBucketRatio ht1 > upperRehashThreshold ht1
                then Inr (0, m, HashTableRehash m array_ok ht1 0)
                else Inr (0, m, ht1))"

definition HashTableRemove ::
  "'m \<Rightarrow> bool \<Rightarrow> ('m, 'k, 'v) HashTable \<Rightarrow> 'k \<Rightarrow> ('m \<times> ('m, 'k, 'v) HashTable) c_result"
where
  "HashTableRemove m array_ok ht key =
     bind_r (bucket_index m ht key) (\<lambda>i.
       let bucket = bucketArray ht ! i in
       case find_pair (keycmp ht m key) bucket of
         None \<Rightarrow> Inr (m, ht)
       | Some n \<Rightarrow>
           let m1 = dealloc_pair ht (bucket ! n) m;
               ht1 = ht\<lparr>bucketArray := (bucketArray ht)[i := take n bucket @ drop (Suc n) bucket],
                        numOfElements := numOfElements ht - 1\<rparr>
           in if lowerRehashThreshold ht1 > 0 \<and> elementToBucketRatio ht1 < lowerRehashThreshold ht1
              then Inr (m1, HashTableRehash m1 array_ok ht1 0)
              else Inr (m1, ht1))"

definition HashTableRemoveAll :: "'m \<Rightarrow> bool \<Rightarrow> ('m, 'k, 'v) HashTable \<Rightarrow> 'm \<times> ('m, 'k, 'v) HashTable" where
  "HashTableRemoveAll m array_ok ht =
     (let m1 = fold (dealloc_pair ht) (concat (bucketArray ht)) m;
          ht1 = ht\<lparr>bucketArray := map (\<lambda>_. []) (bucketArray ht), numOfElements := 0\<rparr>
      in (m1, HashTableRehash m1 array_ok ht1 5))"

definition HashTableIsEmpty :: "('m, 'k, 'v) HashTable \<Rightarrow> bool" where
  "HashTableIsEmpty ht = (numOfElements ht = 0)"

definition HashTableSize :: "('m, 'k, 'v) HashTable \<Rightarrow> u32" where
  "HashTableSize ht = numOfElements ht"

definition HashTableGetNumBuckets :: "('m, 'k, 'v) HashTable \<Rightarrow> u32" where
  "HashTableGetNumBuckets ht = numOfBuckets ht"

definition HashTableSetKeyComparisonFunction ::
  "('m, 'k, 'v) HashTable \<Rightarrow> ('m \<Rightarrow> 'k \<Rightarrow> 'k \<Rightarrow> int) \<Rightarrow> ('m, 'k, 'v) HashTable"
where
  "HashTableSetKeyComparisonFunction ht f = ht\<lparr>keycmp := f\<rparr>"

definition HashTableSetValueComparisonFunction ::
  "('m, 'k, 'v) HashTable \<Rightarrow> ('m \<Rightarrow> 'v \<Rightarrow> 'v \<Rightarrow> int) \<Rightarrow> ('m, 'k, 'v) HashTable"
where
  "HashTableSetValueComparisonFunction ht f = ht\<lparr>valuecmp := f\<rparr>"

definition HashTableSetHashFunction ::
  "('m, 'k, 'v) HashTable \<Rightarrow> ('m \<Rightarrow> 'k \<Rightarrow> u32) \<Rightarrow> ('m, 'k, 'v) HashTable"
where
  "HashTableSetHashFunction ht f = ht\<lparr>hashFunction := f\<rparr>"

definition HashTableSetIdealRatio ::
  "('m, 'k, 'v) HashTable \<Rightarrow> rat \<Rightarrow> rat \<Rightarrow> rat \<Rightarrow> ('m, 'k, 'v) HashTable c_result"
where
  "HashTableSetIdealRatio ht ideal lower upper =
     bind_r (c_assert (ideal > 0)) (\<lambda>_.
     bind_r (c_assert (lower < ideal)) (\<lambda>_.
     bind_r (c_assert (upper = 0 \<or> upper > ideal)) (\<lambda>_.
       Inr (ht\<lparr>idealRatio := ideal, lowerRehashThreshold := lower, upperRehashThreshold := upper\<rparr>))))"

definition HashTableSetDeallocationFunctions ::
  "('m, 'k, 'v) HashTable \<Rightarrow> ('k \<Rightarrow> 'm \<Rightarrow> 'm) option \<Rightarrow> ('v \<Rightarrow> 'm \<Rightarrow> 'm) option \<Rightarrow> ('m, 'k, 'v) HashTable"
where
  "HashTableSetDeallocationFunctions ht kd vd = ht\<lparr>keyDeallocator := kd, valueDeallocator := vd\<rparr>"

text \<open>The djb2 hash of a null-terminated string; a string without its terminator is overrun.\<close>

primrec djb2_loop :: "u8 list \<Rightarrow> u32 \<Rightarrow> u32 c_result" where
  "djb2_loop [] hash = Inl OutOfBounds"
| "djb2_loop (c # str) hash = (if c = 0 then Inr hash else djb2_loop str (hash * 33 + ucast c))"

definition HashTableStringHashFunction :: "u8 list \<Rightarrow> u32 c_result" where
  "HashTableStringHashFunction key = djb2_loop key 5381"

subsection \<open>The values in a table\<close>

definition ht_vals :: "('m, 'k, 'v) HashTable \<Rightarrow> 'v set" where
  "ht_vals ht = snd ` set (concat (bucketArray ht))"

lemma find_pair_less: "find_pair cmp b = Some n \<Longrightarrow> n < length b"
  by (induction b arbitrary: n) (auto split: if_splits)

lemma Get_vals: "HashTableGet m ht k = Inr (Some v) \<Longrightarrow> v \<in> ht_vals ht"
  by (force simp: HashTableGet_def bucket_index_def bind_r_Inr_iff ht_vals_def Let_def split: if_splits option.splits
      dest: find_pair_less intro: nth_mem)

lemma rehash_pair_set: "set (concat (rehash_pair h n bs p)) \<subseteq> insert p (set (concat bs))"
proof (cases "unat (h (fst p) mod n) < length bs")
  case True
  then have "set (rehash_pair h n bs p) \<subseteq> insert (p # bs ! unat (h (fst p) mod n)) (set bs)"
    by (simp add: rehash_pair_def Let_def set_update_subset_insert)
  then show ?thesis using nth_mem [OF True] by fastforce
next
  case False
  then have "rehash_pair h n bs p = bs" unfolding rehash_pair_def Let_def by (intro list_update_beyond leI)
  then show ?thesis by auto
qed

lemma rehash_fold_set: "set (concat (foldl (rehash_pair h n) bs ps)) \<subseteq> set (concat bs) \<union> set ps"
proof (induction ps arbitrary: bs)
  case (Cons p ps)
  from Cons [of "rehash_pair h n bs p"] rehash_pair_set [of h n bs p] show ?case by auto
qed simp

lemma rehash_vals: "ht_vals (HashTableRehash m ok ht n) \<subseteq> ht_vals ht"
proof -
  have "snd ` set (concat (foldl (rehash_pair (hashFunction ht m) n') (replicate k []) (concat (bucketArray ht)))) \<subseteq> snd ` set (concat (bucketArray ht))" for n' k
    using rehash_fold_set [of "hashFunction ht m" n' "replicate k []" "concat (bucketArray ht)"] by (intro image_mono) auto
  then show ?thesis by (simp add: HashTableRehash_def ht_vals_def Let_def)
qed

lemma Put_vals:
  assumes "HashTablePut m a b ht k v = Inr (r, m', ht')"
  shows "ht_vals ht' \<subseteq> insert v (ht_vals ht)"
proof -
  obtain i where i: "bucket_index m ht k = Inr i" using assms by (auto simp: HashTablePut_def bind_r_Inr_iff)
  then have il: "i < length (bucketArray ht)" by (auto simp: bucket_index_def Let_def split: if_splits)
  have upd: "snd ` set (concat ((bucketArray ht)[i := b'])) \<subseteq> insert v (ht_vals ht)"
    if "snd ` set b' \<subseteq> insert v (snd ` set (bucketArray ht ! i))" for b'
  proof
    fix x assume "x \<in> snd ` set (concat ((bucketArray ht)[i := b']))"
    then obtain c where c: "c \<in> set ((bucketArray ht)[i := b'])" "x \<in> snd ` set c" by auto
    have old: "snd ` set d \<subseteq> ht_vals ht" if "d \<in> set (bucketArray ht)" for d
      using that unfolding ht_vals_def by auto
    have "c \<in> insert b' (set (bucketArray ht))" using set_update_subset_insert c(1) by (rule subsetD)
    then have "c = b' \<or> c \<in> set (bucketArray ht)" by simp
    then show "x \<in> insert v (ht_vals ht)"
    proof
      assume "c = b'"
      then have "x \<in> insert v (snd ` set (bucketArray ht ! i))" using that c(2) by auto
      then show ?thesis using old [OF nth_mem [OF il]] by auto
    qed (use old c(2) in auto)
  qed
  show ?thesis
  proof (cases "find_pair (keycmp ht m k) (bucketArray ht ! i)")
    case None
    have "snd ` set ((k, v) # bucketArray ht ! i) \<subseteq> insert v (snd ` set (bucketArray ht ! i))" by simp
    from upd [OF this] have n: "ht_vals (ht\<lparr>bucketArray := (bucketArray ht)[i := (k, v) # bucketArray ht ! i], numOfElements := numOfElements ht + 1\<rparr>) \<subseteq> insert v (ht_vals ht)"
      by (simp add: ht_vals_def)
    then show ?thesis
      using assms None i rehash_vals [of m b "ht\<lparr>bucketArray := (bucketArray ht)[i := (k, v) # bucketArray ht ! i], numOfElements := numOfElements ht + 1\<rparr>" 0]
      by (auto simp: HashTablePut_def Let_def split: if_splits)
  next
    case (Some n)
    have "snd ` set ((bucketArray ht ! i)[n := (k, v)]) \<subseteq> insert v (snd ` set (bucketArray ht ! i))"
      using set_update_subset_insert [of "bucketArray ht ! i" n "(k, v)"] by auto
    note upd [OF this]
    moreover have "bucketArray ht' = (bucketArray ht)[i := (bucketArray ht ! i)[n := (k, v)]]"
      using assms Some i by (auto simp: HashTablePut_def Let_def split_beta)
    ultimately show ?thesis by (simp add: ht_vals_def)
  qed
qed

subsection \<open>The table as a map\<close>

text \<open>
  The abstraction: \<open>kc\<close> gives the contents behind a key pointer and \<open>hc\<close> the hash of contents. The
  table stands for the map from key contents to values that the buckets hold.
\<close>

definition content :: "('k \<Rightarrow> 'c) \<Rightarrow> ('k \<times> 'v) list \<Rightarrow> ('c \<times> 'v) list" where
  "content kc = map (\<lambda>(p, v). (kc p, v))"

definition bucket_of :: "('c \<Rightarrow> u32) \<Rightarrow> ('m, 'k, 'v) HashTable \<Rightarrow> 'c \<Rightarrow> nat" where
  "bucket_of hc ht c = unat (hc c mod numOfBuckets ht)"

definition ht_map :: "('k \<Rightarrow> 'c) \<Rightarrow> ('c \<Rightarrow> u32) \<Rightarrow> ('m, 'k, 'v) HashTable \<Rightarrow> 'c \<Rightarrow> 'v option" where
  "ht_map kc hc ht c = map_of (content kc (bucketArray ht ! bucket_of hc ht c)) c"

text \<open>
  The invariant: there is a bucket for every remainder, every pair is in the bucket of its key, no
  two keys of a bucket have the same contents, and the element counter is right modulo \<open>2 ^ 32\<close>.
\<close>

definition ht_inv :: "('k \<Rightarrow> 'c) \<Rightarrow> ('c \<Rightarrow> u32) \<Rightarrow> ('m, 'k, 'v) HashTable \<Rightarrow> bool" where
  "ht_inv kc hc ht \<longleftrightarrow>
     numOfBuckets ht \<noteq> 0 \<and> length (bucketArray ht) = unat (numOfBuckets ht) \<and>
     (\<forall>i < length (bucketArray ht).
        distinct (map fst (content kc (bucketArray ht ! i))) \<and>
        (\<forall>c \<in> set (map fst (content kc (bucketArray ht ! i))). bucket_of hc ht c = i)) \<and>
     numOfElements ht = of_nat (length (concat (bucketArray ht)))"

lemma content_simps [simp]:
  "content kc [] = []"
  "content kc (pr # ps) = (kc (fst pr), snd pr) # content kc ps"
  "content kc (ps @ qs) = content kc ps @ content kc qs"
  by (simp_all add: content_def split_beta)

lemma content_more [simp]:
  "length (content kc ps) = length ps"
  "content kc (rev ps) = rev (content kc ps)"
  "n < length ps \<Longrightarrow> content kc ps ! n = (kc (fst (ps ! n)), snd (ps ! n))"
  "content kc (take n ps) = take n (content kc ps)"
  "content kc (drop n ps) = drop n (content kc ps)"
  "content kc (ps[n := pr]) = (content kc ps)[n := (kc (fst pr), snd pr)]"
  "content kc (concat pss) = concat (map (content kc) pss)"
  by (simp_all add: content_def rev_map split_beta take_map drop_map map_update map_concat)

lemma bucket_of_less: "numOfBuckets ht \<noteq> 0 \<Longrightarrow> bucket_of hc ht c < unat (numOfBuckets ht)"
proof -
  assume "numOfBuckets ht \<noteq> 0"
  then have "0 < unat (numOfBuckets ht)" by (simp add: unat_gt_0)
  then show ?thesis by (simp add: bucket_of_def unat_mod)
qed

lemma bucket_of_upd [simp]:
  "bucket_of hc (ht\<lparr>bucketArray := bs\<rparr>) = bucket_of hc ht"
  "bucket_of hc (ht\<lparr>numOfElements := num\<rparr>) = bucket_of hc ht"
  by (simp_all add: bucket_of_def fun_eq_iff)

lemma find_pair_None:
  assumes "\<And>p. cmp p = 0 \<longleftrightarrow> kc p = c"
  shows "find_pair cmp ps = None \<longleftrightarrow> map_of (content kc ps) c = None"
  using assms by (induction ps) auto

lemma find_pair_Some:
  assumes cmp: "\<And>p. cmp p = 0 \<longleftrightarrow> kc p = c" and "find_pair cmp ps = Some n"
  shows "n < length ps \<and> kc (fst (ps ! n)) = c \<and> map_of (content kc ps) c = Some (snd (ps ! n))"
  using assms(2)
proof (induction ps arbitrary: n)
  case (Cons pr ps)
  then show ?case using cmp [of "fst pr"] by (cases n) (auto split: if_splits)
qed simp

text \<open>Association lists with distinct keys under replacement and removal at a position.\<close>

lemma map_of_replace:
  assumes "n < length xs" "distinct (map fst xs)" "fst (xs ! n) = c"
  shows "map_of (xs[n := (c, v)]) = (map_of xs)(c \<mapsto> v)"
  using assms
proof (induction xs arbitrary: n)
  case (Cons x xs)
  show ?case
  proof (cases n)
    case 0
    with Cons.prems show ?thesis by (cases x) auto
  next
    case (Suc n')
    with Cons.prems have "c \<noteq> fst x" by simp (metis image_eqI nth_mem)
    with Suc Cons show ?thesis by (cases x) (auto simp: fun_upd_twist)
  qed
qed simp

lemma map_of_cut:
  assumes "n < length xs" "distinct (map fst xs)" "fst (xs ! n) = c"
  shows "map_of (take n xs @ drop (Suc n) xs) = (map_of xs)(c := None)"
  using assms
proof (induction xs arbitrary: n)
  case (Cons x xs)
  show ?case
  proof (cases n)
    case 0
    with Cons.prems show ?thesis
      by (cases x) (auto simp: fun_eq_iff map_of_eq_None_iff)
  next
    case (Suc n')
    with Cons.prems have "c \<noteq> fst x" by simp (metis image_eqI nth_mem)
    with Suc Cons show ?thesis by (cases x) (auto simp: fun_upd_twist)
  qed
qed simp

lemma distinct_cut:
  assumes "distinct xs" "n < length xs"
  shows "distinct (take n xs @ drop (Suc n) xs)"
  using assms id_take_nth_drop [of n xs] by (metis distinct.simps(2) distinct_append disjoint_insert(2) list.set(2))

lemma map_fst_replace:
  assumes "n < length xs" "fst (xs ! n) = c"
  shows "map fst (xs[n := (c, v)]) = map fst xs"
  using assms by (metis fst_conv list_update_id map_update nth_map)

lemma distinct_concat_index:
  assumes "\<And>i. i < length xss \<Longrightarrow> distinct (xss ! i)"
    and "\<And>i x. i < length xss \<Longrightarrow> x \<in> set (xss ! i) \<Longrightarrow> idx x = i"
  shows "distinct (concat xss)"
  using assms
proof (induction xss rule: rev_induct)
  case (snoc ys xss)
  have "distinct (concat xss)"
    using snoc.prems by (intro snoc.IH) (metis length_append_singleton less_Suc_eq nth_append)+
  moreover have "distinct ys" using snoc.prems(1) [of "length xss"] by simp
  moreover have "idx x = length xss" if "x \<in> set ys" for x
    using snoc.prems(2) [of "length xss" x] that by simp
  moreover have "idx x < length xss" if "x \<in> set (concat xss)" for x
  proof -
    from that obtain i where "i < length xss" "x \<in> set (xss ! i)"
      by (auto simp: in_set_conv_nth [of _ xss])
    then show ?thesis using snoc.prems(2) [of i x] by (simp add: nth_append)
  qed
  ultimately show ?case by fastforce
qed simp

lemma distinct_all_keys:
  assumes "ht_inv kc hc ht"
  shows "distinct (map fst (content kc (concat (bucketArray ht))))"
proof -
  have "distinct (concat (map (\<lambda>b. map fst (content kc b)) (bucketArray ht)))"
    using assms by (intro distinct_concat_index [where idx = "bucket_of hc ht"])
      (auto simp: ht_inv_def)
  then show ?thesis by (simp add: map_concat comp_def)
qed

text \<open>The bucket of the contents holds all there is to find: one lookup sees the whole table.\<close>

lemma ht_map_concat:
  assumes inv: "ht_inv kc hc ht"
  shows "ht_map kc hc ht = map_of (content kc (concat (bucketArray ht)))"
proof
  fix c
  let ?i = "bucket_of hc ht c" and ?bs = "bucketArray ht"
  have i: "?i < length ?bs" using inv bucket_of_less [of ht hc c] by (simp add: ht_inv_def)
  have here: "(c, v) \<in> set (content kc (concat ?bs)) \<longleftrightarrow> (c, v) \<in> set (content kc (?bs ! ?i))" for v
  proof
    assume "(c, v) \<in> set (content kc (concat ?bs))"
    then obtain j where j: "j < length ?bs" "(c, v) \<in> set (content kc (?bs ! j))"
      by (auto simp: in_set_conv_nth [of _ ?bs])
    then have "c \<in> set (map fst (content kc (?bs ! j)))" by force
    with j(1) inv have "?i = j" by (auto simp: ht_inv_def)
    with j show "(c, v) \<in> set (content kc (?bs ! ?i))" by simp
  qed (use i in auto)
  have "distinct (map fst (content kc (?bs ! ?i)))" using inv i by (simp add: ht_inv_def)
  then show "ht_map kc hc ht c = map_of (content kc (concat ?bs)) c"
    unfolding ht_map_def using here distinct_all_keys [OF inv]
    by (metis map_of_eq_Some_iff not_None_eq)
qed

text \<open>Replacing one bucket.\<close>

lemma length_concat_update:
  "i < length xss \<Longrightarrow> length (concat (xss[i := ys])) + length (xss ! i) = length (concat xss) + length ys"
  by (induction xss arbitrary: i) (auto split: nat.splits)

lemma bucket_update:
  assumes inv: "ht_inv kc hc ht" and i: "i = bucket_of hc ht c"
    and keys: "distinct (map fst (content kc b))"
      "set (map fst (content kc b)) \<subseteq> insert c (set (map fst (content kc (bucketArray ht ! i))))"
    and len: "num + of_nat (length (bucketArray ht ! i)) = numOfElements ht + of_nat (length b)"
    and new: "\<And>d. d \<noteq> c \<Longrightarrow> map_of (content kc b) d = map_of (content kc (bucketArray ht ! i)) d"
  shows "ht_inv kc hc (ht\<lparr>bucketArray := (bucketArray ht)[i := b], numOfElements := num\<rparr>)"
    and "ht_map kc hc (ht\<lparr>bucketArray := (bucketArray ht)[i := b], numOfElements := num\<rparr>) =
         (ht_map kc hc ht)(c := map_of (content kc b) c)"
proof -
  let ?ht = "ht\<lparr>bucketArray := (bucketArray ht)[i := b], numOfElements := num\<rparr>"
  have il: "i < length (bucketArray ht)"
    using inv i bucket_of_less [of ht hc c] by (simp add: ht_inv_def)
  have "of_nat (length (concat ((bucketArray ht)[i := b]))) + of_nat (length (bucketArray ht ! i)) =
      (of_nat (length (concat (bucketArray ht))) + of_nat (length b) :: u32)"
    using length_concat_update [OF il, of b] by (metis of_nat_add)
  then have "num = of_nat (length (concat ((bucketArray ht)[i := b])))"
    using len inv by (simp add: ht_inv_def) (metis add_right_cancel)
  moreover have "distinct (map fst (content kc ((bucketArray ht)[i := b] ! j)))"
    if "j < length (bucketArray ht)" for j
    using inv keys(1) that by (cases "j = i") (simp_all add: ht_inv_def)
  moreover have "bucket_of hc ht d = j"
    if "j < length (bucketArray ht)" "d \<in> set (map fst (content kc ((bucketArray ht)[i := b] ! j)))" for j d
  proof (cases "j = i")
    case True
    with that keys(2) have "d = c \<or> d \<in> set (map fst (content kc (bucketArray ht ! i)))" by auto
    with True show ?thesis using inv il i unfolding ht_inv_def by metis
  next
    case False
    with that show ?thesis using inv by (auto simp: ht_inv_def)
  qed
  ultimately show "ht_inv kc hc ?ht" using inv by (auto simp: ht_inv_def)
  show "ht_map kc hc ?ht = (ht_map kc hc ht)(c := map_of (content kc b) c)"
    using new il i by (auto simp: ht_map_def fun_eq_iff nth_list_update)
qed

subsection \<open>Rehashing\<close>

lemma mset_concat_push:
  "i < length xss \<Longrightarrow> mset (concat (xss[i := x # xss ! i])) = add_mset x (mset (concat xss))"
  by (induction xss arbitrary: i) (auto split: nat.splits)

lemma rehash_fold:
  assumes "0 < n"
  shows "length bs = unat n \<Longrightarrow>
    length (foldl (rehash_pair h n) bs ps) = unat n \<and>
    mset (concat (foldl (rehash_pair h n) bs ps)) = mset (concat bs) + mset ps \<and>
    (\<forall>j < unat n. foldl (rehash_pair h n) bs ps ! j =
       rev (filter (\<lambda>pr. unat (h (fst pr) mod n) = j) ps) @ bs ! j)"
proof (induction ps arbitrary: bs)
  case (Cons pr ps)
  let ?i = "unat (h (fst pr) mod n)" and ?bs = "rehash_pair h n bs pr"
  have "0 < unat n" using assms by (simp add: word_less_nat_alt)
  then have i: "?i < length bs" using Cons.prems by (simp add: unat_mod)
  have "length ?bs = unat n" using Cons.prems by (simp add: rehash_pair_def Let_def)
  note IH = Cons.IH [OF this]
  moreover have "mset (concat ?bs) = add_mset pr (mset (concat bs))"
    using i by (simp add: rehash_pair_def Let_def mset_concat_push)
  moreover have "?bs ! j = (if j = ?i then pr # bs ! j else bs ! j)" if "j < unat n" for j
    using that i Cons.prems by (simp add: rehash_pair_def Let_def)
  ultimately show ?case by auto
qed simp

text \<open>The number of buckets that a table computes for itself is odd, and so not zero.\<close>

lemma next_probable_prime_odd: "odd n \<Longrightarrow> odd (next_probable_prime n)"
proof (induction n rule: next_probable_prime.induct)
  case (1 n)
  then show ?case by (subst next_probable_prime.simps) auto
qed

lemma next_probable_prime_is: "isProbablePrime (next_probable_prime n)"
proof (induction n rule: next_probable_prime.induct)
  case (1 n)
  then show ?case by (subst next_probable_prime.simps) auto
qed

lemma ideal_odd: "odd (calculateIdealNumOfBuckets ht)"
  unfolding calculateIdealNumOfBuckets_def Let_def
  by (rule next_probable_prime_odd) (simp add: even_or_iff)

lemma ideal_pos: "0 < calculateIdealNumOfBuckets ht"
  using ideal_odd [of ht] by (metis dvd_0_right word_gt_0)

lemma map_fst_content: "map fst (content kc ps) = map (kc \<circ> fst) ps"
  by (simp add: content_def split_beta)

lemma rehash_fields [simp]:
  "keycmp (HashTableRehash m ok ht n) = keycmp ht"
  "hashFunction (HashTableRehash m ok ht n) = hashFunction ht"
  "keyDeallocator (HashTableRehash m ok ht n) = keyDeallocator ht"
  "valueDeallocator (HashTableRehash m ok ht n) = valueDeallocator ht"
  by (simp_all add: HashTableRehash_def Let_def)

lemma rehash_correct:
  fixes ht :: "('m, 'k, 'v) HashTable"
  assumes inv: "ht_inv kc hc ht"
    and hash: "\<And>pr. pr \<in> set (concat (bucketArray ht)) \<Longrightarrow> hashFunction ht m (fst pr) = hc (kc (fst pr))"
  shows "ht_inv kc hc (HashTableRehash m ok ht n)"
    and "ht_map kc hc (HashTableRehash m ok ht n) = ht_map kc hc ht"
proof -
  define n' where "n' = (if n = 0 then calculateIdealNumOfBuckets ht else n)"
  have pos: "0 < n'" using ideal_pos [of ht] by (simp add: n'_def word_gt_0)
  let ?ps = "concat (bucketArray ht)"
  define bs where "bs = foldl (rehash_pair (hashFunction ht m) n') (replicate (unat n') []) ?ps"
  define ht' where "ht' = ht\<lparr>bucketArray := bs, numOfBuckets := n'\<rparr>"
  have "concat (replicate k []) = ([] :: ('k \<times> 'v) list)" for k by (induction k) auto
  then have len: "length bs = unat n'" and ms: "mset (concat bs) = mset ?ps"
    and nth: "\<And>j. j < unat n' \<Longrightarrow>
      bs ! j = rev (filter (\<lambda>pr. unat (hashFunction ht m (fst pr) mod n') = j) ?ps)"
    using rehash_fold [OF pos, of "replicate (unat n') []" "hashFunction ht m" ?ps] by (auto simp: bs_def)
  have keys: "distinct (map (kc \<circ> fst) ?ps)"
    using distinct_all_keys [OF inv] by (simp only: map_fst_content)
  have "distinct (map fst (content kc (bs ! j)))" if "j < unat n'" for j
    using that by (simp only: nth map_fst_content rev_map [symmetric] distinct_rev
        distinct_map_filter [OF keys])
  moreover have "bucket_of hc ht' c = j" if "j < unat n'" "c \<in> set (map fst (content kc (bs ! j)))" for j c
    using that(2) [unfolded nth [OF that(1)] map_fst_content] hash
    by (auto simp: ht'_def bucket_of_def simp del: set_concat)
  moreover have "length (concat bs) = length ?ps" using ms by (metis size_mset)
  ultimately have inv': "ht_inv kc hc ht'"
    using inv pos len by (simp add: ht_inv_def ht'_def word_gt_0 bucket_of_def del: length_concat)
  have "distinct (map fst (content kc (concat bs)))"
    using distinct_all_keys [OF inv'] by (simp add: ht'_def)
  moreover have "set (content kc (concat bs)) = set (content kc ?ps)"
    using mset_eq_setD [OF ms] by (simp only: content_def set_map)
  ultimately have "map_of (content kc (concat bs)) = map_of (content kc ?ps)"
    using distinct_all_keys [OF inv] map_of_inject_set by blast
  then have map': "ht_map kc hc ht' = ht_map kc hc ht"
    using ht_map_concat [OF inv'] ht_map_concat [OF inv] by (simp add: ht'_def)
  have "HashTableRehash m ok ht n = ht \<or> HashTableRehash m ok ht n = ht'"
    unfolding HashTableRehash_def Let_def n'_def [symmetric] ht'_def bs_def by simp
  then show "ht_inv kc hc (HashTableRehash m ok ht n)"
    and "ht_map kc hc (HashTableRehash m ok ht n) = ht_map kc hc ht"
    using inv inv' map' by auto
qed

subsection \<open>The operations implement a map\<close>

text \<open>
  The contract between a table and the functions its owner gives it: two keys compare equal just
  when they have the same contents, and the hash depends on the contents only.
\<close>

locale hashed_keys =
  fixes cmp :: "'k \<Rightarrow> 'k \<Rightarrow> int" and hash :: "'k \<Rightarrow> u32"
    and kc :: "'k \<Rightarrow> 'c" and hc :: "'c \<Rightarrow> u32"
  assumes cmp_iff: "cmp p q = 0 \<longleftrightarrow> kc q = kc p"
    and hash_eq: "hash p = hc (kc p)"
begin

definition uses :: "'m \<Rightarrow> ('m, 'k, 'v) HashTable \<Rightarrow> bool" where
  "uses m ht \<longleftrightarrow> keycmp ht m = cmp \<and> hashFunction ht m = hash"

lemma bucket_index_eq:
  assumes "uses m ht" "ht_inv kc hc ht"
  shows "bucket_index m ht key = Inr (bucket_of hc ht (kc key))"
  using assms bucket_of_less [of ht hc "kc key"]
  by (simp add: uses_def bucket_index_def ht_inv_def hash_eq bucket_of_def)

lemma get_correct:
  assumes "uses m ht" "ht_inv kc hc ht"
  shows "HashTableGet m ht key = Inr (ht_map kc hc ht (kc key))"
proof -
  let ?b = "bucketArray ht ! bucket_of hc ht (kc key)"
  have "keycmp ht m key = cmp key" using assms by (simp add: uses_def)
  then show ?thesis
    using find_pair_None [of "cmp key" kc "kc key" ?b] find_pair_Some [of "cmp key" kc "kc key" ?b]
    by (auto simp: HashTableGet_def bucket_index_eq [OF assms] cmp_iff ht_map_def Let_def
        split: option.split)
qed

lemma contains_key_correct:
  assumes "uses m ht" "ht_inv kc hc ht"
  shows "HashTableContainsKey m ht key = Inr (kc key \<in> dom (ht_map kc hc ht))"
  by (simp add: HashTableContainsKey_def get_correct [OF assms] dom_def)

lemma put_replaces:
  assumes use: "uses m ht" and inv: "ht_inv kc hc ht"
    and old: "ht_map kc hc ht (kc key) = Some old"
  obtains m' ht' where "HashTablePut m pair_ok array_ok ht key val = Inr (0, m', ht')"
    "ht_inv kc hc ht'" "ht_map kc hc ht' = (ht_map kc hc ht)(kc key \<mapsto> val)"
    "keycmp ht' = keycmp ht" "hashFunction ht' = hashFunction ht"
    "keyDeallocator ht = None \<Longrightarrow> valueDeallocator ht = None \<Longrightarrow> m' = m"
proof -
  define i where "i = bucket_of hc ht (kc key)"
  define b where "b = bucketArray ht ! i"
  have cm: "keycmp ht m key p = 0 \<longleftrightarrow> kc p = kc key" for p
    using use by (simp add: uses_def cmp_iff)
  obtain n where n: "find_pair (keycmp ht m key) b = Some n"
    using old find_pair_None [of "keycmp ht m key" kc "kc key" b, OF cm]
    by (auto simp: ht_map_def b_def i_def)
  from find_pair_Some [OF cm n] have nb: "n < length b" "kc (fst (b ! n)) = kc key" by simp_all
  have il: "i < length (bucketArray ht)"
    using inv bucket_of_less [of ht hc "kc key"] by (simp add: ht_inv_def i_def)
  have dis: "distinct (map fst (content kc b))" using inv il by (simp add: ht_inv_def b_def)
  have mf: "map fst (content kc (b[n := (key, val)])) = map fst (content kc b)"
    using nb by (simp add: map_fst_replace)
  have mo: "map_of ((content kc b)[n := (kc key, val)]) = (map_of (content kc b))(kc key \<mapsto> val)"
    using nb dis by (simp add: map_of_replace)
  let ?ht = "ht\<lparr>bucketArray := (bucketArray ht)[i := b[n := (key, val)]]\<rparr>"
  have same: "ht\<lparr>bucketArray := (bucketArray ht)[i := b[n := (key, val)]], numOfElements := numOfElements ht\<rparr> = ?ht"
    by simp
  note upd = bucket_update [OF inv i_def, of "b[n := (key, val)]" "numOfElements ht", unfolded mf same, folded b_def]
  have "ht_inv kc hc ?ht"
    by (rule upd(1)) (auto simp: dis mo)
  moreover have "ht_map kc hc ?ht = (ht_map kc hc ht)(kc key \<mapsto> val)"
    by (subst upd(2)) (auto simp: dis mo)
  moreover have "\<exists>m'. HashTablePut m pair_ok array_ok ht key val = Inr (0, m', ?ht) \<and>
      (keyDeallocator ht = None \<longrightarrow> valueDeallocator ht = None \<longrightarrow> m' = m)"
    by (simp add: HashTablePut_def bucket_index_eq [OF use inv] n Let_def split_beta dealloc_def
        flip: i_def b_def)
  ultimately show ?thesis using that [of _ ?ht] by auto
qed

lemma put_adds:
  assumes use: "uses m ht" and inv: "ht_inv kc hc ht"
    and new: "ht_map kc hc ht (kc key) = None"
  obtains ht' where "HashTablePut m True array_ok ht key val = Inr (0, m, ht')"
    "ht_inv kc hc ht'" "ht_map kc hc ht' = (ht_map kc hc ht)(kc key \<mapsto> val)"
    "keycmp ht' = keycmp ht" "hashFunction ht' = hashFunction ht"
proof -
  define i where "i = bucket_of hc ht (kc key)"
  define b where "b = bucketArray ht ! i"
  have cm: "keycmp ht m key p = 0 \<longleftrightarrow> kc p = kc key" for p
    using use by (simp add: uses_def cmp_iff)
  have fresh: "map_of (content kc b) (kc key) = None" using new by (simp add: ht_map_def b_def i_def)
  then have n: "find_pair (keycmp ht m key) b = None"
    using find_pair_None [of "keycmp ht m key" kc "kc key" b, OF cm] by simp
  have il: "i < length (bucketArray ht)"
    using inv bucket_of_less [of ht hc "kc key"] by (simp add: ht_inv_def i_def)
  have dis: "distinct (map fst (content kc b))" using inv il by (simp add: ht_inv_def b_def)
  define ht1 where "ht1 = ht\<lparr>bucketArray := (bucketArray ht)[i := (key, val) # b],
    numOfElements := numOfElements ht + 1\<rparr>"
  note upd = bucket_update [OF inv i_def, of "(key, val) # b" "numOfElements ht + 1", folded b_def]
  have inv1: "ht_inv kc hc ht1"
    unfolding ht1_def using dis fresh by (intro upd(1)) (auto simp: map_of_eq_None_iff)
  have map1: "ht_map kc hc ht1 = (ht_map kc hc ht)(kc key \<mapsto> val)"
    unfolding ht1_def using dis fresh by (subst upd(2)) (auto simp: map_of_eq_None_iff)
  have same: "keycmp ht1 = keycmp ht" "hashFunction ht1 = hashFunction ht" by (simp_all add: ht1_def)
  have h1: "hashFunction ht1 m (fst pr) = hc (kc (fst pr))" for pr :: "'k \<times> 'v"
    using use by (simp add: same uses_def hash_eq)
  let ?ht2 = "HashTableRehash m array_ok ht1 0"
  have "keycmp ?ht2 = keycmp ht" "hashFunction ?ht2 = hashFunction ht"
    by (simp_all add: same)
  moreover note rehash_correct [OF inv1, of m array_ok 0, OF h1]
  moreover have "HashTablePut m True array_ok ht key val = Inr (0, m, ht1) \<or>
      HashTablePut m True array_ok ht key val = Inr (0, m, ?ht2)"
    by (simp add: HashTablePut_def bucket_index_eq [OF use inv] n Let_def ht1_def
        flip: i_def b_def)
  ultimately show ?thesis using that [of ht1] that [of ?ht2] inv1 map1 same by metis
qed

lemma put_no_memory:
  assumes "uses m ht" "ht_inv kc hc ht" "ht_map kc hc ht (kc key) = None"
  shows "HashTablePut m False array_ok ht key val = Inr (-1, m, ht)"
proof -
  have cm: "keycmp ht m key p = 0 \<longleftrightarrow> kc p = kc key" for p
    using assms by (simp add: uses_def cmp_iff)
  have "find_pair (keycmp ht m key) (bucketArray ht ! bucket_of hc ht (kc key)) = None"
    using assms(3) by (subst find_pair_None [OF cm]) (simp add: ht_map_def)
  then show ?thesis
    by (simp add: HashTablePut_def bucket_index_eq [OF assms(1,2)] Let_def)
qed

lemma remove_absent:
  assumes "uses m ht" "ht_inv kc hc ht" "ht_map kc hc ht (kc key) = None"
  shows "HashTableRemove m array_ok ht key = Inr (m, ht)"
proof -
  have cm: "keycmp ht m key p = 0 \<longleftrightarrow> kc p = kc key" for p
    using assms by (simp add: uses_def cmp_iff)
  have "find_pair (keycmp ht m key) (bucketArray ht ! bucket_of hc ht (kc key)) = None"
    using assms(3) by (subst find_pair_None [OF cm]) (simp add: ht_map_def)
  then show ?thesis
    by (simp add: HashTableRemove_def bucket_index_eq [OF assms(1,2)] Let_def)
qed

text \<open>
  A removal may rehash after it has released the pair, so the hash of the other keys must not
  depend on the memory that the deallocators give back.
\<close>

lemma remove_present:
  assumes use: "uses m ht" and inv: "ht_inv kc hc ht"
    and old: "ht_map kc hc ht (kc key) = Some old"
    and frame: "\<And>pr p. kc (fst pr) = kc key \<Longrightarrow> kc p \<noteq> kc key \<Longrightarrow>
      hashFunction ht (dealloc_pair ht pr m) p = hash p"
  obtains m' ht' where "HashTableRemove m array_ok ht key = Inr (m', ht')"
    "ht_inv kc hc ht'" "ht_map kc hc ht' = (ht_map kc hc ht)(kc key := None)"
    "keycmp ht' = keycmp ht" "hashFunction ht' = hashFunction ht"
    "keyDeallocator ht = None \<Longrightarrow> valueDeallocator ht = None \<Longrightarrow> m' = m"
proof -
  define i where "i = bucket_of hc ht (kc key)"
  define b where "b = bucketArray ht ! i"
  have cm: "keycmp ht m key p = 0 \<longleftrightarrow> kc p = kc key" for p
    using use by (simp add: uses_def cmp_iff)
  obtain n where n: "find_pair (keycmp ht m key) b = Some n"
    using old find_pair_None [of "keycmp ht m key" kc "kc key" b, OF cm]
    by (auto simp: ht_map_def b_def i_def)
  from find_pair_Some [OF cm n] have nb: "n < length b" "kc (fst (b ! n)) = kc key" by simp_all
  have il: "i < length (bucketArray ht)"
    using inv bucket_of_less [of ht hc "kc key"] by (simp add: ht_inv_def i_def)
  have dis: "distinct (map fst (content kc b))" using inv il by (simp add: ht_inv_def b_def)
  define b' where "b' = take n b @ drop (Suc n) b"
  have cut: "map fst (content kc b') = take n (map fst (content kc b)) @ drop (Suc n) (map fst (content kc b))"
    by (simp add: b'_def take_map drop_map)
  have mo: "map_of (content kc b') = (map_of (content kc b))(kc key := None)"
    using map_of_cut [of n "content kc b" "kc key"] nb dis by (simp add: b'_def)
  define ht1 where "ht1 = ht\<lparr>bucketArray := (bucketArray ht)[i := b'], numOfElements := numOfElements ht - 1\<rparr>"
  have len: "numOfElements ht - 1 + of_nat (length b) = numOfElements ht + of_nat (length b')"
    using nb(1) by (cases "length b") (simp_all add: b'_def)
  have dis': "distinct (map fst (content kc b'))"
    unfolding cut using dis nb(1) by (intro distinct_cut) simp_all
  have sub: "set (map fst (content kc b')) \<subseteq> insert (kc key) (set (map fst (content kc b)))"
    unfolding cut using set_take_subset set_drop_subset by fastforce
  note upd = bucket_update [OF inv i_def dis' sub [unfolded b_def] len [unfolded b_def], unfolded mo b_def, simplified]
  have inv1: "ht_inv kc hc ht1" using upd(1) by (simp add: ht1_def)
  have map1: "ht_map kc hc ht1 = (ht_map kc hc ht)(kc key := None)" using upd(2) by (simp add: ht1_def)
  have same: "keycmp ht1 = keycmp ht" "hashFunction ht1 = hashFunction ht"
    "lowerRehashThreshold ht1 = lowerRehashThreshold ht" by (simp_all add: ht1_def)
  let ?m1 = "dealloc_pair ht (b ! n) m"
  let ?ht2 = "HashTableRehash ?m1 array_ok ht1 0"
  have h1: "hashFunction ht1 ?m1 (fst pr) = hc (kc (fst pr))" if "pr \<in> set (concat (bucketArray ht1))" for pr
  proof -
    have "kc (fst pr) \<in> dom (ht_map kc hc ht1)"
      unfolding ht_map_concat [OF inv1]
      using that by (simp only: dom_map_of_conv_image_fst flip: set_map) (simp only: map_fst_content set_map comp_def image_eqI)
    then have "kc (fst pr) \<noteq> kc key" unfolding map1 by auto
    with frame [OF nb(2)] show ?thesis by (simp add: same hash_eq)
  qed
  have "keycmp ?ht2 = keycmp ht" "hashFunction ?ht2 = hashFunction ht"
    by (simp_all add: same)
  moreover note rehash_correct [OF inv1, of ?m1 array_ok 0, OF h1]
  moreover have "HashTableRemove m array_ok ht key = Inr (?m1, ht1) \<or>
      HashTableRemove m array_ok ht key = Inr (?m1, ?ht2)"
    by (simp add: HashTableRemove_def bucket_index_eq [OF use inv] n Let_def ht1_def b'_def
        flip: i_def b_def)
  moreover have "keyDeallocator ht = None \<Longrightarrow> valueDeallocator ht = None \<Longrightarrow> ?m1 = m"
    by (simp add: dealloc_pair_def dealloc_def)
  ultimately show ?thesis
    using that [of ?m1 ht1] that [of ?m1 ?ht2] inv1 map1 same by metis
qed

lemma created_empty:
  assumes ht: "HashTableCreate addr_of True True n = Inr (Some ht)"
  shows "ht_inv kc hc ht" and "ht_map kc hc ht = Map.empty"
    and "keyDeallocator ht = None" and "valueDeallocator ht = None"
proof -
  have [simp]: "concat (replicate k []) = ([] :: 'z list)" for k by (induction k) auto
  show "ht_inv kc hc ht"
    using ht by (auto simp: HashTableCreate_def ht_inv_def c_simps)
  show "ht_map kc hc ht = Map.empty"
  proof
    fix c
    have "bucket_of hc ht c < unat n"
      using ht bucket_of_less [of ht hc c] by (auto simp: HashTableCreate_def c_simps)
    then show "ht_map kc hc ht c = None"
      using ht by (auto simp: HashTableCreate_def c_simps ht_map_def)
  qed
qed (use ht in \<open>auto simp: HashTableCreate_def c_simps\<close>)

end

subsection \<open>Sequences of operations\<close>

text \<open>
  A client's run over a table whose allocations succeed, and the same run over a map from key
  contents to values: what every operation answers.
\<close>

datatype ('k, 'v) ht_op = OpPut 'k 'v | OpGet 'k | OpRemove 'k

definition ht_exec ::
  "'m \<Rightarrow> ('m, 'k, 'v) HashTable \<Rightarrow> ('k, 'v) ht_op \<Rightarrow> ('v option \<times> 'm \<times> ('m, 'k, 'v) HashTable) c_result"
where
  "ht_exec m ht op = (case op of
       OpPut k v \<Rightarrow> bind_r (HashTablePut m True True ht k v) (\<lambda>(_, m', ht'). Inr (None, m', ht'))
     | OpGet k \<Rightarrow> bind_r (HashTableGet m ht k) (\<lambda>r. Inr (r, m, ht))
     | OpRemove k \<Rightarrow> bind_r (HashTableRemove m True ht k) (\<lambda>(m', ht'). Inr (None, m', ht')))"

primrec ht_run ::
  "'m \<Rightarrow> ('m, 'k, 'v) HashTable \<Rightarrow> ('k, 'v) ht_op list \<Rightarrow> ('v option list \<times> ('m, 'k, 'v) HashTable) c_result"
where
  "ht_run m ht [] = Inr ([], ht)"
| "ht_run m ht (op # ops) =
     bind_r (ht_exec m ht op) (\<lambda>(r, m', ht').
     bind_r (ht_run m' ht' ops) (\<lambda>(rs, ht''). Inr (r # rs, ht'')))"

primrec map_run :: "('k \<Rightarrow> 'c) \<Rightarrow> ('c \<rightharpoonup> 'v) \<Rightarrow> ('k, 'v) ht_op list \<Rightarrow> 'v option list \<times> ('c \<rightharpoonup> 'v)" where
  "map_run kc f [] = ([], f)"
| "map_run kc f (op # ops) =
     (case op of
        OpPut k v \<Rightarrow> let (rs, g) = map_run kc (f(kc k \<mapsto> v)) ops in (None # rs, g)
      | OpGet k \<Rightarrow> let (rs, g) = map_run kc f ops in (f (kc k) # rs, g)
      | OpRemove k \<Rightarrow> let (rs, g) = map_run kc (f(kc k := None)) ops in (None # rs, g))"

context hashed_keys
begin

text \<open>What a run keeps: the functions of the table, the absence of deallocators, the invariant.\<close>

definition steady :: "'m \<Rightarrow> ('m, 'k, 'v) HashTable \<Rightarrow> bool" where
  "steady m ht \<longleftrightarrow> uses m ht \<and> ht_inv kc hc ht \<and> keyDeallocator ht = None \<and> valueDeallocator ht = None"

lemma put_steady:
  assumes st: "steady m ht"
  obtains ht' where "HashTablePut m True ok ht key val = Inr (0, m, ht')" "steady m ht'"
    "ht_map kc hc ht' = (ht_map kc hc ht)(kc key \<mapsto> val)"
proof -
  have dealloc: "keyDeallocator ht' = keyDeallocator ht \<and> valueDeallocator ht' = valueDeallocator ht"
    if "HashTablePut m True ok ht key val = Inr (0, m', ht')" for m' ht'
    using that by (auto simp: HashTablePut_def Let_def c_simps split_beta split: option.splits if_splits)
  note facts = st [unfolded steady_def]
  show ?thesis
  proof (cases "ht_map kc hc ht (kc key)")
    case None
    from facts put_adds [of m ht key ok val, OF _ _ None] obtain ht' where
      "HashTablePut m True ok ht key val = Inr (0, m, ht')" "ht_inv kc hc ht'"
      "ht_map kc hc ht' = (ht_map kc hc ht)(kc key \<mapsto> val)"
      "keycmp ht' = keycmp ht" "hashFunction ht' = hashFunction ht" by metis
    then show ?thesis using that [of ht'] dealloc facts by (simp add: steady_def uses_def)
  next
    case (Some old)
    from facts put_replaces [of m ht key old True ok val, OF _ _ Some] obtain ht' where
      "HashTablePut m True ok ht key val = Inr (0, m, ht')" "ht_inv kc hc ht'"
      "ht_map kc hc ht' = (ht_map kc hc ht)(kc key \<mapsto> val)"
      "keycmp ht' = keycmp ht" "hashFunction ht' = hashFunction ht" by metis
    then show ?thesis using that [of ht'] dealloc facts by (simp add: steady_def uses_def)
  qed
qed

lemma remove_steady:
  assumes st: "steady m ht"
  obtains ht' where "HashTableRemove m ok ht key = Inr (m, ht')" "steady m ht'"
    "ht_map kc hc ht' = (ht_map kc hc ht)(kc key := None)"
proof -
  have dealloc: "keyDeallocator ht' = keyDeallocator ht \<and> valueDeallocator ht' = valueDeallocator ht"
    if "HashTableRemove m ok ht key = Inr (m', ht')" for m' ht'
    using that by (auto simp: HashTableRemove_def Let_def c_simps split: option.splits if_splits)
  note facts = st [unfolded steady_def]
  show ?thesis
  proof (cases "ht_map kc hc ht (kc key)")
    case None
    then show ?thesis
      using that [of ht] remove_absent [of m ht key ok] facts st by (auto simp: fun_upd_idem)
  next
    case (Some old)
    have "hashFunction ht (dealloc_pair ht pr m) p = hash p" for pr p
      using facts by (simp add: dealloc_pair_def dealloc_def uses_def)
    with facts remove_present [of m ht key old ok, OF _ _ Some] obtain ht' where
      "HashTableRemove m ok ht key = Inr (m, ht')" "ht_inv kc hc ht'"
      "ht_map kc hc ht' = (ht_map kc hc ht)(kc key := None)"
      "keycmp ht' = keycmp ht" "hashFunction ht' = hashFunction ht" by metis
    then show ?thesis using that [of ht'] dealloc facts by (simp add: steady_def uses_def)
  qed
qed

lemma get_steady: "steady m ht \<Longrightarrow> HashTableGet m ht key = Inr (ht_map kc hc ht (kc key))"
  by (simp add: steady_def get_correct)

lemma run_refines:
  assumes "steady m ht"
  shows "\<exists>ht'. ht_run m ht ops = Inr (fst (map_run kc (ht_map kc hc ht) ops), ht') \<and> steady m ht' \<and>
    ht_map kc hc ht' = snd (map_run kc (ht_map kc hc ht) ops)"
  using assms
proof (induction ops arbitrary: ht)
  case (Cons op ops)
  show ?case
  proof (cases op)
    case (OpPut k v)
    from put_steady [OF Cons.prems, of True k v] obtain ht1 where
      1: "HashTablePut m True True ht k v = Inr (0, m, ht1)" "steady m ht1"
      "ht_map kc hc ht1 = (ht_map kc hc ht)(kc k \<mapsto> v)" .
    from Cons.IH [OF 1(2), unfolded 1(3)] show ?thesis
      using OpPut 1(1) by (auto simp: ht_exec_def split_beta Let_def simp del: fun_upd_apply)
  next
    case (OpGet k)
    with Cons.IH [OF Cons.prems] show ?thesis
      by (auto simp: ht_exec_def get_steady [OF Cons.prems] split_beta Let_def)
  next
    case (OpRemove k)
    from remove_steady [OF Cons.prems, of True k] obtain ht1 where
      1: "HashTableRemove m True ht k = Inr (m, ht1)" "steady m ht1"
      "ht_map kc hc ht1 = (ht_map kc hc ht)(kc k := None)" .
    from Cons.IH [OF 1(2), unfolded 1(3)] show ?thesis
      using OpRemove 1(1) by (auto simp: ht_exec_def split_beta Let_def simp del: fun_upd_apply)
  qed
qed simp

end

subsection \<open>The key pointers in a table\<close>

text \<open>
  A table depends on the memory only through the key pointers it holds, and an operation adds no
  pointer but its own key.
\<close>

definition ht_keys :: "('m, 'k, 'v) HashTable \<Rightarrow> 'k set" where
  "ht_keys ht = fst ` set (concat (bucketArray ht))"

lemma content_cong:
  assumes "\<And>p. p \<in> ht_keys ht \<Longrightarrow> kc p = kc' p" "i < length (bucketArray ht)"
  shows "content kc (bucketArray ht ! i) = content kc' (bucketArray ht ! i)"
proof -
  have "kc (fst pr) = kc' (fst pr)" if "pr \<in> set (bucketArray ht ! i)" for pr
    using assms that nth_mem [OF assms(2)] by (force simp: ht_keys_def)
  then show ?thesis by (auto simp: content_def)
qed

lemma ht_cong:
  assumes "\<And>p. p \<in> ht_keys ht \<Longrightarrow> kc p = kc' p" "ht_inv kc hc ht"
  shows "ht_inv kc' hc ht" and "ht_map kc' hc ht = ht_map kc hc ht"
proof -
  note same = content_cong [of ht kc kc', OF assms(1)]
  show "ht_inv kc' hc ht" using assms(2) same by (simp add: ht_inv_def)
  show "ht_map kc' hc ht = ht_map kc hc ht"
  proof
    fix c
    have "bucket_of hc ht c < length (bucketArray ht)"
      using assms(2) bucket_of_less [of ht hc c] by (simp add: ht_inv_def)
    then show "ht_map kc' hc ht c = ht_map kc hc ht c" using same by (simp add: ht_map_def)
  qed
qed

lemma rehash_keys: "numOfBuckets ht \<noteq> 0 \<Longrightarrow> ht_keys (HashTableRehash m ok ht n) = ht_keys ht"
proof -
  define n' where "n' = (if n = 0 then calculateIdealNumOfBuckets ht else n)"
  have pos: "0 < n'" using ideal_pos [of ht] by (simp add: n'_def word_gt_0)
  let ?ps = "concat (bucketArray ht)"
  let ?bs = "foldl (rehash_pair (hashFunction ht m) n') (replicate (unat n') []) ?ps"
  have "concat (replicate k []) = ([] :: ('b \<times> 'c) list)" for k by (induction k) auto
  then have "mset (concat ?bs) = mset ?ps"
    using rehash_fold [OF pos, of "replicate (unat n') []" "hashFunction ht m" ?ps] by simp
  then have "set (concat ?bs) = set ?ps" by (rule mset_eq_setD)
  moreover have "HashTableRehash m ok ht n = ht \<or> HashTableRehash m ok ht n = ht\<lparr>bucketArray := ?bs, numOfBuckets := n'\<rparr>"
    unfolding HashTableRehash_def Let_def n'_def [symmetric] by simp
  ultimately show ?thesis by (auto simp: ht_keys_def simp del: set_concat)
qed

lemma keys_update:
  assumes "i < length bs" and b: "fst ` set b \<subseteq> insert key (fst ` set (bs ! i))"
  shows "fst ` set (concat (bs[i := b])) \<subseteq> insert key (fst ` set (concat bs))"
proof
  fix x
  assume "x \<in> fst ` set (concat (bs[i := b]))"
  then obtain ys where ys: "ys \<in> set (bs[i := b])" "x \<in> fst ` set ys" by auto
  then consider "ys = b" | "ys \<in> set bs" using set_update_subset_insert [of bs i b] by blast
  then show "x \<in> insert key (fst ` set (concat bs))"
  proof cases
    case 1
    then show ?thesis using ys(2) b nth_mem [OF assms(1)] by auto
  next
    case 2
    then show ?thesis using ys(2) by auto
  qed
qed

lemma put_keys:
  assumes "HashTablePut m pok ok ht key val = Inr (r, m', ht')" "numOfBuckets ht \<noteq> 0"
  shows "ht_keys ht' \<subseteq> insert key (ht_keys ht)"
proof -
  obtain i where i: "bucket_index m ht key = Inr i" "i < length (bucketArray ht)"
    using assms(1) by (auto simp: HashTablePut_def bucket_index_def Let_def c_simps split: if_splits)
  let ?b = "bucketArray ht ! i"
  note upd = keys_update [OF i(2), of _ key]
  have add: "fst ` set (concat ((bucketArray ht)[i := (key, val) # ?b])) \<subseteq> insert key (ht_keys ht)"
    unfolding ht_keys_def by (rule upd) auto
  have rep: "fst ` set (concat ((bucketArray ht)[i := ?b[n := (key, val)]])) \<subseteq> insert key (ht_keys ht)" for n
    unfolding ht_keys_def by (rule upd) (use set_update_subset_insert [of ?b n "(key, val)"] in fastforce)
  let ?ht1 = "ht\<lparr>bucketArray := (bucketArray ht)[i := (key, val) # ?b], numOfElements := numOfElements ht + 1\<rparr>"
  have k1: "ht_keys ?ht1 \<subseteq> insert key (ht_keys ht)"
    using add by (simp add: ht_keys_def del: set_concat)
  have k2: "ht_keys (ht\<lparr>bucketArray := (bucketArray ht)[i := ?b[n := (key, val)]]\<rparr>) \<subseteq> insert key (ht_keys ht)" for n
    using rep [of n] by (simp add: ht_keys_def del: set_concat)
  have k3: "ht_keys (HashTableRehash m ok ?ht1 0) = ht_keys ?ht1" using assms(2) by (intro rehash_keys) simp
  have "ht' = ht \<or> ht' = ?ht1 \<or> ht' = HashTableRehash m ok ?ht1 0 \<or>
      (\<exists>n. ht' = ht\<lparr>bucketArray := (bucketArray ht)[i := ?b[n := (key, val)]]\<rparr>)"
    using assms(1) i(1) by (auto simp: HashTablePut_def Let_def c_simps split_beta split: option.splits if_splits)
  then show ?thesis
    by (elim disjE exE) (simp_all only: k1 k2 k3 subset_insertI)
qed

subsection \<open>Properties of the table\<close>

lemma size_correct:
  assumes "ht_inv kc hc ht"
  shows "HashTableSize ht = of_nat (card (dom (ht_map kc hc ht)))"
proof -
  let ?ks = "map fst (content kc (concat (bucketArray ht)))"
  have "dom (ht_map kc hc ht) = set ?ks"
    by (simp only: ht_map_concat [OF assms] dom_map_of_conv_image_fst set_map)
  then have "card (dom (ht_map kc hc ht)) = length ?ks"
    using distinct_card [OF distinct_all_keys [OF assms]] by (simp only:)
  also have "\<dots> = length (concat (bucketArray ht))" by (simp only: length_map content_more(1))
  finally show ?thesis using assms by (simp add: HashTableSize_def ht_inv_def)
qed

lemma ht_map_setters [simp]:
  "ht_map kc hc (HashTableSetHashFunction ht f) = ht_map kc hc ht"
  "ht_map kc hc (HashTableSetKeyComparisonFunction ht g) = ht_map kc hc ht"
  "ht_inv kc hc (HashTableSetHashFunction ht f) = ht_inv kc hc ht"
  "ht_inv kc hc (HashTableSetKeyComparisonFunction ht g) = ht_inv kc hc ht"
  by (simp_all add: fun_eq_iff ht_map_def ht_inv_def bucket_of_def HashTableSetHashFunction_def
      HashTableSetKeyComparisonFunction_def)

text \<open>
  C4: A table made by \<^verbatim>\<open>HashTableCreate\<close> and given a comparison and a hash function that respect the
  contents of the keys answers every sequence of put, get and remove calls, whatever rehashing they
  cause, as a map from key contents to values does, and its size is the number of keys of that map.
\<close>

theorem table_refines_map:
  assumes cmp: "\<And>p q. cmp m p q = 0 \<longleftrightarrow> kc q = kc p" and hash: "\<And>p. hash m p = hc (kc p)"
    and create: "HashTableCreate addr_of True True n = Inr (Some ht)"
  shows "\<exists>ht'. ht_run m (HashTableSetHashFunction (HashTableSetKeyComparisonFunction ht cmp) hash) ops =
      Inr (fst (map_run kc Map.empty ops), ht') \<and>
    ht_map kc hc ht' = snd (map_run kc Map.empty ops) \<and>
    HashTableSize ht' = of_nat (card (dom (snd (map_run kc Map.empty ops))))"
proof -
  have keys: "hashed_keys (cmp m) (hash m) kc hc" by unfold_locales (simp_all add: cmp hash)
  note made = hashed_keys.created_empty [OF keys create]
  let ?ht = "HashTableSetHashFunction (HashTableSetKeyComparisonFunction ht cmp) hash"
  have "hashed_keys.steady (cmp m) (hash m) kc hc m ?ht"
    using made unfolding hashed_keys.steady_def [OF keys] hashed_keys.uses_def [OF keys]
    by (simp add: HashTableSetHashFunction_def HashTableSetKeyComparisonFunction_def ht_inv_def bucket_of_def)
  from hashed_keys.run_refines [OF keys this, of ops] obtain ht' where
    run: "ht_run m ?ht ops = Inr (fst (map_run kc Map.empty ops), ht')"
    and st: "hashed_keys.steady (cmp m) (hash m) kc hc m ht'"
    and mp: "ht_map kc hc ht' = snd (map_run kc Map.empty ops)"
    by (auto simp: made)
  have "ht_inv kc hc ht'" using st by (simp add: hashed_keys.steady_def [OF keys])
  from size_correct [OF this] run mp show ?thesis by auto
qed

theorem table_refines_map_witness:
  "\<exists>ht ht'. HashTableCreate (\<lambda>_. 0) True True 5 = Inr (Some ht) \<and>
     ht_run () (HashTableSetHashFunction (HashTableSetKeyComparisonFunction ht
          (\<lambda>_ p q. if p = q then 0 else 1)) (\<lambda>_. of_nat))
        [OpPut (3 :: nat) ''a'', OpPut 8 ''b'', OpPut 3 ''c'', OpGet 3, OpRemove 3, OpGet 3, OpGet 8] =
      Inr ([None, None, None, Some ''c'', None, None, Some ''b''], ht') \<and> HashTableSize ht' = 1"
proof -
  obtain ht :: "(unit, nat, string) HashTable" where
    ht: "HashTableCreate (\<lambda>_. 0) True True 5 = Inr (Some ht)"
    by (simp add: HashTableCreate_def)
  let ?ops = "[OpPut (3 :: nat) ''a'', OpPut 8 ''b'', OpPut 3 ''c'', OpGet 3, OpRemove 3, OpGet 3, OpGet 8]"
  let ?g = "[3 :: nat \<mapsto> ''a'', 8 \<mapsto> ''b'', 3 \<mapsto> ''c''](3 := None)"
  have run: "map_run (\<lambda>p. p) Map.empty ?ops = ([None, None, None, Some ''c'', None, None, Some ''b''], ?g)"
    by simp
  have dm: "dom ?g = {8}" by auto
  have "\<exists>ht'. ht_run () (HashTableSetHashFunction (HashTableSetKeyComparisonFunction ht
          (\<lambda>_ p q. if p = q then 0 else 1)) (\<lambda>_. of_nat)) ?ops =
        Inr (fst (map_run (\<lambda>p. p) Map.empty ?ops), ht') \<and>
      ht_map (\<lambda>p. p) of_nat ht' = snd (map_run (\<lambda>p. p) Map.empty ?ops) \<and>
      HashTableSize ht' = of_nat (card (dom (snd (map_run (\<lambda>p. p) Map.empty ?ops))))"
    by (rule table_refines_map [OF _ _ ht]) simp_all
  with ht show ?thesis unfolding run snd_conv fst_conv dm by auto
qed

text \<open>
  Rehashing, to any requested or self-computed number of buckets and whether or not memory for
  the new array is found, keeps the invariant and every association of the table.
\<close>

theorem rehash_keeps_map:
  assumes "ht_inv kc hc ht" and "\<And>p. hashFunction ht m p = hc (kc p)"
  shows "ht_inv kc hc (HashTableRehash m array_ok ht n) \<and>
    ht_map kc hc (HashTableRehash m array_ok ht n) = ht_map kc hc ht"
  using rehash_correct [of kc hc ht m array_ok n] assms by simp

theorem rehash_keeps_map_witness:
  "let ht = \<lparr>numOfBuckets = 1, numOfElements = 2, bucketArray = [[(3 :: nat, ''a''), (8, ''b'')]],
             idealRatio = 3, lowerRehashThreshold = 0, upperRehashThreshold = 15,
             keycmp = (\<lambda>_ p q. if p = q then 0 else 1), valuecmp = (\<lambda>_. pointercmp),
             hashFunction = (\<lambda>_. of_nat), keyDeallocator = None, valueDeallocator = None\<rparr>
   in ht_map id of_nat (HashTableRehash () True ht 5) 8 = Some ''b''"
proof -
  let ?ht = "\<lparr>numOfBuckets = 1, numOfElements = 2, bucketArray = [[(3 :: nat, ''a''), (8, ''b'')]],
             idealRatio = 3, lowerRehashThreshold = 0, upperRehashThreshold = 15,
             keycmp = (\<lambda>_ p q. if p = q then 0 else 1), valuecmp = (\<lambda>_. pointercmp),
             hashFunction = (\<lambda>_. of_nat), keyDeallocator = None, valueDeallocator = None\<rparr>"
  have inv: "ht_inv id of_nat ?ht" by (simp add: ht_inv_def bucket_of_def)
  have "ht_map id of_nat ?ht 8 = Some ''b''" by (simp add: ht_map_def bucket_of_def)
  then show ?thesis
    using rehash_keeps_map [OF inv, of "()" True 5] by (simp only: Let_def) simp
qed

subsection \<open>The number of buckets\<close>

text \<open>Trial division as divisibility: a number passes when no odd number from 3 to 49 other than itself divides it.\<close>

definition passes :: "nat \<Rightarrow> bool" where
  "passes n \<longleftrightarrow> (\<forall>d. odd d \<and> 3 \<le> d \<and> d < 51 \<and> d dvd n \<longrightarrow> d = n)"

lemma prime_loop_dvd:
  assumes "n \<noteq> 0" "odd (unat i)"
  shows "prime_loop n i \<longleftrightarrow> (\<forall>d. odd d \<and> unat i \<le> d \<and> d < 51 \<and> d dvd unat n \<longrightarrow> d = unat n)"
  using assms
proof (induction n i rule: prime_loop.induct)
  case (1 n i)
  have pos: "0 < unat n" using 1(2) by (simp add: unat_gt_0)
  show ?case
  proof (cases "i < 51")
    case False
    then show ?thesis by (subst prime_loop.simps) (auto simp: word_less_nat_alt)
  next
    case less: True
    have i2: "unat (i + 2) = unat i + 2" using less by (subst unat_plus) (simp_all add: word_less_nat_alt)
    have step: "odd d \<and> unat i \<le> d \<longleftrightarrow> d = unat i \<or> odd d \<and> unat i + 2 \<le> d" for d
      using 1(3) by (cases "d = unat i + 1") auto
    have mod: "n mod i = 0 \<longleftrightarrow> unat i dvd unat n" by (simp add: dvd_eq_mod_eq_0 word_unat_eq_iff unat_mod)
    show ?thesis
    proof (cases "n = i")
      case True
      have "d \<le> unat n" if "d dvd unat n" for d using that pos by (rule dvd_imp_le)
      then show ?thesis using True less by (subst prime_loop.simps) (auto intro: antisym)
    next
      case ne: False
      then have ne': "unat i \<noteq> unat n" by (metis word_unat_eq_iff)
      show ?thesis
      proof (cases "n mod i = 0")
        case True
        have "unat i < 51" using less by (simp add: word_less_nat_alt)
        then show ?thesis using True ne ne' less 1(3) mod by (subst prime_loop.simps) auto
      next
        case False
        have "prime_loop n (i + 2) \<longleftrightarrow> (\<forall>d. odd d \<and> unat i + 2 \<le> d \<and> d < 51 \<and> d dvd unat n \<longrightarrow> d = unat n)"
          using 1(1) [OF less ne False 1(2)] 1(3) by (simp add: i2)
        moreover have "\<dots> \<longleftrightarrow> (\<forall>d. odd d \<and> unat i \<le> d \<and> d < 51 \<and> d dvd unat n \<longrightarrow> d = unat n)"
          using step False mod by metis
        ultimately show ?thesis using less ne False by (subst prime_loop.simps) simp
      qed
    qed
  qed
qed

lemma even_unat: "even (unat w) = even w" for w :: u32
  by transfer (simp add: even_nat_iff)

lemma probable_passes: "n \<noteq> 0 \<Longrightarrow> isProbablePrime n \<longleftrightarrow> passes (unat n)"
  using prime_loop_dvd [of n 3] by (simp add: isProbablePrime_def passes_def)

text \<open>Below the square of 53 the numbers that pass are the odd primes.\<close>

lemma passes_prime:
  assumes "passes n" "odd n" "1 < n" "n < 53 * 53"
  shows "d dvd n \<Longrightarrow> d = 1 \<or> d = n"
proof (rule ccontr)
  have small: "\<exists>d. d dvd n \<and> 1 < d \<and> d < n \<and> d < 53" if d: "d dvd n" "d \<noteq> 1" "d \<noteq> n" for d
  proof -
    obtain e where e: "n = d * e" using d(1) by (rule dvdE)
    have "0 < d" "0 < e" using e assms(3) by (auto intro: Nat.gr0I)
    moreover have "e \<noteq> 1" "d \<noteq> n" using d e by auto
    ultimately have de: "1 < d" "1 < e" "d < n" "e < n" using d(2) e by auto
    have "d < 53 \<or> e < 53"
    proof (rule ccontr)
      assume "\<not> (d < 53 \<or> e < 53)"
      then have "53 * 53 \<le> d * e" by (intro mult_le_mono) auto
      then show False using e assms(4) by simp
    qed
    then show ?thesis
    proof
      assume "d < 53"
      then show ?thesis using de d(1) by blast
    next
      assume "e < 53"
      moreover have "e dvd n" using e by simp
      ultimately show ?thesis using de by blast
    qed
  qed
  assume "d dvd n" "\<not> (d = 1 \<or> d = n)"
  with small obtain c where c: "c dvd n" "1 < c" "c < n" "c < 53" by blast
  have "odd c" using c(1) assms(2) dvd_trans by blast
  then have "c \<noteq> 2" "c \<noteq> 52" by auto
  show False
  proof (cases "c = 51")
    case True
    then have "3 dvd n" using c(1) dvd_trans [of 3 51 n] by simp
    then have "3 = n" using assms(1) [unfolded passes_def, rule_format, of 3] by simp
    then show False using c(3) True by simp
  next
    case False
    then have "c < 51" "3 \<le> c" using c \<open>c \<noteq> 2\<close> \<open>c \<noteq> 52\<close> by auto
    then show False using assms(1) c \<open>odd c\<close> by (auto simp: passes_def)
  qed
qed

text \<open>The search finds the first odd number from its start on that passes; 4294967291 does, so that it does not wrap around.\<close>

lemma last_prime: "isProbablePrime 4294967291"
  by (simp add: isProbablePrime_def prime_loop.simps)

lemma next_prime_least:
  assumes "odd (unat n)" "unat n \<le> 4294967291"
  shows "unat n \<le> unat (next_probable_prime n) \<and> (\<forall>m. odd m \<and> unat n \<le> m \<and> m < unat (next_probable_prime n) \<longrightarrow> \<not> passes m)"
  using assms
proof (induction n rule: next_probable_prime.induct)
  case (1 n)
  show ?case
  proof (cases "isProbablePrime n")
    case True
    then show ?thesis by (subst (1 2) next_probable_prime.simps) auto
  next
    case False
    have n0: "n \<noteq> 0" using 1(2) by auto
    have "unat n \<noteq> unat (4294967291 :: u32)" using False last_prime by (metis word_unat_eq_iff)
    then have "unat n < 4294967291" using 1(3) by simp
    then have "unat n + 2 \<le> 4294967291" using 1(2) by (cases "unat n + 1 = 4294967291") auto
    moreover have n2: "unat (n + 2) = unat n + 2" using calculation by (subst unat_plus) simp_all
    ultimately have IH: "unat n + 2 \<le> unat (next_probable_prime (n + 2)) \<and>
      (\<forall>m. odd m \<and> unat n + 2 \<le> m \<and> m < unat (next_probable_prime (n + 2)) \<longrightarrow> \<not> passes m)"
      using 1(1) [OF False] 1(2) by simp
    have nx: "next_probable_prime n = next_probable_prime (n + 2)" using False by (subst next_probable_prime.simps) simp
    have "\<not> passes m" if m: "odd m" "unat n \<le> m" "m < unat (next_probable_prime (n + 2))" for m
    proof (cases "m = unat n")
      case True
      then show ?thesis using False probable_passes [OF n0] by simp
    next
      case ne: False
      then have "unat n + 2 \<le> m" using m(1,2) 1(2) by (cases "m = unat n + 1") auto
      then show ?thesis using IH m by blast
    qed
    then show ?thesis using IH nx by auto
  qed
qed

text \<open>
  C28: The number of buckets that a table chooses for itself, when the quotient \<open>q\<close> of its elements and its ratio is a 32-bit
  number: the search ends with the first odd number from the larger of \<open>q\<close> and 5 on that no other odd number from 3 to 49
  divides. Below 2809 it is a prime number.
\<close>

theorem ideal_buckets_prime:
  fixes ht :: "('m, 'k, 'v) HashTable"
  defines "q \<equiv> \<lfloor>f32 (f32 (of_nat (unat (numOfElements ht))) / idealRatio ht)\<rfloor>"
    and "n \<equiv> unat (calculateIdealNumOfBuckets ht)"
  assumes "0 < idealRatio ht" "0 \<le> q" "q \<le> 4294967291"
  shows "odd n \<and> max 5 q \<le> int n \<and> (\<forall>d. odd d \<and> 3 \<le> d \<and> d \<le> 49 \<and> d dvd n \<longrightarrow> d = n) \<and>
    (\<forall>m. odd m \<and> max 5 q \<le> int m \<and> m < n \<longrightarrow> (\<exists>d. odd d \<and> 3 \<le> d \<and> d \<le> 49 \<and> d \<noteq> m \<and> d dvd m)) \<and>
    (n < 53 * 53 \<longrightarrow> (\<forall>d. d dvd n \<longrightarrow> d = 1 \<or> d = n))"
proof -
  define a :: u32 where "a = (if (of_int q :: u32) < 5 then 5 else of_int q OR 1)"
  have uq: "int (unat (of_int q :: u32)) = q" using assms(4,5) by (simp add: uint_word_of_int)
  have a: "odd (unat a) \<and> max 5 q \<le> int (unat a) \<and> unat a \<le> 4294967291 \<and> (\<forall>m. odd m \<and> max 5 q \<le> int m \<longrightarrow> unat a \<le> m)"
  proof (cases "q < 5")
    case True
    then have "(of_int q :: u32) < 5" using uq by (simp add: word_less_def)
    then show ?thesis using True by (auto simp: a_def)
  next
    case False
    let ?w = "of_int q :: u32"
    have w: "unat ?w = nat q" using uq by (simp add: nat_eq_iff2 del: of_nat_unat)
    have ev: "even ?w \<longleftrightarrow> even (nat q)" using even_unat [of ?w] w by simp
    have big: "\<not> ?w < 5" using False w by (simp add: word_less_nat_alt)
    have "unat a = nat q + of_bool (even (nat q))"
    proof (cases "even (nat q)")
      case True
      have "nat q \<noteq> 4294967291" using True by auto
      then have "unat (?w + 1) = unat ?w + 1" using assms(5) w by (intro unat_plus1) simp
      then show ?thesis using True big ev w by (simp add: a_def or_one_eq)
    next
      case odd: False
      then show ?thesis using big ev w by (simp add: a_def or_one_eq)
    qed
    moreover have "nat q \<noteq> 4294967291" if "even (nat q)" using that by auto
    moreover have "int (nat q) = q" using assms(4) by simp
    ultimately show ?thesis using False assms(4,5) by (auto simp: le_nat_iff nat_le_iff) (metis Suc_leI le_neq_implies_less nat_le_iff)
  qed
  have calc: "calculateIdealNumOfBuckets ht = next_probable_prime a"
    unfolding calculateIdealNumOfBuckets_def q_def [symmetric] Let_def a_def ..
  then have n: "n = unat (next_probable_prime a)" by (simp add: n_def)
  have least: "unat a \<le> n" "\<And>m. odd m \<Longrightarrow> unat a \<le> m \<Longrightarrow> m < n \<Longrightarrow> \<not> passes m"
    using next_prime_least [of a] a by (simp_all add: n)
  have "odd n" using ideal_odd [of ht] by (simp add: n_def even_unat)
  moreover have nn: "max 5 q \<le> int n" using a least(1) by linarith
  moreover have ps: "passes n"
    using probable_passes [of "next_probable_prime a"] next_probable_prime_is [of a] ideal_pos [of ht] unfolding calc n by simp
  moreover have "\<exists>d. odd d \<and> 3 \<le> d \<and> d \<le> 49 \<and> d \<noteq> m \<and> d dvd m" if "odd m" "max 5 q \<le> int m" "m < n" for m
  proof -
    have "\<not> passes m" using least(2) a that by blast
    then obtain d where "odd d" "3 \<le> d" "d < 51" "d dvd m" "d \<noteq> m" by (auto simp: passes_def)
    moreover then have "d \<noteq> 50" by auto
    ultimately show ?thesis by (intro exI [of _ d]) auto
  qed
  moreover have "1 < n" using nn by auto
  ultimately show ?thesis using passes_prime [of n] by (auto simp: passes_def)
qed

text \<open>3000 elements at the ratio 3 give 1000, and the search goes over 1001, 1003, 1005 and 1007.\<close>

lemma demo_ratio: "f32 3000 = 3000" "f32 1000 = 1000"
proof -
  have "floorlog 2 3000 = 12" "floorlog 2 1000 = 10" "floorlog 2 (Suc 0) = 1" by code_simp+
  then show "f32 3000 = 3000" "f32 1000 = 1000" by (simp_all add: f32_def power_int_def Let_def power_divide)
qed

theorem ideal_buckets_prime_witness:
  "let ht = \<lparr>numOfBuckets = 5, numOfElements = 3000, bucketArray = [], idealRatio = 3, lowerRehashThreshold = 0, upperRehashThreshold = 15,
       keycmp = (\<lambda>_. pointercmp), valuecmp = (\<lambda>_. pointercmp), hashFunction = (\<lambda>_ _. 0), keyDeallocator = None, valueDeallocator = None\<rparr>
         :: (unit, nat, nat) HashTable in
   calculateIdealNumOfBuckets ht = 1009 \<and> (\<forall>d. d dvd (1009 :: nat) \<longrightarrow> d = 1 \<or> d = 1009)"
proof -
  let ?ht = "\<lparr>numOfBuckets = 5, numOfElements = 3000, bucketArray = [], idealRatio = 3, lowerRehashThreshold = 0, upperRehashThreshold = 15,
       keycmp = (\<lambda>_. pointercmp), valuecmp = (\<lambda>_. pointercmp), hashFunction = (\<lambda>_ _. 0), keyDeallocator = None, valueDeallocator = None\<rparr>
         :: (unit, nat, nat) HashTable"
  have q: "\<lfloor>f32 (f32 (of_nat (unat (numOfElements ?ht))) / idealRatio ?ht)\<rfloor> = 1000" by (simp add: demo_ratio)
  have n: "calculateIdealNumOfBuckets ?ht = 1009"
    using q by (simp add: calculateIdealNumOfBuckets_def next_probable_prime.simps isProbablePrime_def prime_loop.simps)
  show ?thesis using ideal_buckets_prime [of ?ht] unfolding q n by (simp add: n)
qed

subsection \<open>No rehashing\<close>

lemma f32_zero [simp]: "f32 0 = 0"
  by (simp add: f32_def)

text \<open>The power of two that the number of digits of numerator and denominator gives is at most twice the number.\<close>

lemma digits_bound:
  fixes a b :: int
  assumes a: "0 < a" and b: "0 < b"
  shows "2 powi (int (floorlog 2 (nat a)) - int (floorlog 2 (nat b)) - 1) \<le> (of_int a / of_int b :: rat)"
proof -
  let ?fa = "floorlog 2 (nat a)" and ?fb = "floorlog 2 (nat b)"
  have fa: "2 ^ (?fa - 1) \<le> nat a" and fb: "nat b < 2 ^ ?fb" using floorlog_bounds [of "nat a" 2] floorlog_bounds [of "nat b" 2] a b by simp_all
  have "0 < ?fa" using a by (simp add: floorlog_eq_zero_iff flip: neq0_conv)
  then have "int ?fa - int ?fb - 1 = int (?fa - 1) - int ?fb" by (simp add: of_nat_diff)
  then have "2 powi (int ?fa - int ?fb - 1) = (2 powi int (?fa - 1) / 2 powi int ?fb :: rat)" by (simp only: power_int_diff simp_thms rel_simps)
  also have "\<dots> = 2 ^ (?fa - 1) / 2 ^ ?fb" by simp
  also have "\<dots> \<le> of_int a / of_int b"
  proof (rule frac_le)
    have "(of_nat (2 ^ (?fa - 1)) :: rat) \<le> of_nat (nat a)" using fa by (simp only: of_nat_le_iff)
    then show "2 ^ (?fa - 1) \<le> (of_int a :: rat)" using a by simp
    have "(of_nat (nat b) :: rat) \<le> of_nat (2 ^ ?fb)" using fb by (simp only: of_nat_le_iff)
    then show "(of_int b :: rat) \<le> 2 ^ ?fb" using b by simp
  qed (use a b in simp_all)
  finally show ?thesis .
qed

text \<open>Rounding moves a number by less than half of it.\<close>

lemma f32_bounds:
  assumes "0 < q"
  shows "q / 2 \<le> f32 q" "f32 q \<le> 2 * q"
proof -
  obtain a b where ab: "quotient_of q = (a, b)" by (cases "quotient_of q")
  have b: "0 < b" using ab by (rule quotient_of_denom_pos)
  have q: "q = of_int a / of_int b" using ab by (rule quotient_of_div)
  have a: "0 < a" using assms b by (simp add: q zero_less_divide_iff)
  define e0 where "e0 = int (floorlog 2 (nat a)) - int (floorlog 2 (nat b))"
  define e where "e = (if 2 powi e0 \<le> q then e0 else e0 - 1)"
  define ulp :: rat where "ulp = 2 powi (e - 23)"
  define n where "n = \<lfloor>q / ulp\<rfloor>"
  define m where "m = (if q / ulp - of_int n < 1 / 2 \<or> q / ulp - of_int n = 1 / 2 \<and> even n then n else n + 1)"
  have f: "f32 q = of_int m * ulp" 
    unfolding f32_def ab prod.case Let_def e0_def [symmetric] e_def [symmetric] ulp_def [symmetric] n_def [symmetric] m_def [symmetric]
    using assms by simp
  have low: "2 powi (e0 - 1) \<le> q" using digits_bound [OF a b] by (simp add: e0_def q)
  have ulp: "0 < ulp" by (simp add: ulp_def)
  have "ulp \<le> 2 powi e" by (simp add: ulp_def power_int_increasing)
  also have "2 powi e \<le> q" using low by (simp add: e_def)
  finally have "1 \<le> q / ulp" using ulp by simp
  then have n: "1 \<le> n" "of_int n \<le> q / ulp" "q / ulp < of_int n + 1" by (simp_all add: n_def) linarith
  define x where "x = q / ulp"
  have "of_int m \<le> x + 1 / 2" using n(2) by (auto simp: m_def x_def [symmetric])
  then have m: "n \<le> m" "of_int m \<le> q / ulp + 1 / 2" by (auto simp: m_def x_def)
  have r: "q = (q / ulp) * ulp" using ulp by simp
  have "of_int m \<le> 2 * (q / ulp)" using m(2) n(1,2) by linarith
  then have "of_int m * ulp \<le> 2 * (q / ulp) * ulp" using ulp by (intro mult_right_mono) simp_all
  then show "f32 q \<le> 2 * q" using ulp by (simp add: f)
  have "1 \<le> (of_int n :: rat)" using n(1) by simp
  then have "q / ulp / 2 \<le> of_int n" using n(3) unfolding x_def [symmetric] by linarith
  also have "of_int n \<le> (of_int m :: rat)" using m(1) by simp
  finally have "q / ulp / 2 * ulp \<le> of_int m * ulp" using ulp by (intro mult_right_mono) simp_all
  then show "q / 2 \<le> f32 q" using ulp by (simp add: f)
qed

lemma ratio_small:
  assumes "numOfElements ht \<le> numOfBuckets ht" "numOfBuckets ht \<noteq> 0"
  shows "elementToBucketRatio ht \<le> 15"
proof (cases "numOfElements ht = 0")
  case False
  let ?n = "of_nat (unat (numOfElements ht)) :: rat" and ?b = "of_nat (unat (numOfBuckets ht)) :: rat"
  have pos: "0 < ?n" "0 < ?b" using False assms(2) by (simp_all add: unsigned_eq_0_iff of_nat_0_less_iff flip: neq0_conv del: of_nat_unat)
  have nb: "?n \<le> ?b" using assms(1) unfolding word_le_nat_alt by (simp only: of_nat_le_iff)
  have fn: "0 < f32 ?n" "f32 ?n \<le> 2 * ?n" and fb: "?b / 2 \<le> f32 ?b"
    using f32_bounds [OF pos(1)] f32_bounds [OF pos(2)] pos by linarith+
  have "f32 ?n / f32 ?b \<le> (2 * ?n) / (?b / 2)" using fn fb pos by (intro frac_le) simp_all
  also have "\<dots> \<le> 4" using nb pos by (simp add: field_simps)
  finally have q: "f32 ?n / f32 ?b \<le> 4" .
  have "0 < f32 ?n / f32 ?b" using fn(1) fb pos(2) by (intro divide_pos_pos) linarith+
  from f32_bounds(2) [OF this] q have "f32 (f32 ?n / f32 ?b) \<le> 8" by linarith
  then show ?thesis by (simp add: elementToBucketRatio_def)
qed (simp add: elementToBucketRatio_def)

end
