(* ===== verification/Tval.thy ===== *)
theory Tval
  imports Prelude
begin

text \<open>
  Timestamps (\<^verbatim>\<open>common/tval.c\<close>) and the difference of two readings of a 32-bit counter
  (\<^verbatim>\<open>statproc/statproc_utils.c\<close>).
\<close>

subsection \<open>The code\<close>

record tval_t =
  tv_sec :: u32
  tv_usec :: u32

text \<open>
  The first branch computes in \<^verbatim>\<open>int64_t\<close>, where nothing overflows; its result is reduced to 32
  bits when it is added to \<^verbatim>\<open>diff\<close>.
\<close>

definition tval_diff_ms :: "tval_t \<Rightarrow> tval_t \<Rightarrow> u32" where
  "tval_diff_ms prev cur =
     (let diff = (tv_sec cur - tv_sec prev) * 1000 in
      if tv_usec cur < tv_usec prev
      then diff + of_int ((0x0FFFFFFFF + uint (tv_usec cur) - uint (tv_usec prev)) div 1000)
      else diff + (tv_usec cur - tv_usec prev) div 1000)"

definition tval_bytes :: "tval_t \<Rightarrow> u8 list" where
  "tval_bytes t = le32 (tv_sec t) @ le32 (tv_usec t)"

definition tval_cmp :: "tval_t \<Rightarrow> tval_t \<Rightarrow> int" where
  "tval_cmp prev cur = memcmp (tval_bytes prev) (tval_bytes cur)"

definition u32diff :: "u32 \<Rightarrow> u32 \<Rightarrow> u32" where
  "u32diff prev cur =
     (if cur \<ge> prev then cur - prev else of_int (0x0FFFFFFFF + uint cur - uint prev))"

subsection \<open>Properties\<close>

lemma tval_bytes_inject: "tval_bytes s = tval_bytes t \<longleftrightarrow> s = t"
  by (cases s; cases t) (simp add: tval_bytes_def)

text \<open>Elapsed time in microseconds, as a mathematical integer.\<close>

definition elapsed_us :: "tval_t \<Rightarrow> tval_t \<Rightarrow> int" where
  "elapsed_us prev cur =
     (uint (tv_sec cur) - uint (tv_sec prev)) * 1000000 + uint (tv_usec cur) - uint (tv_usec prev)"

lemma elapsed_ms:
  "elapsed_us prev cur div 1000 =
     (uint (tv_sec cur) - uint (tv_sec prev)) * 1000 + (uint (tv_usec cur) - uint (tv_usec prev)) div 1000"
proof -
  have "elapsed_us prev cur =
      uint (tv_usec cur) - uint (tv_usec prev) + (uint (tv_sec cur) - uint (tv_sec prev)) * 1000 * 1000"
    by (simp add: elapsed_us_def)
  then show ?thesis by (simp only: div_mult_self1)
qed

lemma diff_ms_exact:
  assumes "tv_usec prev \<le> tv_usec cur"
  shows "tval_diff_ms prev cur = of_int (elapsed_us prev cur div 1000)"
proof -
  have "uint (tv_usec cur - tv_usec prev) = uint (tv_usec cur) - uint (tv_usec prev)"
    using assms by (simp add: uint_minus_simple_alt)
  then have "(tv_usec cur - tv_usec prev) div 1000 = of_int ((uint (tv_usec cur) - uint (tv_usec prev)) div 1000)"
    by (simp add: word_div_def)
  with assms show ?thesis by (simp add: tval_diff_ms_def elapsed_ms Let_def)
qed

lemma diff_ms_borrow:
  assumes "tv_usec cur < tv_usec prev"
  shows "tval_diff_ms prev cur = of_int (elapsed_us prev cur div 1000 + 4294967) \<or>
    tval_diff_ms prev cur = of_int (elapsed_us prev cur div 1000 + 4294968)"
proof -
  define d where "d = uint (tv_usec cur) - uint (tv_usec prev)"
  have "(0x0FFFFFFFF + d) div 1000 = d div 1000 + 4294967 \<or> (0x0FFFFFFFF + d) div 1000 = d div 1000 + 4294968"
    by linarith
  moreover have "tval_diff_ms prev cur = (tv_sec cur - tv_sec prev) * 1000 + of_int ((0x0FFFFFFFF + d) div 1000)"
    using assms by (simp add: tval_diff_ms_def d_def add_diff_eq)
  moreover have "of_int (elapsed_us prev cur div 1000 + k) = (tv_sec cur - tv_sec prev) * 1000 + of_int (d div 1000 + k)" for k
    by (simp add: elapsed_ms d_def)
  ultimately show ?thesis by metis
qed

text \<open>
  C30: The difference of two timestamps is the elapsed time in whole milliseconds when the microseconds do
  not go down. When they do, the code adds \<open>2 ^ 32 - 1\<close> microseconds where it should add nothing, since the
  seconds have been counted already: the result is 4294967 or 4294968 milliseconds (some 72 minutes) too large.
\<close>

theorem tval_diff_ms_elapsed:
  "\<exists>excess. (if tv_usec prev \<le> tv_usec cur then excess = 0 else excess = 4294967 \<or> excess = 4294968) \<and>
    tval_diff_ms prev cur = of_int (elapsed_us prev cur div 1000 + excess)"
proof (cases "tv_usec prev \<le> tv_usec cur")
  case True
  then show ?thesis by (intro exI [of _ 0]) (simp add: diff_ms_exact)
next
  case False
  then have "tv_usec cur < tv_usec prev" by simp
  from diff_ms_borrow [OF this] show ?thesis unfolding if_not_P [OF False] by blast
qed

lemma tval_cmp_zero: "tval_cmp prev cur = 0 \<longleftrightarrow> prev = cur"
proof -
  have "length (tval_bytes prev) = length (tval_bytes cur)" by (simp add: tval_bytes_def le32_def)
  then show ?thesis by (simp add: tval_cmp_def memcmp_zero tval_bytes_inject)
qed

text \<open>
  \<^verbatim>\<open>tval_cmp\<close> is zero for equal timestamps only and changes sign when its arguments are
  exchanged, but it does not order timestamps: second 256 compares below second 1.
\<close>

theorem tval_cmp_sound:
  "(tval_cmp prev cur = 0 \<longleftrightarrow> prev = cur) \<and> tval_cmp cur prev = - tval_cmp prev cur \<and>
   tval_cmp \<lparr>tv_sec = 256, tv_usec = 0\<rparr> \<lparr>tv_sec = 1, tv_usec = 0\<rparr> = - 1"
proof (intro conjI)
  have len: "length (tval_bytes prev) = length (tval_bytes cur)" by (simp add: tval_bytes_def)
  show "tval_cmp prev cur = 0 \<longleftrightarrow> prev = cur" by (rule tval_cmp_zero)
  show "tval_cmp cur prev = - tval_cmp prev cur"
    by (simp add: tval_cmp_def memcmp_sym [OF len])
qed (simp add: tval_cmp_def tval_bytes_def le32_def)

text \<open>
  Adding \<^verbatim>\<open>u32diff\<close> to the earlier reading of a counter gives the later one, except that a
  difference taken across the wrap-around is one too small.
\<close>

theorem u32diff_counts: "prev + u32diff prev cur = (if prev \<le> cur then cur else cur - 1)"
  by (simp add: u32diff_def)

end
