(* ===== verification/IpUtils.thy ===== *)
theory IpUtils
  imports Prelude
begin

text \<open>
  IPv4 addresses (\<^verbatim>\<open>net/iputils.c\<close>): the private address test and the dotted notation. An address is
  the 32-bit integer a little-endian machine reads from the four octets of the packet.
\<close>

subsection \<open>The code\<close>

definition IpQuadTab :: "string list" where
  "IpQuadTab = [
   ''0'', ''1'', ''2'', ''3'', ''4'', ''5'', ''6'', ''7'', ''8'', ''9'', ''10'', ''11'', ''12'', ''13'', ''14'', ''15'',
   ''16'', ''17'', ''18'', ''19'', ''20'', ''21'', ''22'', ''23'', ''24'', ''25'', ''26'', ''27'', ''28'', ''29'', ''30'', ''31'',
   ''32'', ''33'', ''34'', ''35'', ''36'', ''37'', ''38'', ''39'', ''40'', ''41'', ''42'', ''43'', ''44'', ''45'', ''46'', ''47'',
   ''48'', ''49'', ''50'', ''51'', ''52'', ''53'', ''54'', ''55'', ''56'', ''57'', ''58'', ''59'', ''60'', ''61'', ''62'', ''63'',
   ''64'', ''65'', ''66'', ''67'', ''68'', ''69'', ''70'', ''71'', ''72'', ''73'', ''74'', ''75'', ''76'', ''77'', ''78'', ''79'',
   ''80'', ''81'', ''82'', ''83'', ''84'', ''85'', ''86'', ''87'', ''88'', ''89'', ''90'', ''91'', ''92'', ''93'', ''94'', ''95'',
   ''96'', ''97'', ''98'', ''99'', ''100'', ''101'', ''102'', ''103'', ''104'', ''105'', ''106'', ''107'', ''108'', ''109'', ''110'', ''111'',
   ''112'', ''113'', ''114'', ''115'', ''116'', ''117'', ''118'', ''119'', ''120'', ''121'', ''122'', ''123'', ''124'', ''125'', ''126'', ''127'',
   ''128'', ''129'', ''130'', ''131'', ''132'', ''133'', ''134'', ''135'', ''136'', ''137'', ''138'', ''139'', ''140'', ''141'', ''142'', ''143'',
   ''144'', ''145'', ''146'', ''147'', ''148'', ''149'', ''150'', ''151'', ''152'', ''153'', ''154'', ''155'', ''156'', ''157'', ''158'', ''159'',
   ''160'', ''161'', ''162'', ''163'', ''164'', ''165'', ''166'', ''167'', ''168'', ''169'', ''170'', ''171'', ''172'', ''173'', ''174'', ''175'',
   ''176'', ''177'', ''178'', ''179'', ''180'', ''181'', ''182'', ''183'', ''184'', ''185'', ''186'', ''187'', ''188'', ''189'', ''190'', ''191'',
   ''192'', ''193'', ''194'', ''195'', ''196'', ''197'', ''198'', ''199'', ''200'', ''201'', ''202'', ''203'', ''204'', ''205'', ''206'', ''207'',
   ''208'', ''209'', ''210'', ''211'', ''212'', ''213'', ''214'', ''215'', ''216'', ''217'', ''218'', ''219'', ''220'', ''221'', ''222'', ''223'',
   ''224'', ''225'', ''226'', ''227'', ''228'', ''229'', ''230'', ''231'', ''232'', ''233'', ''234'', ''235'', ''236'', ''237'', ''238'', ''239'',
   ''240'', ''241'', ''242'', ''243'', ''244'', ''245'', ''246'', ''247'', ''248'', ''249'', ''250'', ''251'', ''252'', ''253'', ''254'', ''255'']"

text \<open>
  Characters are written through a pointer that moves through a buffer: the buffer is the string
  written so far, and writing beyond its \<open>cap\<close> bytes is a fault. The terminating null character is
  written last, and what is returned is the string before it.
\<close>

definition put_char :: "nat \<Rightarrow> string \<Rightarrow> char \<Rightarrow> string c_result" where
  "put_char cap buf c = (if length buf < cap then Inr (buf @ [c]) else Inl OutOfBounds)"

primrec put_string :: "nat \<Rightarrow> string \<Rightarrow> string \<Rightarrow> string c_result" where
  "put_string cap buf [] = Inr buf"
| "put_string cap buf (c # n) = bind_r (put_char cap buf c) (\<lambda>buf'. put_string cap buf' n)"

definition quad :: "u8 \<Rightarrow> string" where
  "quad a = IpQuadTab ! unat a"

definition inetntoa :: "u8 \<Rightarrow> u8 \<Rightarrow> u8 \<Rightarrow> u8 \<Rightarrow> string c_result" where
  "inetntoa a b c d =
     bind_r (put_string 16 [] (quad a)) (\<lambda>buf.
     bind_r (put_char 16 buf (CHR ''.'')) (\<lambda>buf.
     bind_r (put_string 16 buf (quad b)) (\<lambda>buf.
     bind_r (put_char 16 buf (CHR ''.'')) (\<lambda>buf.
     bind_r (put_string 16 buf (quad c)) (\<lambda>buf.
     bind_r (put_char 16 buf (CHR ''.'')) (\<lambda>buf.
     bind_r (put_string 16 buf (quad d)) (\<lambda>buf.
     bind_r (put_char 16 buf (CHR 0x00)) (\<lambda>_. Inr buf))))))))"

text \<open>\<open>cap\<close> is the size of the caller's buffer \<^verbatim>\<open>dest\<close>.\<close>

definition ip2string :: "nat \<Rightarrow> u32 \<Rightarrow> string c_result" where
  "ip2string cap ipaddr =
     bind_r (inetntoa (ucast ipaddr) (ucast (drop_bit 8 ipaddr))
               (ucast (drop_bit 16 ipaddr)) (ucast (drop_bit 24 ipaddr))) (\<lambda>s.
       if length s < cap then Inr s else Inl OutOfBounds)"

definition ipaddr_is_bcast :: "u32 \<Rightarrow> bool" where
  "ipaddr_is_bcast ipaddr \<longleftrightarrow> ipaddr = 0xFFFFFFFF"

text \<open>
  The private address test. The code first prints the address into a local buffer of 20 bytes
  that it never reads; \<open>ip2string_dotted\<close> below shows that the buffer is large enough.
\<close>

definition ipaddr_is_lan :: "u32 \<Rightarrow> bool" where
  "ipaddr_is_lan ipaddr \<longleftrightarrow>
     (if ipaddr AND 0x0000FFFF = 0x0000A8C0 then True
      else if ipaddr AND 0x000000FF = 0x0000000A then True
      else if ipaddr AND 0x00001FFF = 0x000010AC then True
      else if ipaddr = 0x010000E0 then True
      else if ipaddr_is_bcast ipaddr then True
      else False)"

subsection \<open>The dotted notation\<close>

text \<open>The reference: the octets in decimal notation, joined by dots.\<close>

definition dotted :: "u8 list \<Rightarrow> string" where
  "dotted os = concat (case os of [] \<Rightarrow> [] | o1 # os' \<Rightarrow> dec (unat o1) # map (\<lambda>x. CHR ''.'' # dec (unat x)) os')"

lemma IpQuadTab_dec: "IpQuadTab = map dec [0..<256]"
  by code_simp

lemma quad_dec: "quad a = dec (unat a)"
proof -
  have "unat a < 256" using unsigned_less [of a, where ?'a = nat] by simp
  then show ?thesis by (simp add: quad_def IpQuadTab_dec)
qed

lemma length_dec: "n < 1000 \<Longrightarrow> length (dec n) \<le> 3"
  by (simp add: dec.simps [of n] dec.simps [of "n div 10"] dec.simps [of "n div 10 div 10"])

lemma length_quad: "length (dec (unat a)) \<le> 3" for a :: u8
  using unsigned_less [of a, where ?'a = nat] by (intro length_dec) simp

lemma put_string_fits: "length buf + length n \<le> cap \<Longrightarrow> put_string cap buf n = Inr (buf @ n)"
  by (induction n arbitrary: buf) (simp_all add: put_char_def)

lemma put_char_fits: "length buf < cap \<Longrightarrow> put_char cap buf c = Inr (buf @ [c])"
  by (simp add: put_char_def)

lemma inetntoa_dotted: "inetntoa a b c d = Inr (dotted [a, b, c, d])"
  using length_quad [of a] length_quad [of b] length_quad [of c] length_quad [of d]
  by (simp add: inetntoa_def quad_dec put_string_fits put_char_fits dotted_def)

lemma length_dotted4: "length (dotted [a, b, c, d]) \<le> 15"
  using length_quad [of a] length_quad [of b] length_quad [of c] length_quad [of d]
  by (simp add: dotted_def)

lemma ip2string_eq: "16 \<le> cap \<Longrightarrow> ip2string cap ip = Inr (dotted (le32 ip))"
  using length_dotted4 [of "ucast ip" "ucast (drop_bit 8 ip)" "ucast (drop_bit 16 ip)" "ucast (drop_bit 24 ip)"]
  by (simp add: ip2string_def inetntoa_dotted le32_def)

lemma dec_dot_append: "dec m @ CHR ''.'' # xs = dec n @ CHR ''.'' # ys \<longleftrightarrow> m = n \<and> xs = ys"
  by (rule dec_sep_append) simp

lemma dotted_inject: "dotted [a, b, c, d] = dotted [a', b', c', d'] \<longleftrightarrow> [a, b, c, d] = [a', b', c', d']"
  by (simp add: dotted_def dec_dot_append flip: word_unat_eq_iff)

text \<open>
  C29: \<^verbatim>\<open>ip2string\<close> stays inside its own static buffer of 16 bytes and inside every destination of at
  least 16 bytes, and writes the four octets of the address in decimal, in network order, joined by
  dots.
\<close>

theorem ip2string_dotted:
  assumes "16 \<le> cap"
  shows "ip2string cap ipaddr = Inr (dotted (le32 ipaddr))"
  using assms by (rule ip2string_eq)

theorem ip2string_dotted_witness: "ip2string 20 0x0101A8C0 = Inr ''192.168.1.1''"
  using ip2string_dotted [of 20 "0x0101A8C0"] by (simp add: dotted_def le32_def dec.simps) code_simp

text \<open>Two addresses that print alike are equal.\<close>

theorem ip2string_injective:
  assumes "ip2string cap a = Inr s" and "ip2string cap b = Inr s"
  shows "a = b"
proof -
  have "dotted (le32 a) = dotted (le32 b)"
    using assms by (auto simp: ip2string_def inetntoa_dotted le32_def split: if_splits)
  then have "le32 a = le32 b" by (simp only: le32_def dotted_inject)
  then show ?thesis by simp
qed

theorem ip2string_injective_witness: "ip2string 16 0x0100007F = Inr ''127.0.0.1'' \<and> (0x0100007F :: u32) = 16777343"
  using ip2string_injective [of 16 "0x0100007F" "''127.0.0.1''" "16777343"]
  by code_simp

subsection \<open>Private addresses\<close>

lemma le32_and: "le32 (v AND w) = map2 (AND) (le32 v) (le32 w)"
  by (auto simp: byte_view intro!: bit_word_eqI)

lemma le32_eq_iff: "v = w \<longleftrightarrow> le32 v = le32 w"
  by simp

text \<open>
  An address \<open>a.b.c.d\<close> is taken for a local one when it is in 192.168.0.0/16 or 10.0.0.0/8, is
  224.0.0.1 or 255.255.255.255, or when \<open>a\<close> is 172 and the five low bits of \<open>b\<close> are 16. The last
  test is meant for 172.16.0.0/12, where the four high bits of \<open>b\<close> are \<open>0001\<close>: of that block
  it accepts 172.16.0.0/16 only, and it accepts 172.48.0.0/16 and others outside it.
\<close>

theorem ipaddr_is_lan_octets:
  "ipaddr_is_lan (of_le32 a b c d) \<longleftrightarrow>
     a = 192 \<and> b = 168 \<or> a = 10 \<or> a = 172 \<and> b AND 0x1F = 16 \<or>
     [a, b, c, d] = [224, 0, 0, 1] \<or> [a, b, c, d] = [255, 255, 255, 255]"
proof -
  have masks: "le32 0x0000FFFF = [255, 255, 0, 0]" "le32 0x000000FF = [255, 0, 0, 0]"
    "le32 0x00001FFF = [255, 0x1F, 0, 0]" "le32 0x0000A8C0 = [192, 168, 0, 0]"
    "le32 0x0000000A = [10, 0, 0, 0]" "le32 0x000010AC = [172, 16, 0, 0]"
    "le32 0x010000E0 = [224, 0, 0, 1]" "le32 0xFFFFFFFF = [255, 255, 255, 255]"
    by code_simp+
  have mask_8: "mask 8 = (255 :: u8)" by (simp add: mask_eq_exp_minus_1)
  have full: "x AND 255 = x" for x :: u8
    using take_bit_word_beyond_length_eq [of 8 x] by (simp only: take_bit_eq_mask mask_8) simp
  show ?thesis
    by (simp add: ipaddr_is_lan_def ipaddr_is_bcast_def le32_eq_iff [of "of_le32 a b c d AND _"]
        le32_eq_iff [of "of_le32 a b c d"] le32_and le32_of_le32 masks full)
qed

text \<open>
  The test misses 172.17.0.1, which is in 172.16.0.0/12, and accepts 172.48.0.1, which is not.
\<close>

theorem ipaddr_is_lan_172:
  "\<not> ipaddr_is_lan (of_le32 172 17 0 1) \<and> ipaddr_is_lan (of_le32 172 48 0 1)"
  by code_simp

end
