(* ===== verification/StreamKey.thy ===== *)
theory StreamKey
  imports HashTable IpUtils
begin

text \<open>
  Stream keys (\<^verbatim>\<open>net/streamkey.c\<close>): the direction-independent identity of a conversation, its hash and
  its comparison. The byte arrays \<^verbatim>\<open>addrs[8]\<close> and \<^verbatim>\<open>addrs2[24]\<close>, which the code accesses as 32-bit words
  only, are the two and the six words they hold.
\<close>

subsection \<open>The code\<close>

record stream4_key_t =
  lport :: u16
  rport :: u16
  ipproto :: u8
  vflags :: u8
  key_pad :: u16
  addrs :: "u32 \<times> u32"

record stream_key_t =
  v4 :: stream4_key_t
  addrs2 :: "u32 \<times> u32 \<times> u32 \<times> u32 \<times> u32 \<times> u32"

definition IPPROTO_TCP :: u8 where "IPPROTO_TCP = 6"
definition IPPROTO_UDP :: u8 where "IPPROTO_UDP = 17"
definition VFLAG_IPV6 :: u8 where "VFLAG_IPV6 = 1"

definition net_stream_is_v6 :: "stream_key_t \<Rightarrow> bool" where
  "net_stream_is_v6 key \<longleftrightarrow> vflags (v4 key) AND VFLAG_IPV6 = VFLAG_IPV6"

definition net_stream_is_tcp :: "stream_key_t \<Rightarrow> bool" where
  "net_stream_is_tcp key \<longleftrightarrow> ipproto (v4 key) = IPPROTO_TCP"

definition net_stream4_is_tcp :: "stream4_key_t \<Rightarrow> bool" where
  "net_stream4_is_tcp key \<longleftrightarrow> ipproto key = IPPROTO_TCP"

definition SET_LEFT :: "stream_key_t \<Rightarrow> u32 \<Rightarrow> stream_key_t" where
  "SET_LEFT key ipaddr = key\<lparr>v4 := (v4 key)\<lparr>addrs := (ipaddr, snd (addrs (v4 key)))\<rparr>\<rparr>"

definition SET_RIGHT :: "stream_key_t \<Rightarrow> u32 \<Rightarrow> stream_key_t" where
  "SET_RIGHT key ipaddr = key\<lparr>v4 := (v4 key)\<lparr>addrs := (fst (addrs (v4 key)), ipaddr)\<rparr>\<rparr>"

definition net_stream4_left :: "stream_key_t \<Rightarrow> u32" where
  "net_stream4_left key = fst (addrs (v4 key))"

definition net_stream4_right :: "stream_key_t \<Rightarrow> u32" where
  "net_stream4_right key = snd (addrs (v4 key))"

text \<open>What \<^verbatim>\<open>memset(key, 0, sizeof(*key))\<close> leaves.\<close>

definition zero_key :: stream_key_t where
  "zero_key =
     \<lparr>v4 = \<lparr>lport = 0, rport = 0, ipproto = 0, vflags = 0, key_pad = 0, addrs = (0, 0)\<rparr>,
      addrs2 = (0, 0, 0, 0, 0, 0)\<rparr>"

text \<open>The key and the return value, 1 when the key is flipped against the packet.\<close>

definition net_stream_init_v4 :: "u8 \<Rightarrow> u32 \<Rightarrow> u32 \<Rightarrow> u16 \<Rightarrow> u16 \<Rightarrow> stream_key_t \<times> int" where
  "net_stream_init_v4 proto srcip dstip sport dport =
     (let key = zero_key\<lparr>v4 := (v4 zero_key)\<lparr>ipproto := proto\<rparr>\<rparr> in
      if sport > dport \<or> sport = dport \<and> srcip < dstip
      then (SET_RIGHT (SET_LEFT (key\<lparr>v4 := (v4 key)\<lparr>lport := sport, rport := dport\<rparr>\<rparr>) srcip) dstip, 0)
      else (SET_RIGHT (SET_LEFT (key\<lparr>v4 := (v4 key)\<lparr>lport := dport, rport := sport\<rparr>\<rparr>) dstip) srcip, 1))"

text \<open>The 40 bytes of a key; the structure has no padding.\<close>

definition key_bytes :: "stream_key_t \<Rightarrow> u8 list" where
  "key_bytes key =
     (case addrs2 key of (w0, w1, w2, w3, w4, w5) \<Rightarrow>
        le16 (lport (v4 key)) @ le16 (rport (v4 key)) @ [ipproto (v4 key), vflags (v4 key)] @
        le16 (key_pad (v4 key)) @ le32 (fst (addrs (v4 key))) @ le32 (snd (addrs (v4 key))) @
        le32 w0 @ le32 w1 @ le32 w2 @ le32 w3 @ le32 w4 @ le32 w5)"

definition hcmp_stream_key :: "stream_key_t \<Rightarrow> stream_key_t \<Rightarrow> int" where
  "hcmp_stream_key k1 k2 = memcmp (key_bytes k1) (key_bytes k2)"

definition hash_stream_key :: "stream_key_t \<Rightarrow> u32" where
  "hash_stream_key key =
     (let val0 = net_stream4_left key XOR net_stream4_right key;
          val1 = val0 * ucast (rport (v4 key));
          val2 = val1 XOR ucast (lport (v4 key))
      in if \<not> net_stream_is_v6 key then val2
         else case addrs2 key of (w0, w1, w2, w3, w4, w5) \<Rightarrow>
           val2 XOR w0 XOR w1 XOR w2 XOR w3 XOR w4)"

definition get_proto_name :: "u8 \<Rightarrow> string" where
  "get_proto_name p =
     (if p = IPPROTO_TCP then ''TCP'' else if p = IPPROTO_UDP then ''UDP'' else ''?'')"

text \<open>The name that is printed into \<^verbatim>\<open>dest\<close>; the two addresses go through local buffers of 16 bytes.\<close>

definition streamkey_to_s :: "stream_key_t \<Rightarrow> string c_result" where
  "streamkey_to_s key =
     bind_r (ip2string 16 (net_stream4_left key)) (\<lambda>leftip.
     bind_r (ip2string 16 (net_stream4_right key)) (\<lambda>rightip.
       Inr (get_proto_name (ipproto (v4 key)) @ ''_'' @ leftip @ ''_'' @ dec (unat (lport (v4 key))) @
            ''_'' @ rightip @ ''_'' @ dec (unat (rport (v4 key))))))"

subsection \<open>Comparison and hash\<close>

lemma key_eq_iff:
  "k1 = k2 \<longleftrightarrow>
     lport (v4 k1) = lport (v4 k2) \<and> rport (v4 k1) = rport (v4 k2) \<and> ipproto (v4 k1) = ipproto (v4 k2) \<and>
     vflags (v4 k1) = vflags (v4 k2) \<and> key_pad (v4 k1) = key_pad (v4 k2) \<and>
     addrs (v4 k1) = addrs (v4 k2) \<and> addrs2 k1 = addrs2 k2" for k1 k2 :: stream_key_t
  by (cases k1; cases k2; cases "v4 k1"; cases "v4 k2") auto

lemma length_key_bytes [simp]: "length (key_bytes k) = 40"
  by (simp add: key_bytes_def split_beta)

lemma key_bytes_inject: "key_bytes k1 = key_bytes k2 \<longleftrightarrow> k1 = k2"
  by (auto simp: key_bytes_def key_eq_iff split_beta prod_eq_iff)

lemma hcmp_zero: "hcmp_stream_key k1 k2 = 0 \<longleftrightarrow> k2 = k1"
  by (auto simp: hcmp_stream_key_def memcmp_zero key_bytes_inject)

text \<open>
  The contract of the stream table: keys behind pointers, read from the memory \<open>mem\<close>, compare equal
  when the keys are equal.
\<close>

interpretation stream_keys:
  hashed_keys "\<lambda>p q. hcmp_stream_key (mem p) (mem q)" "\<lambda>p. hash_stream_key (mem p)" mem hash_stream_key
  for mem :: "'p \<Rightarrow> stream_key_t"
  by unfold_locales (simp_all add: hcmp_zero)

subsection \<open>Building keys\<close>

lemmas init_defs = net_stream_init_v4_def Let_def zero_key_def SET_LEFT_def SET_RIGHT_def

lemma init_simps [simp]:
  "ipproto (v4 (fst (net_stream_init_v4 p a b s d))) = p"
  "vflags (v4 (fst (net_stream_init_v4 p a b s d))) = 0"
  "key_pad (v4 (fst (net_stream_init_v4 p a b s d))) = 0"
  "addrs2 (fst (net_stream_init_v4 p a b s d)) = (0, 0, 0, 0, 0, 0)"
  "lport (v4 (fst (net_stream_init_v4 p a b s d))) = max s d"
  "rport (v4 (fst (net_stream_init_v4 p a b s d))) = min s d"
  by (auto simp: init_defs max_def min_def)

lemma init_addrs:
  "addrs (v4 (fst (net_stream_init_v4 p a b s d))) =
     (if s > d \<or> s = d \<and> a < b then (a, b) else (b, a))"
  by (simp add: init_defs)

lemma init_flip: "snd (net_stream_init_v4 p a b s d) = (if s > d \<or> s = d \<and> a < b then 0 else 1)"
  by (simp add: net_stream_init_v4_def Let_def)

text \<open>
  The two directions of a conversation have the same key. Unless both endpoints are the same, the
  direction flags of the two are opposite.
\<close>

theorem stream_key_symmetric:
  "fst (net_stream_init_v4 p dst src dport sport) = fst (net_stream_init_v4 p src dst sport dport) \<and>
   snd (net_stream_init_v4 p dst src dport sport) =
     (if (src, sport) = (dst, dport) then snd (net_stream_init_v4 p src dst sport dport)
      else 1 - snd (net_stream_init_v4 p src dst sport dport))"
  by (auto simp: key_eq_iff init_addrs init_flip max.commute min.commute)

text \<open>
  C19: Two packets get the same key exactly when they have the same protocol and the same unordered
  pair of endpoints.
\<close>

theorem stream_key_identity:
  "fst (net_stream_init_v4 p a b s d) = fst (net_stream_init_v4 p' a' b' s' d') \<longleftrightarrow>
     p = p' \<and> ((a, s) = (a', s') \<and> (b, d) = (b', d') \<or> (a, s) = (b', d') \<and> (b, d) = (a', s'))"
  by (auto simp: key_eq_iff init_addrs max_def min_def split: if_splits)

text \<open>
  The direction flag tells which side of the key is the source: not flipped, the left address
  and port are the source's; flipped, they are the destination's.
\<close>

theorem stream_key_sides:
  "let (key, flipped) = net_stream_init_v4 p src dst sport dport in
   (flipped = 0 \<or> flipped = 1) \<and>
   (net_stream4_left key, lport (v4 key)) = (if flipped = 0 then (src, sport) else (dst, dport)) \<and>
   (net_stream4_right key, rport (v4 key)) = (if flipped = 0 then (dst, dport) else (src, sport)) \<and>
   \<not> net_stream_is_v6 key"
  by (auto simp: init_defs net_stream4_left_def
      net_stream4_right_def net_stream_is_v6_def VFLAG_IPV6_def)

text \<open>
  A key rebuilt from its own parts is the same key: what \<^verbatim>\<open>stream_init_key_from_stream\<close> relies on when
  it looks up the key of a stream that expires.
\<close>

lemma rebuild_key:
  assumes "key = fst (net_stream_init_v4 p a b s d)"
  shows "fst (net_stream_init_v4 (ipproto (v4 key)) (net_stream4_left key) (net_stream4_right key)
    (lport (v4 key)) (rport (v4 key))) = key"
  unfolding assms
  by (auto simp: key_eq_iff init_addrs net_stream4_left_def net_stream4_right_def max_def min_def)

text \<open>
  The comparison function given to the hash table is zero exactly for equal keys, and its hash
  function gives the two directions of a conversation the same bucket.
\<close>

theorem stream_key_hash_contract:
  "(hcmp_stream_key k1 k2 = 0 \<longleftrightarrow> k1 = k2) \<and>
   hash_stream_key (fst (net_stream_init_v4 p a b s d)) = hash_stream_key (fst (net_stream_init_v4 p b a d s))"
proof
  show "hcmp_stream_key k1 k2 = 0 \<longleftrightarrow> k1 = k2" by (auto simp: hcmp_zero)
  have "fst (net_stream_init_v4 p a b s d) = fst (net_stream_init_v4 p b a d s)"
    by (auto simp: key_eq_iff init_addrs max.commute min.commute)
  then show "hash_stream_key (fst (net_stream_init_v4 p a b s d)) = hash_stream_key (fst (net_stream_init_v4 p b a d s))"
    by simp
qed


end
