(* ===== verification/Parse.thy ===== *)
theory Parse
  imports StreamKey Tval
begin

text \<open>
  Packet parsing (\<^verbatim>\<open>net/parse.c\<close>) and the accessors of the parsed packet (\<^verbatim>\<open>net/pktinfo.c\<close>). The packet
  buffer is the list of its bytes, a pointer into it is an offset, and a read outside it is a fault.
  Multi-byte fields are read little-endian and turned round by \<^verbatim>\<open>ntohs\<close>, as on the machine. The
  captured length is that of the capture header and may be smaller than the buffer.
\<close>

subsection \<open>The code\<close>

definition rd8 :: "u8 list \<Rightarrow> nat \<Rightarrow> u8 c_result" where
  "rd8 buf i = (if i < length buf then Inr (buf ! i) else Inl OutOfBounds)"

definition rd16 :: "u8 list \<Rightarrow> nat \<Rightarrow> u16 c_result" where
  "rd16 buf i =
     (if i + 2 \<le> length buf then Inr (of_le16 (buf ! i) (buf ! (i + 1))) else Inl OutOfBounds)"

definition rd32 :: "u8 list \<Rightarrow> nat \<Rightarrow> u32 c_result" where
  "rd32 buf i =
     (if i + 4 \<le> length buf
      then Inr (of_le32 (buf ! i) (buf ! (i + 1)) (buf ! (i + 2)) (buf ! (i + 3)))
      else Inl OutOfBounds)"

record pcap_pkthdr32_t =
  hdr_ts :: tval_t
  caplen :: u32
  pkt_len :: u32

text \<open>
  The pointers of a parsed packet, null as \<^term>\<open>None\<close>. The two unions hold one pointer each: \<open>ip4\<close> for
  the network header and \<open>l4\<close> for the transport header.
\<close>

record pktinfo_t =
  ether :: "nat option"
  ip4 :: "nat option"
  l4 :: "nat option"
  payload_position :: int
  payload_len :: int
  isv6 :: u8
  istcp :: u8
  tcpflags :: u8
  isfin :: u8

definition PARSE_ERR_OK :: int where "PARSE_ERR_OK = 0"
definition PARSE_ERR_INCOMPLETE :: int where "PARSE_ERR_INCOMPLETE = - 1"
definition PARSE_ERR_UNSUPPORTED :: int where "PARSE_ERR_UNSUPPORTED = - 2"

definition ETHERMTU :: u16 where "ETHERMTU = 1500"
definition ETHER_HDRLEN :: nat where "ETHER_HDRLEN = 14"
definition ETHERTYPE_IP :: u16 where "ETHERTYPE_IP = 0x0800"
definition ETHERTYPE_VLAN :: u16 where "ETHERTYPE_VLAN = 0x8100"
definition ETHERTYPE_VLAN2 :: u16 where "ETHERTYPE_VLAN2 = 0x88a8"
definition TH_FIN :: u8 where "TH_FIN = 0x01"
definition TH_RST :: u8 where "TH_RST = 0x04"

lemmas net_consts = PARSE_ERR_OK_def PARSE_ERR_INCOMPLETE_def PARSE_ERR_UNSUPPORTED_def ETHERMTU_def
  ETHER_HDRLEN_def ETHERTYPE_IP_def ETHERTYPE_VLAN_def ETHERTYPE_VLAN2_def TH_FIN_def TH_RST_def
  IPPROTO_TCP_def IPPROTO_UDP_def

text \<open>A pointer that is used; the null pointer is a fault.\<close>

definition deref :: "nat option \<Rightarrow> nat c_result" where
  "deref p = (case p of None \<Rightarrow> Inl NullDeref | Some i \<Rightarrow> Inr i)"

definition pkt_init :: pktinfo_t where
  "pkt_init = \<lparr>ether = None, ip4 = None, l4 = None, payload_position = 0, payload_len = 0,
               isv6 = 0, istcp = 0, tcpflags = 0, isfin = 0\<rparr>"

text \<open>The type behind the VLAN tags and the number of bytes the tags take.\<close>

definition ether_skip_vlan :: "u8 list \<Rightarrow> nat \<Rightarrow> (u16 \<times> nat) c_result" where
  "ether_skip_vlan buf ep =
     bind_r (rd16 buf (ep + 12)) (\<lambda>t.
       let ethertype = ntohs t in
       if ethertype = ETHERTYPE_VLAN2 then bind_r (rd16 buf (14 + 8 - 2)) (\<lambda>t'. Inr (ntohs t', 8))
       else if ethertype = ETHERTYPE_VLAN then bind_r (rd16 buf (14 + 4 - 2)) (\<lambda>t'. Inr (ntohs t', 4))
       else Inr (ethertype, 0))"

definition IP_HL :: "u8 \<Rightarrow> nat" where
  "IP_HL vhl = unat (vhl AND 0x0f)"

definition ip_get_hlen :: "u8 list \<Rightarrow> nat \<Rightarrow> nat c_result" where
  "ip_get_hlen buf ip = bind_r (rd8 buf ip) (\<lambda>vhl. Inr (IP_HL vhl * 4))"

definition udp4_parse :: "u8 list \<Rightarrow> nat \<Rightarrow> pktinfo_t \<Rightarrow> int \<Rightarrow> (int \<times> pktinfo_t) c_result" where
  "udp4_parse buf pos pktinfo remaining = Inr (0, pktinfo\<lparr>l4 := Some pos\<rparr>)"

definition tcp4_parse :: "u8 list \<Rightarrow> nat \<Rightarrow> pktinfo_t \<Rightarrow> int \<Rightarrow> (int \<times> pktinfo_t) c_result" where
  "tcp4_parse buf pos pktinfo remaining =
     bind_r (rd8 buf (pos + 13)) (\<lambda>flags.
       Inr (0, pktinfo\<lparr>l4 := Some pos, istcp := 1, tcpflags := flags,
                       isfin := (if flags AND (TH_FIN OR TH_RST) \<noteq> 0 then 1 else 0)\<rparr>))"

text \<open>
  The comparison of \<^verbatim>\<open>remaining\<close> with \<^verbatim>\<open>sizeof\<close> is an unsigned one: a negative \<^verbatim>\<open>remaining\<close> passes it. The
  comparison with \<^verbatim>\<open>hlen\<close> is signed after the first conjunct, which is unsigned.
\<close>

definition ip_parse :: "u8 list \<Rightarrow> nat \<Rightarrow> pktinfo_t \<Rightarrow> int \<Rightarrow> (int \<times> pktinfo_t) c_result" where
  "ip_parse buf pos pktinfo remaining =
     (if 0 \<le> remaining \<and> remaining < 20 then Inr (PARSE_ERR_INCOMPLETE, pktinfo)
      else
        let pktinfo1 = pktinfo\<lparr>ip4 := Some pos\<rparr> in
        bind_r (ip_get_hlen buf pos) (\<lambda>hlen.
        bind_r (rd16 buf (pos + 2)) (\<lambda>ip_len.
        let len = sint (ntohs ip_len) in
        if 20 < hlen \<and> remaining < int hlen then Inr (PARSE_ERR_INCOMPLETE, pktinfo1)
        else
          bind_r (rd16 buf (pos + 6)) (\<lambda>ip_off.
          if ntohs ip_off AND 0x1fff = 0 then
            bind_r (rd8 buf (pos + 9)) (\<lambda>ip_p.
              if ip_p = IPPROTO_TCP then tcp4_parse buf (pos + hlen) pktinfo1 (min remaining len - int hlen)
              else if ip_p = IPPROTO_UDP then udp4_parse buf (pos + hlen) pktinfo1 (min remaining len - int hlen)
              else Inr (PARSE_ERR_UNSUPPORTED, pktinfo1))
          else Inr (PARSE_ERR_UNSUPPORTED, pktinfo1)))))"

text \<open>
  \<^verbatim>\<open>caplen - ETHER_HDRLEN - offset\<close> is computed without sign and passed as an \<^verbatim>\<open>int\<close>. The structure
  \<open>pktinfo\<close> that the caller passes in is overwritten unless the frame is too short.
\<close>

definition net_parse :: "pcap_pkthdr32_t \<Rightarrow> u8 list \<Rightarrow> pktinfo_t \<Rightarrow> (int \<times> pktinfo_t) c_result" where
  "net_parse pcaphdr buf pktinfo =
     (if caplen pcaphdr < of_nat ETHER_HDRLEN then Inr (PARSE_ERR_INCOMPLETE, pktinfo)
      else
        let pktinfo1 = pkt_init\<lparr>ether := Some 0\<rparr> in
        bind_r (ether_skip_vlan buf 0) (\<lambda>(ether_type, offset).
          if ether_type \<le> ETHERMTU then Inr (PARSE_ERR_UNSUPPORTED, pktinfo1)
          else if ether_type = ETHERTYPE_IP then
            ip_parse buf (ETHER_HDRLEN + offset) pktinfo1
              (sint (caplen pcaphdr - of_nat ETHER_HDRLEN - of_nat offset))
          else Inr (PARSE_ERR_UNSUPPORTED, pktinfo1)))"

text \<open>The VLAN tags; the result is an \<^verbatim>\<open>int16_t\<close>.\<close>

definition pkt_get_vlan :: "u8 list \<Rightarrow> pktinfo_t \<Rightarrow> int c_result" where
  "pkt_get_vlan buf pktinfo =
     bind_r (deref (ether pktinfo)) (\<lambda>ep.
     bind_r (rd16 buf (ep + 12)) (\<lambda>t.
       let ethertype = ntohs t in
       if ethertype = ETHERTYPE_VLAN then bind_r (rd16 buf (ep + 14)) (\<lambda>v. Inr (sint (ntohs v)))
       else if ethertype = ETHERTYPE_VLAN2 then bind_r (rd16 buf (ep + 14 + 4)) (\<lambda>v. Inr (sint (ntohs v)))
       else Inr (- 1)))"

definition pkt_get_vlan2 :: "u8 list \<Rightarrow> pktinfo_t \<Rightarrow> int c_result" where
  "pkt_get_vlan2 buf pktinfo =
     bind_r (deref (ether pktinfo)) (\<lambda>ep.
     bind_r (rd16 buf (ep + 12)) (\<lambda>t.
       if ntohs t = ETHERTYPE_VLAN2 then bind_r (rd16 buf (ep + 14)) (\<lambda>v. Inr (sint (ntohs v)))
       else Inr (- 1)))"

definition pkt_is_v6 :: "pktinfo_t \<Rightarrow> bool" where
  "pkt_is_v6 pktinfo \<longleftrightarrow> isv6 pktinfo \<noteq> 0"

definition pkt_tcp_flags :: "pktinfo_t \<Rightarrow> u8" where
  "pkt_tcp_flags pkt = tcpflags pkt"

text \<open>The ports are the first two fields of both transport headers.\<close>

definition pkt_get_ports_v4 :: "u8 list \<Rightarrow> pktinfo_t \<Rightarrow> u8 \<Rightarrow> (u16 \<times> u16) c_result" where
  "pkt_get_ports_v4 buf pkt proto =
     (if proto = IPPROTO_TCP then
        bind_r (deref (l4 pkt)) (\<lambda>tcp.
        bind_r (rd16 buf tcp) (\<lambda>th_sport.
        bind_r (rd16 buf (tcp + 2)) (\<lambda>th_dport.
          Inr (ntohs th_sport, ntohs th_dport))))
      else
        bind_r (deref (l4 pkt)) (\<lambda>udp.
        bind_r (rd16 buf udp) (\<lambda>uh_sport.
        bind_r (rd16 buf (udp + 2)) (\<lambda>uh_dport.
          Inr (ntohs uh_sport, ntohs uh_dport)))))"

definition pkt_init_key :: "u8 list \<Rightarrow> pktinfo_t \<Rightarrow> (stream_key_t \<times> int) c_result" where
  "pkt_init_key buf pkt =
     (if pkt_is_v6 pkt then Inr (zero_key, 0)
      else
        bind_r (deref (ip4 pkt)) (\<lambda>ip.
        bind_r (rd8 buf (ip + 9)) (\<lambda>proto.
        bind_r (pkt_get_ports_v4 buf pkt proto) (\<lambda>(sport, dport).
        bind_r (rd32 buf (ip + 12)) (\<lambda>ip_src.
        bind_r (rd32 buf (ip + 16)) (\<lambda>ip_dst.
          Inr (net_stream_init_v4 proto ip_src ip_dst sport dport)))))))"

definition pkt_to_s :: "u8 list \<Rightarrow> pktinfo_t \<Rightarrow> string c_result" where
  "pkt_to_s buf pkt =
     (if pkt_is_v6 pkt then Inr ''IPV6 STREAM HERE''
      else
        bind_r (deref (ip4 pkt)) (\<lambda>ip.
        bind_r (rd8 buf (ip + 9)) (\<lambda>proto.
        bind_r (pkt_get_ports_v4 buf pkt proto) (\<lambda>(sport, dport).
        bind_r (rd32 buf (ip + 12)) (\<lambda>ip_src.
        bind_r (ip2string 16 ip_src) (\<lambda>srcip.
        bind_r (rd32 buf (ip + 16)) (\<lambda>ip_dst.
        bind_r (ip2string 16 ip_dst) (\<lambda>dstip.
          Inr (get_proto_name proto @ ''_'' @ srcip @ ''_'' @ dec (unat sport) @ ''_'' @
               dstip @ ''_'' @ dec (unat dport))))))))))"

text \<open>The six bytes behind the pointers that \<^verbatim>\<open>pkt_src_mac\<close> and \<^verbatim>\<open>pkt_dst_mac\<close> return.\<close>

definition mac_at :: "u8 list \<Rightarrow> nat \<Rightarrow> u8 list c_result" where
  "mac_at buf i = (if i + 6 \<le> length buf then Inr (take 6 (drop i buf)) else Inl OutOfBounds)"

definition pkt_src_mac :: "u8 list \<Rightarrow> pktinfo_t \<Rightarrow> u8 list c_result" where
  "pkt_src_mac buf pktinfo = bind_r (deref (ether pktinfo)) (\<lambda>ep. mac_at buf (ep + 6))"

definition pkt_dst_mac :: "u8 list \<Rightarrow> pktinfo_t \<Rightarrow> u8 list c_result" where
  "pkt_dst_mac buf pktinfo = bind_r (deref (ether pktinfo)) (\<lambda>ep. mac_at buf ep)"

subsection \<open>Reads\<close>

lemma rd_append [simp]:
  "rd8 (xs @ ys) (length xs + i) = rd8 ys i"
  "rd16 (xs @ ys) (length xs + i) = rd16 ys i"
  "rd32 (xs @ ys) (length xs + i) = rd32 ys i"
  by (simp_all add: rd8_def rd16_def rd32_def nth_append add.assoc)

lemma rd_fits:
  "i < length buf \<Longrightarrow> \<exists>v. rd8 buf i = Inr v"
  "i + 2 \<le> length buf \<Longrightarrow> \<exists>v. rd16 buf i = Inr v"
  "i + 4 \<le> length buf \<Longrightarrow> \<exists>v. rd32 buf i = Inr v"
  "i + 6 \<le> length buf \<Longrightarrow> \<exists>v. mac_at buf i = Inr v"
  by (simp_all add: rd8_def rd16_def rd32_def mac_at_def)

lemma IP_HL_le: "IP_HL vhl \<le> 15"
proof -
  have "vhl AND 0x0f = take_bit 4 vhl" by (simp add: take_bit_eq_mask mask_eq_exp_minus_1)
  then have "IP_HL vhl = take_bit 4 (unat vhl)" by (simp add: IP_HL_def unsigned_take_bit_eq)
  also have "\<dots> < 16" using take_bit_nat_less_exp [of 4 "unat vhl"] by simp
  finally show ?thesis by simp
qed

subsection \<open>Frames\<close>

text \<open>The reference: how a frame is laid out, with its fields in network byte order.\<close>

definition be16 :: "u16 \<Rightarrow> u8 list" where
  "be16 w = [ucast (drop_bit 8 w), ucast w]"

datatype vlan_tags = Untagged | Tagged u16 | DoubleTagged u16 u16 u16

primrec eth_tail :: "vlan_tags \<Rightarrow> u8 list" where
  "eth_tail Untagged = be16 ETHERTYPE_IP"
| "eth_tail (Tagged tci) = be16 ETHERTYPE_VLAN @ be16 tci @ be16 ETHERTYPE_IP"
| "eth_tail (DoubleTagged outer tpid inner) =
     be16 ETHERTYPE_VLAN2 @ be16 outer @ be16 tpid @ be16 inner @ be16 ETHERTYPE_IP"

definition eth_header :: "u8 list \<Rightarrow> u8 list \<Rightarrow> vlan_tags \<Rightarrow> u8 list" where
  "eth_header dhost shost tags = dhost @ shost @ eth_tail tags"

primrec tag_len :: "vlan_tags \<Rightarrow> nat" where
  "tag_len Untagged = 0" | "tag_len (Tagged _) = 4" | "tag_len (DoubleTagged _ _ _) = 8"

primrec vlan_of :: "vlan_tags \<Rightarrow> int" where
  "vlan_of Untagged = - 1" | "vlan_of (Tagged tci) = sint tci" | "vlan_of (DoubleTagged _ _ inner) = sint inner"

record ip_fields =
  f_vhl :: u8
  f_tos :: u8
  f_len :: u16
  f_id :: u16
  f_off :: u16
  f_ttl :: u8
  f_proto :: u8
  f_sum :: u16
  f_src :: u32
  f_dst :: u32

definition ip_header :: "ip_fields \<Rightarrow> u8 list" where
  "ip_header f =
     [f_vhl f, f_tos f] @ be16 (f_len f) @ be16 (f_id f) @ be16 (f_off f) @ [f_ttl f, f_proto f] @
     be16 (f_sum f) @ le32 (f_src f) @ le32 (f_dst f)"

text \<open>A frame: Ethernet header, IP header with options, the two ports and what follows them.\<close>

definition frame :: "u8 list \<Rightarrow> u8 list \<Rightarrow> vlan_tags \<Rightarrow> ip_fields \<Rightarrow> u8 list \<Rightarrow> u16 \<Rightarrow> u16 \<Rightarrow> u8 list \<Rightarrow> u8 list" where
  "frame dhost shost tags f opts sport dport rest =
     eth_header dhost shost tags @ ip_header f @ opts @ be16 sport @ be16 dport @ rest"

lemma ntohs_be16 [simp]: "ntohs (of_le16 (ucast (drop_bit 8 w)) (ucast w)) = w"
  by (simp add: ntohs_of_le16 of_le16_le16)

lemma rd16_be16 [simp]: "rd16 (be16 w @ xs) 0 = Inr (ntohs w)"
  by (simp add: rd16_def be16_def) (metis ntohs_be16 ntohs_ntohs)

lemma length_hdr [simp]:
  "length (be16 w) = 2" "length (ip_header f) = 20" "length (eth_tail tags) = 2 + tag_len tags"
  by (simp_all add: be16_def ip_header_def) (cases tags; simp add: be16_def)

lemma ip_reads:
  "rd8 (ip_header f @ xs) 0 = Inr (f_vhl f)"
  "rd16 (ip_header f @ xs) 2 = Inr (ntohs (f_len f))"
  "rd16 (ip_header f @ xs) 6 = Inr (ntohs (f_off f))"
  "rd8 (ip_header f @ xs) 9 = Inr (f_proto f)"
  "rd32 (ip_header f @ xs) 12 = Inr (f_src f)"
  "rd32 (ip_header f @ xs) 16 = Inr (f_dst f)"
proof -
  have be: "of_le16 (ucast (drop_bit 8 w)) (ucast w) = ntohs w" for w
    by (metis ntohs_be16 ntohs_ntohs)
  show "rd8 (ip_header f @ xs) 0 = Inr (f_vhl f)" "rd16 (ip_header f @ xs) 2 = Inr (ntohs (f_len f))"
    "rd16 (ip_header f @ xs) 6 = Inr (ntohs (f_off f))" "rd8 (ip_header f @ xs) 9 = Inr (f_proto f)"
    "rd32 (ip_header f @ xs) 12 = Inr (f_src f)" "rd32 (ip_header f @ xs) 16 = Inr (f_dst f)"
    by (simp_all add: rd8_def rd16_def rd32_def ip_header_def be16_def le32_def be of_le32_le32)
qed

lemma tail_reads:
  "rd16 (be16 a @ be16 b @ be16 c @ xs) 4 = Inr (ntohs c)"
  "rd16 (be16 a @ be16 b @ be16 c @ be16 d @ be16 e @ xs) 8 = Inr (ntohs e)"
proof -
  have step: "rd16 (be16 a @ ys) (k + 2) = rd16 ys k" for a ys k
    using rd_append(2) [of "be16 a" ys k] by (simp add: add.commute)
  show "rd16 (be16 a @ be16 b @ be16 c @ xs) 4 = Inr (ntohs c)"
    using step [of a "be16 b @ be16 c @ xs" 2] step [of b "be16 c @ xs" 0]
    by (simp del: add_2_eq_Suc add_2_eq_Suc')
  show "rd16 (be16 a @ be16 b @ be16 c @ be16 d @ be16 e @ xs) 8 = Inr (ntohs e)"
    using step [of a "be16 b @ be16 c @ be16 d @ be16 e @ xs" 6] step [of b "be16 c @ be16 d @ be16 e @ xs" 4]
      step [of c "be16 d @ be16 e @ xs" 2] step [of d "be16 e @ xs" 0]
    by (simp del: add_2_eq_Suc add_2_eq_Suc')
qed

lemma eth_reads:
  assumes "length dhost = 6" "length shost = 6"
  shows "rd16 (eth_header dhost shost tags @ xs) 12 = rd16 (eth_tail tags @ xs) 0"
    "rd16 (eth_header dhost shost tags @ xs) 16 = rd16 (eth_tail tags @ xs) 4"
    "rd16 (eth_header dhost shost tags @ xs) 20 = rd16 (eth_tail tags @ xs) 8"
  using rd_append(2) [of "dhost @ shost" "eth_tail tags @ xs" 0] rd_append(2) [of "dhost @ shost" "eth_tail tags @ xs" 4]
    rd_append(2) [of "dhost @ shost" "eth_tail tags @ xs" 8] assms
  by (simp_all add: eth_header_def)

lemma skip_vlan_frame:
  assumes "length dhost = 6" "length shost = 6"
  shows "ether_skip_vlan (eth_header dhost shost tags @ xs) 0 = Inr (ETHERTYPE_IP, tag_len tags)"
  by (cases tags) (simp_all add: ether_skip_vlan_def eth_reads [OF assms] tail_reads net_consts Let_def)

lemma remaining_eq:
  assumes "14 + tag_len tags \<le> unat (caplen hdr)" "unat (caplen hdr) < 2 ^ 31"
  shows "sint (caplen hdr - of_nat ETHER_HDRLEN - of_nat (tag_len tags)) = int (unat (caplen hdr)) - 14 - int (tag_len tags)"
proof -
  have t: "unat (of_nat (tag_len tags) :: u32) = tag_len tags" by (cases tags) simp_all
  have "unat (caplen hdr - 14) = unat (caplen hdr) - 14" using assms by (simp add: unat_minus)
  then have u: "unat (caplen hdr - 14 - of_nat (tag_len tags)) = unat (caplen hdr) - 14 - tag_len tags"
    using assms t by (subst unat_minus) simp_all
  moreover have "unat (caplen hdr) - 14 - tag_len tags < 2 ^ 31" using assms by linarith
  ultimately have "sint (caplen hdr - 14 - of_nat (tag_len tags)) = int (unat (caplen hdr) - 14 - tag_len tags)"
    by (simp only: sint32 if_True)
  also have "\<dots> = int (unat (caplen hdr)) - 14 - int (tag_len tags)" using assms by linarith
  finally show ?thesis by (simp only: ETHER_HDRLEN_def of_nat_numeral)
qed

text \<open>What the parser makes of a frame.\<close>

definition parsed :: "vlan_tags \<Rightarrow> ip_fields \<Rightarrow> u8 list \<Rightarrow> u8 list \<Rightarrow> pktinfo_t" where
  "parsed tags f opts rest =
     (let pkt = pkt_init\<lparr>ether := Some 0, ip4 := Some (14 + tag_len tags),
                         l4 := Some (14 + tag_len tags + 20 + length opts)\<rparr> in
      if f_proto f = IPPROTO_TCP
      then pkt\<lparr>istcp := 1, tcpflags := rest ! 9,
               isfin := (if rest ! 9 AND (TH_FIN OR TH_RST) \<noteq> 0 then 1 else 0)\<rparr>
      else pkt)"

lemma ip_parse_frame:
  assumes hl: "4 * IP_HL (f_vhl f) = 20 + length opts" and off: "f_off f AND 0x1fff = 0"
    and rem: "remaining < 0 \<and> opts = [] \<or> 20 + int (length opts) \<le> remaining"
    and len: "length eth = pos"
  shows "ip_parse (eth @ ip_header f @ opts @ xs) pos pkt remaining =
    (let pkt1 = pkt\<lparr>ip4 := Some pos\<rparr> in
     if f_proto f = IPPROTO_TCP then
       tcp4_parse (eth @ ip_header f @ opts @ xs) (pos + 20 + length opts) pkt1
         (min remaining (sint (f_len f)) - 20 - int (length opts))
     else if f_proto f = IPPROTO_UDP then Inr (0, pkt1\<lparr>l4 := Some (pos + 20 + length opts)\<rparr>)
     else Inr (PARSE_ERR_UNSUPPORTED, pkt1))"
proof -
  let ?b = "eth @ ip_header f @ opts @ xs"
  have rd: "rd8 ?b (pos + k) = rd8 (ip_header f @ opts @ xs) k" "rd16 ?b (pos + k) = rd16 (ip_header f @ opts @ xs) k" for k
    using rd_append [of eth "ip_header f @ opts @ xs" k] len by simp_all
  have hlen: "ip_get_hlen ?b pos = Inr (20 + length opts)"
    using rd(1) [of 0] hl by (simp add: ip_get_hlen_def ip_reads mult.commute)
  note reads = rd(2) [of 2, unfolded ip_reads] rd(2) [of 6, unfolded ip_reads] rd(1) [of 9, unfolded ip_reads]
  have c1: "(0 \<le> remaining \<and> remaining < 20) = False"
    and c2: "(20 < 20 + length opts \<and> remaining < int (20 + length opts)) = False"
    using rem by auto
  show ?thesis
    unfolding ip_parse_def Let_def hlen bind_r_simps c1 c2 if_False reads ntohs_ntohs off
    by (simp add: udp4_parse_def diff_diff_eq add.assoc)
qed

lemma tcp_parse_frame:
  assumes "length eth = pos" "10 \<le> length rest"
  shows "tcp4_parse (eth @ ip_header f @ opts @ be16 sport @ be16 dport @ rest) (pos + 20 + length opts) pkt r =
    Inr (0, pkt\<lparr>l4 := Some (pos + 20 + length opts), istcp := 1, tcpflags := rest ! 9,
      isfin := (if rest ! 9 AND (TH_FIN OR TH_RST) \<noteq> 0 then 1 else 0)\<rparr>)"
proof -
  let ?pre = "eth @ ip_header f @ opts @ be16 sport @ be16 dport"
  have "rd8 (?pre @ rest) (length ?pre + 9) = Inr (rest ! 9)"
    unfolding rd_append using assms by (simp add: rd8_def)
  moreover have "length ?pre + 9 = pos + 20 + length opts + 13" using assms by simp
  ultimately have "rd8 (?pre @ rest) (pos + 20 + length opts + 13) = Inr (rest ! 9)" by metis
  then show ?thesis by (simp add: tcp4_parse_def)
qed

lemma parse_frame:
  assumes macs: "length dhost = 6" "length shost = 6"
    and hl: "4 * IP_HL (f_vhl f) = 20 + length opts" and off: "f_off f AND 0x1fff = 0"
    and proto: "f_proto f = IPPROTO_TCP \<and> 10 \<le> length rest \<or> f_proto f = IPPROTO_UDP"
    and cap: "14 \<le> unat (caplen hdr)" "unat (caplen hdr) < 2 ^ 31"
    and rem: "14 + tag_len tags + 20 + length opts \<le> unat (caplen hdr) \<or>
      unat (caplen hdr) < 14 + tag_len tags \<and> opts = []"
  shows "net_parse hdr (frame dhost shost tags f opts sport dport rest) pkt = Inr (PARSE_ERR_OK, parsed tags f opts rest)"
proof -
  let ?eth = "eth_header dhost shost tags"
  let ?b = "frame dhost shost tags f opts sport dport rest"
  let ?r = "sint (caplen hdr - of_nat ETHER_HDRLEN - of_nat (tag_len tags))"
  have len: "length ?eth = 14 + tag_len tags" using macs by (simp add: eth_header_def)
  have skip: "ether_skip_vlan ?b 0 = Inr (ETHERTYPE_IP, tag_len tags)"
    using skip_vlan_frame [OF macs] by (simp add: frame_def)
  have "?r < 0 \<and> opts = [] \<or> 20 + int (length opts) \<le> ?r"
  proof (cases "14 + tag_len tags + 20 + length opts \<le> unat (caplen hdr)")
    case True
    then have "?r = int (unat (caplen hdr)) - 14 - int (tag_len tags)"
      using cap by (intro remaining_eq) simp_all
    with True show ?thesis by linarith
  next
    case False
    with rem have short: "unat (caplen hdr) < 14 + tag_len tags" "opts = []" by auto
    have t: "unat (of_nat (tag_len tags) :: u32) = tag_len tags" "tag_len tags \<le> 8" by (cases tags; simp)+
    have "unat (caplen hdr - 14) = unat (caplen hdr) - 14" using cap by (simp add: unat_minus)
    then have "unat (caplen hdr - 14 - of_nat (tag_len tags)) = unat (caplen hdr) - 14 + 2 ^ 32 - tag_len tags"
      using short t cap by (simp add: unat_sub_if' t)
    then have "2 ^ 31 \<le> unat (caplen hdr - 14 - of_nat (tag_len tags))" using t by simp
    then have "?r < 0" using sint32_neg by (simp add: ETHER_HDRLEN_def)
    with short show ?thesis by simp
  qed
  note ip = ip_parse_frame [OF hl off this len, of "be16 sport @ be16 dport @ rest" "pkt_init\<lparr>ether := Some 0\<rparr>"]
  have cap14: "\<not> caplen hdr < 14" using cap by (simp add: word_nat)
  have len': "length ?eth = ETHER_HDRLEN + tag_len tags" using len by (simp add: ETHER_HDRLEN_def)
  have types: "\<not> ETHERTYPE_IP \<le> ETHERMTU" by (simp add: net_consts)
  have "net_parse hdr ?b pkt = ip_parse ?b (14 + tag_len tags) (pkt_init\<lparr>ether := Some 0\<rparr>) ?r"
    using cap14 types by (simp add: net_parse_def skip ETHER_HDRLEN_def)
  also have "\<dots> = Inr (PARSE_ERR_OK, parsed tags f opts rest)"
    using ip proto tcp_parse_frame [OF len, of rest f opts sport dport]
    by (auto simp: frame_def parsed_def PARSE_ERR_OK_def IPPROTO_TCP_def IPPROTO_UDP_def Let_def)
  finally show ?thesis .
qed

lemma key_of_frame:
  assumes macs: "length dhost = 6" "length shost = 6"
  shows "pkt_init_key (frame dhost shost tags f opts sport dport rest) (parsed tags f opts rest) =
    Inr (net_stream_init_v4 (f_proto f) (f_src f) (f_dst f) sport dport)"
proof -
  let ?eth = "eth_header dhost shost tags" and ?l4 = "be16 sport @ be16 dport @ rest"
  let ?b = "frame dhost shost tags f opts sport dport rest"
  define pos where "pos = 14 + tag_len tags"
  have len: "length ?eth = pos" using macs by (simp add: eth_header_def pos_def)
  have rd: "rd8 ?b (pos + k) = rd8 (ip_header f @ opts @ ?l4) k" "rd32 ?b (pos + k) = rd32 (ip_header f @ opts @ ?l4) k" for k
    using rd_append [of ?eth "ip_header f @ opts @ ?l4" k] len by (simp_all add: frame_def)
  have ports: "rd16 ?b (pos + 20 + length opts + k) = rd16 ?l4 k" for k
    using rd_append(2) [of "?eth @ ip_header f @ opts" ?l4 k] len by (simp add: frame_def add.assoc)
  have p2: "rd16 ?l4 2 = Inr (ntohs dport)"
    using rd_append(2) [of "be16 sport" "be16 dport @ rest" 0] by simp
  have pi: "ip4 (parsed tags f opts rest) = Some pos" "l4 (parsed tags f opts rest) = Some (pos + 20 + length opts)"
    "\<not> pkt_is_v6 (parsed tags f opts rest)"
    by (simp_all add: parsed_def pos_def Let_def pkt_is_v6_def pkt_init_def)
  show ?thesis
    using ports [of 0] ports [of 2] p2
    by (simp add: pkt_init_key_def pkt_get_ports_v4_def deref_def pi rd ip_reads del: add_2_eq_Suc')
qed

lemma vlan_of_frame:
  assumes macs: "length dhost = 6" "length shost = 6" and "ether pkt = Some 0"
  shows "pkt_get_vlan (eth_header dhost shost tags @ xs) pkt = Inr (vlan_of tags)"
    and "pkt_dst_mac (eth_header dhost shost tags @ xs) pkt = Inr dhost"
    and "pkt_src_mac (eth_header dhost shost tags @ xs) pkt = Inr shost"
proof -
  have step: "rd16 (be16 a @ ys) (k + 2) = rd16 ys k" for a ys k
    using rd_append(2) [of "be16 a" ys k] by (simp add: add.commute)
  have at: "rd16 (eth_header dhost shost t @ xs) 14 = rd16 (eth_tail t @ xs) 2"
    "rd16 (eth_header dhost shost t @ xs) 18 = rd16 (eth_tail t @ xs) 6" for t
    using rd_append(2) [of "dhost @ shost" "eth_tail t @ xs" 2] rd_append(2) [of "dhost @ shost" "eth_tail t @ xs" 6] macs
    by (simp_all add: eth_header_def)
  have tail: "rd16 (be16 a @ be16 b @ ys) 2 = Inr (ntohs b)" "rd16 (be16 a @ be16 b @ be16 c @ be16 d @ ys) 6 = Inr (ntohs d)" for a b c d ys
    using step [of a "be16 b @ ys" 0] step [of a "be16 b @ be16 c @ be16 d @ ys" 4] tail_reads(1) [of b c d ys]
    by (simp_all del: add_2_eq_Suc add_2_eq_Suc')
  show "pkt_get_vlan (eth_header dhost shost tags @ xs) pkt = Inr (vlan_of tags)"
    using assms(3) by (cases tags)
      (simp_all add: pkt_get_vlan_def deref_def eth_reads [OF macs] at tail net_consts Let_def)
  show "pkt_dst_mac (eth_header dhost shost tags @ xs) pkt = Inr dhost"
    "pkt_src_mac (eth_header dhost shost tags @ xs) pkt = Inr shost"
    using assms by (simp_all add: pkt_dst_mac_def pkt_src_mac_def deref_def mac_at_def eth_header_def)
qed

text \<open>
  C17: Parsing is the inverse of laying out a frame: a TCP or UDP frame, with any VLAN tags and IP
  options, whose headers have been captured is accepted, and the key, the direction, the VLAN and
  the hardware addresses taken from it are those the frame was made of.
\<close>

theorem net_parse_frame:
  assumes "length dhost = 6" "length shost = 6"
    and "4 * IP_HL (f_vhl f) = 20 + length opts" "f_off f AND 0x1fff = 0"
    and "f_proto f = IPPROTO_TCP \<and> 10 \<le> length rest \<or> f_proto f = IPPROTO_UDP"
    and "14 + tag_len tags + 20 + length opts \<le> unat (caplen hdr)" "unat (caplen hdr) < 2 ^ 31"
    and "buf = frame dhost shost tags f opts sport dport rest"
  shows "\<exists>pkt'. net_parse hdr buf pkt = Inr (PARSE_ERR_OK, pkt') \<and>
    pkt_init_key buf pkt' = Inr (net_stream_init_v4 (f_proto f) (f_src f) (f_dst f) sport dport) \<and>
    pkt_get_vlan buf pkt' = Inr (vlan_of tags) \<and> pkt_dst_mac buf pkt' = Inr dhost \<and>
    pkt_src_mac buf pkt' = Inr shost \<and>
    (istcp pkt' \<noteq> 0 \<longleftrightarrow> f_proto f = IPPROTO_TCP) \<and> (istcp pkt' \<noteq> 0 \<longrightarrow> tcpflags pkt' = rest ! 9)"
proof -
  have "14 \<le> unat (caplen hdr)" using assms(6) by simp
  from parse_frame [OF assms(1-5) this assms(7), of tags sport dport pkt]
  have run: "net_parse hdr buf pkt = Inr (PARSE_ERR_OK, parsed tags f opts rest)" using assms(6,8) by simp
  have "ether (parsed tags f opts rest) = Some 0"
    "(istcp (parsed tags f opts rest) \<noteq> 0) = (f_proto f = IPPROTO_TCP)"
    "istcp (parsed tags f opts rest) \<noteq> 0 \<longrightarrow> tcpflags (parsed tags f opts rest) = rest ! 9"
    by (simp_all add: parsed_def pkt_init_def Let_def)
  moreover note vlan_of_frame [OF assms(1,2) this(1), of tags]
  ultimately show ?thesis
    using run key_of_frame [OF assms(1,2), of tags f opts sport dport rest] assms(8) by (auto simp: frame_def)
qed

theorem net_parse_frame_witness:
  "\<exists>buf pkt'. net_parse \<lparr>hdr_ts = \<lparr>tv_sec = 1, tv_usec = 0\<rparr>, caplen = 58, pkt_len = 58\<rparr> buf pkt_init =
      Inr (PARSE_ERR_OK, pkt') \<and>
    pkt_init_key buf pkt' = Inr (net_stream_init_v4 6 0x0101A8C0 0x0201A8C0 51000 80)"
proof -
  let ?f = "\<lparr>f_vhl = 0x45, f_tos = 0, f_len = 40, f_id = 1, f_off = 0x4000, f_ttl = 64, f_proto = 6, f_sum = 0,
     f_src = 0x0101A8C0, f_dst = 0x0201A8C0\<rparr>"
  let ?buf = "frame [1, 2, 3, 4, 5, 6] [7, 8, 9, 10, 11, 12] (Tagged 7) ?f [] 51000 80 (replicate 16 0)"
  show ?thesis
    using net_parse_frame [of "[1, 2, 3, 4, 5, 6]" "[7, 8, 9, 10, 11, 12]" ?f "[]" "replicate 16 0" "Tagged 7"
        "\<lparr>hdr_ts = \<lparr>tv_sec = 1, tv_usec = 0\<rparr>, caplen = 58, pkt_len = 58\<rparr>" ?buf 51000 80 pkt_init]
    by (auto simp: IP_HL_def IPPROTO_TCP_def)
qed

lemma skip_vlan_fits:
  assumes "22 \<le> length buf"
  shows "\<exists>t off. ether_skip_vlan buf 0 = Inr (t, off) \<and> off \<le> 8"
  using rd_fits(2) [of 12 buf] rd_fits(2) [of 20 buf] rd_fits(2) [of 16 buf] assms
  by (auto simp: ether_skip_vlan_def Let_def)

text \<open>Parsing at \<open>pos\<close> reads less than 74 bytes, and what it accepts points at most 60 bytes on.\<close>

lemma ip_parse_fits:
  assumes "pos + 74 \<le> length buf"
  shows "\<exists>status pkt'. ip_parse buf pos pkt r = Inr (status, pkt') \<and>
    (status = PARSE_ERR_OK \<longrightarrow> ip4 pkt' = Some pos \<and> (\<exists>q. l4 pkt' = Some q \<and> q \<le> pos + 60) \<and> ether pkt' = ether pkt)"
proof -
  obtain vhl where vhl: "rd8 buf pos = Inr vhl" using rd_fits(1) [of pos buf] assms by auto
  then have hlen: "ip_get_hlen buf pos = Inr (IP_HL vhl * 4)" by (simp add: ip_get_hlen_def)
  have le: "IP_HL vhl * 4 \<le> 60" using IP_HL_le [of vhl] by simp
  obtain flags where "rd8 buf (pos + IP_HL vhl * 4 + 13) = Inr flags"
    using rd_fits(1) [of "pos + IP_HL vhl * 4 + 13" buf] assms le by auto
  moreover obtain len where "rd16 buf (pos + 2) = Inr len" using rd_fits(2) [of "pos + 2" buf] assms by auto
  moreover obtain off where "rd16 buf (pos + 6) = Inr off" using rd_fits(2) [of "pos + 6" buf] assms by auto
  moreover obtain prot where "rd8 buf (pos + 9) = Inr prot" using rd_fits(1) [of "pos + 9" buf] assms by auto
  ultimately show ?thesis
    using hlen le by (simp add: ip_parse_def tcp4_parse_def udp4_parse_def Let_def net_consts del: add_2_eq_Suc')
qed

lemma key_fits:
  assumes "ip4 pkt = Some pos" "l4 pkt = Some q" "pos + 20 \<le> length buf" "q + 4 \<le> length buf"
  shows "\<exists>key. pkt_init_key buf pkt = Inr key"
proof -
  obtain prot where "rd8 buf (pos + 9) = Inr prot" using rd_fits(1) [of "pos + 9" buf] assms by auto
  moreover obtain sp where "rd16 buf q = Inr sp" using rd_fits(2) [of q buf] assms by auto
  moreover obtain dp where "rd16 buf (q + 2) = Inr dp" using rd_fits(2) [of "q + 2" buf] assms by auto
  moreover obtain src where "rd32 buf (pos + 12) = Inr src" using rd_fits(3) [of "pos + 12" buf] assms by auto
  moreover obtain dst where "rd32 buf (pos + 16) = Inr dst" using rd_fits(3) [of "pos + 16" buf] assms by auto
  ultimately show ?thesis
    using assms by (simp add: pkt_init_key_def pkt_get_ports_v4_def deref_def del: add_2_eq_Suc')
qed

lemma vlan_fits:
  assumes "ether pkt = Some 0" "20 \<le> length buf"
  shows "\<exists>vlan. pkt_get_vlan buf pkt = Inr vlan"
  using rd_fits(2) [of 12 buf] rd_fits(2) [of 14 buf] rd_fits(2) [of 18 buf] assms
  by (auto simp: pkt_get_vlan_def deref_def Let_def)

text \<open>
  C18: A buffer of at least 96 bytes is never overrun: whatever it holds and whatever captured length
  the header claims, parsing returns, and so do the key and VLAN accessors of an accepted packet.
\<close>

theorem net_parse_safe:
  assumes big: "96 \<le> length buf"
  shows "\<exists>status pkt'. net_parse hdr buf pkt = Inr (status, pkt') \<and>
    (status = PARSE_ERR_OK \<longrightarrow>
      (\<exists>key vlan. pkt_init_key buf pkt' = Inr key \<and> pkt_get_vlan buf pkt' = Inr vlan))"
proof (cases "caplen hdr < 14")
  case True
  then show ?thesis by (simp add: net_parse_def net_consts)
next
  case False
  obtain t off where skip: "ether_skip_vlan buf 0 = Inr (t, off)" "off \<le> 8"
    using skip_vlan_fits [of buf] big by auto
  let ?pkt = "pkt_init\<lparr>ether := Some 0\<rparr>"
  let ?r = "sint (caplen hdr - of_nat ETHER_HDRLEN - of_nat off)"
  obtain status pkt' where ip: "ip_parse buf (14 + off) ?pkt ?r = Inr (status, pkt')"
      "status = PARSE_ERR_OK \<Longrightarrow> ip4 pkt' = Some (14 + off) \<and> (\<exists>q. l4 pkt' = Some q \<and> q \<le> 14 + off + 60) \<and> ether pkt' = Some 0"
    using ip_parse_fits [of "14 + off" buf ?pkt ?r] big skip by auto
  have "\<exists>key vlan. pkt_init_key buf pkt' = Inr key \<and> pkt_get_vlan buf pkt' = Inr vlan" if "status = PARSE_ERR_OK"
    using ip(2) [OF that] key_fits [of pkt' "14 + off" _ buf] vlan_fits [of pkt' buf] big skip(2) by fastforce
  then show ?thesis
    using False skip ip(1)
    by (auto simp: net_parse_def ETHER_HDRLEN_def PARSE_ERR_OK_def PARSE_ERR_UNSUPPORTED_def Let_def)
qed

theorem net_parse_safe_witness:
  "\<exists>status pkt'. net_parse \<lparr>hdr_ts = \<lparr>tv_sec = 1, tv_usec = 0\<rparr>, caplen = 4294967295, pkt_len = 0\<rparr>
     (replicate 96 255) pkt_init = Inr (status, pkt')"
  using net_parse_safe [of "replicate 96 255" "\<lparr>hdr_ts = \<lparr>tv_sec = 1, tv_usec = 0\<rparr>, caplen = 4294967295, pkt_len = 0\<rparr>" pkt_init]
  by auto

text \<open>
  The transport header is not checked against the captured length: a frame that ends after the
  IP header of a TCP packet is read past its end.
\<close>

theorem net_parse_tcp_overrun:
  assumes "length dhost = 6" "length shost = 6"
    and hl: "4 * IP_HL (f_vhl f) = 20 + length opts" and off: "f_off f AND 0x1fff = 0" and tcp: "f_proto f = IPPROTO_TCP"
    and buf: "buf = eth_header dhost shost tags @ ip_header f @ opts"
    and cap: "unat (caplen hdr) = length buf" "length buf < 2 ^ 31"
  shows "net_parse hdr buf pkt = Inl OutOfBounds"
proof -
  have len: "length (eth_header dhost shost tags) = 14 + tag_len tags" using assms(1,2) by (simp add: eth_header_def)
  have lb: "length buf = 34 + tag_len tags + length opts" by (simp add: buf len)
  have "sint (caplen hdr - of_nat ETHER_HDRLEN - of_nat (tag_len tags)) = int (unat (caplen hdr)) - 14 - int (tag_len tags)"
    using cap lb by (intro remaining_eq) linarith+
  also have "\<dots> = 20 + int (length opts)" using cap(1) lb by linarith
  finally have r: "sint (caplen hdr - of_nat ETHER_HDRLEN - of_nat (tag_len tags)) = 20 + int (length opts)" .
  have "tcp4_parse buf (14 + tag_len tags + 20 + length opts) p n = Inl OutOfBounds" for p n
    by (simp add: tcp4_parse_def rd8_def buf len)
  then have "ip_parse buf (14 + tag_len tags) (pkt_init\<lparr>ether := Some 0\<rparr>) (20 + int (length opts)) = Inl OutOfBounds"
    using ip_parse_frame [OF hl off _ len, of "20 + int (length opts)" "[]"] tcp by (simp add: buf)
  moreover have "\<not> caplen hdr < 14" using cap len by (simp add: word_nat buf)
  ultimately show ?thesis
    using skip_vlan_frame [OF assms(1,2), of tags "ip_header f @ opts"] r
    by (simp add: net_parse_def buf ETHER_HDRLEN_def ETHERTYPE_IP_def ETHERMTU_def)
qed

theorem net_parse_tcp_overrun_witness:
  "\<exists>buf. length buf = 34 \<and>
     net_parse \<lparr>hdr_ts = \<lparr>tv_sec = 1, tv_usec = 0\<rparr>, caplen = 34, pkt_len = 60\<rparr> buf pkt_init = Inl OutOfBounds"
proof -
  let ?f = "\<lparr>f_vhl = 0x45, f_tos = 0, f_len = 40, f_id = 1, f_off = 0, f_ttl = 64, f_proto = 6, f_sum = 0,
     f_src = 0x0101A8C0, f_dst = 0x0201A8C0\<rparr>"
  let ?buf = "eth_header [1, 2, 3, 4, 5, 6] [7, 8, 9, 10, 11, 12] Untagged @ ip_header ?f @ []"
  show ?thesis
    using net_parse_tcp_overrun [of "[1, 2, 3, 4, 5, 6]" "[7, 8, 9, 10, 11, 12]" ?f "[]" ?buf Untagged
        "\<lparr>hdr_ts = \<lparr>tv_sec = 1, tv_usec = 0\<rparr>, caplen = 34, pkt_len = 60\<rparr>" pkt_init]
    by (intro exI [of _ ?buf]) (simp add: IP_HL_def IPPROTO_TCP_def eth_header_def)
qed

text \<open>
  The length check of the IP header is made without sign. When the capture ends inside the VLAN
  tags the remaining length is negative and passes the check: headers that were not captured, left
  over in the buffer, are accepted.
\<close>

theorem net_parse_short_capture_accepted:
  assumes "length dhost = 6" "length shost = 6"
    and "IP_HL (f_vhl f) = 5" "f_off f AND 0x1fff = 0"
    and "f_proto f = IPPROTO_TCP \<and> 10 \<le> length rest \<or> f_proto f = IPPROTO_UDP"
    and "14 \<le> unat (caplen hdr)" "unat (caplen hdr) < 14 + tag_len tags"
  shows "\<exists>pkt'. net_parse hdr (frame dhost shost tags f [] sport dport rest) pkt = Inr (PARSE_ERR_OK, pkt')"
proof -
  have "tag_len tags \<le> 8" by (cases tags) simp_all
  then have "unat (caplen hdr) < 2 ^ 31" using assms(7) by simp
  then show ?thesis
    using parse_frame [of dhost shost f "[]" rest hdr tags sport dport pkt] assms by simp
qed

theorem net_parse_short_capture_accepted_witness:
  "\<exists>buf pkt'. net_parse \<lparr>hdr_ts = \<lparr>tv_sec = 1, tv_usec = 0\<rparr>, caplen = 14, pkt_len = 60\<rparr> buf pkt_init = Inr (PARSE_ERR_OK, pkt')"
proof -
  let ?f = "\<lparr>f_vhl = 0x45, f_tos = 0, f_len = 40, f_id = 1, f_off = 0, f_ttl = 64, f_proto = 17, f_sum = 0,
     f_src = 0x0101A8C0, f_dst = 0x0201A8C0\<rparr>"
  show ?thesis
    using net_parse_short_capture_accepted [of "[1, 2, 3, 4, 5, 6]" "[7, 8, 9, 10, 11, 12]" ?f "[]"
        "\<lparr>hdr_ts = \<lparr>tv_sec = 1, tv_usec = 0\<rparr>, caplen = 14, pkt_len = 60\<rparr>" "Tagged 7" 53 53 pkt_init]
    by (auto simp: IP_HL_def IPPROTO_UDP_def)
qed

end
