(* ===== verification/Structs.thy ===== *)
theory Structs
  imports MgArray Tval
begin

text \<open>
  The records of the shared memory segment (\<^verbatim>\<open>common/structs.h\<close> and \<^verbatim>\<open>common/sharedif.h\<close>), which the
  capture process writes and the statistics process reads. Fields whose C name begins with an
  underscore (right-to-left counters) end in \<open>_rl\<close> here.
\<close>

record addr_info_t =
  ai_tstart :: tval_t
  ai_iid :: u32
  addr_offset :: u32
  ai_isv6 :: u8
  internal :: u8
  resvd :: u16
  resvd2 :: u16
  nstreams :: u16
  nstreams_active :: u16
  txpackets :: u32
  txbytes :: u32
  rxpackets :: u32
  rxbytes :: u32
  txbcastpkt :: u16
  mac :: "u8 list"

record stream_info_t =
  si_tstart :: tval_t
  si_tlast :: tval_t
  si_iid :: u32
  idx_left :: u16
  idx_right :: u16
  idx_proto :: u16
  si_lport :: u16
  si_rport :: u16
  si_ipproto :: u8
  si_tcpflags :: u8
  vlan :: u8
  flowflags :: u8
  packets :: u32
  bytes :: u32
  packets_rl :: u32
  bytes_rl :: u32

definition FLOW_FLAG_WEB :: u8 where "FLOW_FLAG_WEB = 0x01"
definition FLOW_FLAG_IN :: u8 where "FLOW_FLAG_IN = 0x02"
definition FLOW_FLAG_CLEANUP :: u8 where "FLOW_FLAG_CLEANUP = 0x80"
definition FLOW_TYPE_INTERNAL :: u8 where "FLOW_TYPE_INTERNAL = 0x04"
definition FLOW_TYPE_TOTAL :: nat where "FLOW_TYPE_TOTAL = 5"

lemmas flow_consts = FLOW_FLAG_WEB_def FLOW_FLAG_IN_def FLOW_FLAG_CLEANUP_def FLOW_TYPE_INTERNAL_def
  FLOW_TYPE_TOTAL_def

record lan_info_t =
  mask4 :: u32
  li_vlan :: u8
  li_flowflags :: u8
  li_rsvd :: u16
  li_packets :: u32
  li_bytes :: u32
  li_packets_rl :: u32
  li_bytes_rl :: u32

record flow_stats_t =
  fs_packets :: u32
  fs_bytes :: u32

record proto_info_t =
  pi_packets :: u32
  pi_bytes :: u32
  pi_packets_rl :: u32
  pi_bytes_rl :: u32

definition SI_NUM_ADDRS :: nat where "SI_NUM_ADDRS = 16384"
definition SI_NUM_STREAMS :: nat where "SI_NUM_STREAMS = 32768"
definition SI_ADDR6_BYTES :: nat where "SI_ADDR6_BYTES = 512"
definition SI_NUM_FLOWTYPES :: nat where "SI_NUM_FLOWTYPES = 6"
definition SI_NUM_LANS :: nat where "SI_NUM_LANS = 4"
definition SI_NUM_TCP_PROTOS :: nat where "SI_NUM_TCP_PROTOS = 9110"
definition SI_NUM_PROTOS :: nat where "SI_NUM_PROTOS = SI_NUM_TCP_PROTOS * 2"
definition SHAREDIF_MAGIC :: u32 where "SHAREDIF_MAGIC = 0x466c6f77"

lemmas si_consts = SI_NUM_ADDRS_def SI_NUM_STREAMS_def SI_ADDR6_BYTES_def SI_NUM_FLOWTYPES_def
  SI_NUM_LANS_def SI_NUM_TCP_PROTOS_def SI_NUM_PROTOS_def

record sharedif_t =
  magic :: u32
  lan_struct_len :: u16
  addr_struct_len :: u16
  stream_struct_len :: u16
  proto_struct_len :: u16
  shm_tstart :: tval_t
  shm_tnow :: tval_t
  flow_stats :: "flow_stats_t list"
  ifdrops :: u32
  kdrops :: u32
  addr_lan_indexes :: mga_info_t
  addr_wan_indexes :: mga_info_t
  stream_indexes :: mga_info_t
  shm_streams :: "stream_info_t carray"
  shm_protos :: "proto_info_t carray"
  shm_addrs :: "addr_info_t carray"
  shm_lans :: "lan_info_t list"
  addr6mem :: "u8 list"

subsection \<open>Zeroed memory\<close>

definition zero_tval :: tval_t where
  "zero_tval = \<lparr>tv_sec = 0, tv_usec = 0\<rparr>"

definition zero_addr_info :: addr_info_t where
  "zero_addr_info =
     \<lparr>ai_tstart = zero_tval, ai_iid = 0, addr_offset = 0, ai_isv6 = 0, internal = 0, resvd = 0, resvd2 = 0,
      nstreams = 0, nstreams_active = 0, txpackets = 0, txbytes = 0, rxpackets = 0, rxbytes = 0,
      txbcastpkt = 0, mac = replicate 6 0\<rparr>"

definition zero_stream_info :: stream_info_t where
  "zero_stream_info =
     \<lparr>si_tstart = zero_tval, si_tlast = zero_tval, si_iid = 0, idx_left = 0, idx_right = 0, idx_proto = 0,
      si_lport = 0, si_rport = 0, si_ipproto = 0, si_tcpflags = 0, vlan = 0, flowflags = 0,
      packets = 0, bytes = 0, packets_rl = 0, bytes_rl = 0\<rparr>"

definition zero_sharedif :: sharedif_t where
  "zero_sharedif =
     \<lparr>magic = 0, lan_struct_len = 0, addr_struct_len = 0, stream_struct_len = 0, proto_struct_len = 0,
      shm_tstart = zero_tval, shm_tnow = zero_tval,
      flow_stats = replicate SI_NUM_FLOWTYPES \<lparr>fs_packets = 0, fs_bytes = 0\<rparr>, ifdrops = 0, kdrops = 0,
      addr_lan_indexes = \<lparr>num_entries = 0, idx_lo = 0, idx_hi = 0\<rparr>,
      addr_wan_indexes = \<lparr>num_entries = 0, idx_lo = 0, idx_hi = 0\<rparr>,
      stream_indexes = \<lparr>num_entries = 0, idx_lo = 0, idx_hi = 0\<rparr>,
      shm_streams = \<lparr>alen = SI_NUM_STREAMS, aget = (\<lambda>_. zero_stream_info)\<rparr>,
      shm_protos = \<lparr>alen = SI_NUM_PROTOS,
                    aget = (\<lambda>_. \<lparr>pi_packets = 0, pi_bytes = 0, pi_packets_rl = 0, pi_bytes_rl = 0\<rparr>)\<rparr>,
      shm_addrs = \<lparr>alen = SI_NUM_ADDRS, aget = (\<lambda>_. zero_addr_info)\<rparr>,
      shm_lans = replicate SI_NUM_LANS
        \<lparr>mask4 = 0, li_vlan = 0, li_flowflags = 0, li_rsvd = 0, li_packets = 0, li_bytes = 0,
         li_packets_rl = 0, li_bytes_rl = 0\<rparr>,
      addr6mem = replicate SI_ADDR6_BYTES 0\<rparr>"

end
