(* ===== verification/ShmData.thy ===== *)
theory ShmData
  imports Structs Parse
begin

text \<open>
  The data layer of the capture process (\<^verbatim>\<open>common/shmdata.c\<close>): the shared segment with its streams,
  addresses and protocol counters, the two hash tables that find them, and the three managed arrays
  that hand out their slots.

  The static variables of the file are the fields of a state that every function takes and returns;
  functions that can fault return a \<^typ>\<open>'a c_result\<close>. A pointer to a stream or an address is its index in the
  array. The hash tables hold pointers to keys: \<open>stream_key_mem\<close> and \<open>addr_key_mem\<close> are the memory
  these point to. Address keys are allocated by \<^verbatim>\<open>malloc\<close>; stream keys are wherever the caller keeps
  them, so their address is an argument. \<open>heap_ok\<close> tells whether \<^verbatim>\<open>malloc\<close> finds memory: always or
  never in a run, so that memory that runs out in the middle of one is not covered.
\<close>

subsection \<open>Address keys\<close>

record addr_key_t =
  a0 :: u32
  a1 :: u32
  a2 :: u32
  a3 :: u32

definition zero_addr :: addr_key_t where
  "zero_addr = \<lparr>a0 = 0, a1 = 0, a2 = 0, a3 = 0\<rparr>"

definition addr_key_init_v4 :: "u32 \<Rightarrow> addr_key_t" where
  "addr_key_init_v4 addr = zero_addr\<lparr>a0 := addr\<rparr>"

definition addr_key_bytes :: "addr_key_t \<Rightarrow> u8 list" where
  "addr_key_bytes k = le32 (a0 k) @ le32 (a1 k) @ le32 (a2 k) @ le32 (a3 k)"

definition hcmp_v4addr_key :: "addr_key_t \<Rightarrow> addr_key_t \<Rightarrow> int" where
  "hcmp_v4addr_key k1 k2 = memcmp (addr_key_bytes k1) (addr_key_bytes k2)"

definition hash_v4addr_key :: "addr_key_t \<Rightarrow> u32" where
  "hash_v4addr_key key = a0 key XOR a1 key XOR a2 key XOR a3 key"

text \<open>An address key is in a local variable or in an allocated cell.\<close>

datatype akptr = ALocal | AHeap nat

subsection \<open>State\<close>

text \<open>The cleanup lists of \<^verbatim>\<open>capture/cleanup.c\<close>: the entries in use, null when \<^verbatim>\<open>calloc\<close> failed.\<close>

record alist_t =
  entries :: "nat list option"
  al_num_entries :: u32

type_synonym stream_table = "(nat \<Rightarrow> stream_key_t, nat, nat) HashTable"
type_synonym addr_table = "(akptr \<Rightarrow> addr_key_t, akptr, nat) HashTable"

record shm_state =
  g_shm :: sharedif_t
  ht_streams :: stream_table
  ht_v4addrs :: addr_table
  g_lan_addrs :: "addr_info_t mgarray_t"
  g_wan_addrs :: "addr_info_t mgarray_t"
  g_streams :: "stream_info_t mgarray_t"
  gAddrCount :: u32
  gStreamCount :: u32
  cleanup_streams_list :: alist_t
  cleanup_streams_wait :: alist_t
  stream_key_mem :: "nat \<Rightarrow> stream_key_t"
  addr_key_mem :: "akptr \<Rightarrow> addr_key_t"
  next_addr_key :: nat
  heap_ok :: bool

definition shm_addr_rd :: "shm_state \<Rightarrow> nat \<Rightarrow> addr_info_t c_result" where
  "shm_addr_rd st i = arr_rd (shm_addrs (g_shm st)) i"

definition shm_addr_upd :: "shm_state \<Rightarrow> nat \<Rightarrow> (addr_info_t \<Rightarrow> addr_info_t) \<Rightarrow> shm_state c_result" where
  "shm_addr_upd st i f =
     bind_r (arr_rd (shm_addrs (g_shm st)) i) (\<lambda>a.
     bind_r (arr_wr (shm_addrs (g_shm st)) i (f a)) (\<lambda>as.
       Inr (st\<lparr>g_shm := (g_shm st)\<lparr>shm_addrs := as\<rparr>\<rparr>)))"

definition shm_stream_rd :: "shm_state \<Rightarrow> nat \<Rightarrow> stream_info_t c_result" where
  "shm_stream_rd st i = arr_rd (shm_streams (g_shm st)) i"

definition shm_stream_upd :: "shm_state \<Rightarrow> nat \<Rightarrow> (stream_info_t \<Rightarrow> stream_info_t) \<Rightarrow> shm_state c_result" where
  "shm_stream_upd st i f =
     bind_r (arr_rd (shm_streams (g_shm st)) i) (\<lambda>s.
     bind_r (arr_wr (shm_streams (g_shm st)) i (f s)) (\<lambda>ss.
       Inr (st\<lparr>g_shm := (g_shm st)\<lparr>shm_streams := ss\<rparr>\<rparr>)))"

subsection \<open>The code\<close>

definition inc_flow :: "flow_stats_t list \<Rightarrow> nat \<Rightarrow> u32 \<Rightarrow> flow_stats_t list" where
  "inc_flow fs i len =
     fs[i := \<lparr>fs_packets = fs_packets (fs ! i) + 1, fs_bytes = fs_bytes (fs ! i) + len\<rparr>]"

definition shm_inc_global :: "shm_state \<Rightarrow> tval_t \<Rightarrow> u32 \<Rightarrow> shm_state" where
  "shm_inc_global st ts pktlen =
     (let shm = g_shm st;
          shm1 = shm\<lparr>flow_stats := inc_flow (flow_stats shm) FLOW_TYPE_TOTAL pktlen, shm_tnow := ts\<rparr>
      in st\<lparr>g_shm := (if tv_sec (shm_tstart shm1) = 0 then shm1\<lparr>shm_tstart := ts\<rparr> else shm1)\<rparr>)"

text \<open>The functions the managed arrays ask for the status of a slot.\<close>

definition addr_isempty_func :: "addr_info_t mga_isempty_func" where
  "addr_isempty_func entry opr =
     (let status = (if tv_sec (ai_tstart entry) = 0 then ENTRY_AVAIL else ENTRY_TAKEN);
          mark = (\<lambda>v. entry\<lparr>ai_tstart := (ai_tstart entry)\<lparr>tv_sec := v\<rparr>\<rparr>)
      in case opr of
           MGA_OP_SET \<Rightarrow> (status, mark 1)
         | MGA_OP_TSTSET \<Rightarrow> (status, if status = ENTRY_AVAIL then mark 1 else entry)
         | MGA_OP_CLR \<Rightarrow> (status, mark 0)
         | MGA_OP_TST \<Rightarrow> (status, entry))"

definition stream_isempty_func :: "stream_info_t mga_isempty_func" where
  "stream_isempty_func entry opr =
     (let status = (if tv_sec (si_tstart entry) = 0 then ENTRY_AVAIL else ENTRY_TAKEN);
          mark = (\<lambda>v. entry\<lparr>si_tstart := (si_tstart entry)\<lparr>tv_sec := v\<rparr>\<rparr>)
      in case opr of
           MGA_OP_SET \<Rightarrow> (status, mark 1)
         | MGA_OP_TSTSET \<Rightarrow> (status, if status = ENTRY_AVAIL then mark 1 else entry)
         | MGA_OP_CLR \<Rightarrow> (status, mark 0)
         | MGA_OP_TST \<Rightarrow> (status, entry))"

text \<open>
  The initialisation. \<open>shm_ok\<close> tells whether the segment, shared or allocated, was obtained; it is all
  zero. \<^verbatim>\<open>sizeof(addr_info_t)\<close> and \<^verbatim>\<open>sizeof(stream_info_t)\<close> are 52. A table that could not be created is a
  null pointer that the next call reads through. \<open>st\<close> is the state of the static variables before.
\<close>

definition shm_data_init ::
  "(nat \<Rightarrow> u64) \<Rightarrow> (akptr \<Rightarrow> u64) \<Rightarrow> bool \<Rightarrow> shm_state \<Rightarrow> (bool \<times> shm_state) c_result"
where
  "shm_data_init skaddr akaddr shm_ok st =
     (if \<not> shm_ok then Inr (False, st)
      else
        let shm = zero_sharedif\<lparr>magic := SHAREDIF_MAGIC\<rparr> in
        bind_r (HashTableCreate skaddr (heap_ok st) (heap_ok st) (of_nat (SI_NUM_STREAMS div 5))) (\<lambda>hs.
        case hs of None \<Rightarrow> Inl NullDeref | Some hs \<Rightarrow>
        let hs1 = HashTableSetHashFunction
                    (HashTableSetKeyComparisonFunction hs (\<lambda>mem p q. hcmp_stream_key (mem p) (mem q)))
                    (\<lambda>mem p. hash_stream_key (mem p)) in
        bind_r (HashTableCreate akaddr (heap_ok st) (heap_ok st) (of_nat (SI_NUM_ADDRS div 5))) (\<lambda>ha.
        case ha of None \<Rightarrow> Inl NullDeref | Some ha \<Rightarrow>
        let ha1 = HashTableSetHashFunction
                    (HashTableSetKeyComparisonFunction ha (\<lambda>mem p q. hcmp_v4addr_key (mem p) (mem q)))
                    (\<lambda>mem p. hash_v4addr_key (mem p));
            (lan, lan_p) = mga_init (g_lan_addrs st) (Some (shm_addrs shm)) (addr_lan_indexes shm) 52 addr_isempty_func 0 255;
            (wan, wan_p) = mga_init (g_wan_addrs st) (Some (shm_addrs shm)) (addr_wan_indexes shm) 52 addr_isempty_func
                             256 (of_nat (SI_NUM_ADDRS - 1));
            (strm, strm_p) = mga_init (g_streams st) (Some (shm_streams shm)) (stream_indexes shm) 52 stream_isempty_func
                             0 (of_nat (SI_NUM_STREAMS - 1))
        in Inr (True, st\<lparr>g_shm := shm\<lparr>addr_lan_indexes := lan_p, addr_wan_indexes := wan_p, stream_indexes := strm_p\<rparr>,
                         ht_streams := hs1, ht_v4addrs := ha1,
                         g_lan_addrs := lan, g_wan_addrs := wan, g_streams := strm\<rparr>))))"

text \<open>The index check of \<^verbatim>\<open>_check_addr_index\<close>, which prints the counters before it aborts.\<close>

definition shm_addr_get :: "u32 \<Rightarrow> nat c_result" where
  "shm_addr_get index = (if unat index < SI_NUM_ADDRS then Inr (unat index) else Inl AssertFail)"

definition stream_init_key_from_stream :: "shm_state \<Rightarrow> stream_info_t \<Rightarrow> stream_key_t c_result" where
  "stream_init_key_from_stream st stream =
     bind_r (shm_addr_get (ucast (idx_left stream))) (\<lambda>li.
     bind_r (shm_addr_get (ucast (idx_right stream))) (\<lambda>ri.
     bind_r (shm_addr_rd st li) (\<lambda>laddr.
       if ai_isv6 laddr \<noteq> 0 then Inl AssertFail
       else
         bind_r (shm_addr_rd st ri) (\<lambda>raddr.
           Inr (fst (net_stream_init_v4 (si_ipproto stream) (addr_offset laddr) (addr_offset raddr)
                      (si_lport stream) (si_rport stream)))))))"

text \<open>The lookup; the index is 0 when there is no entry.\<close>

definition shm_addr_lookup_v4 :: "shm_state \<Rightarrow> u32 \<Rightarrow> (nat option \<times> u32) c_result" where
  "shm_addr_lookup_v4 st ipaddr =
     (let mem = (addr_key_mem st)(ALocal := addr_key_init_v4 ipaddr) in
      bind_r (HashTableGet mem (ht_v4addrs st) ALocal) (\<lambda>ai.
        case ai of None \<Rightarrow> Inr (None, 0) | Some i \<Rightarrow> Inr (Some i, of_nat i)))"

definition shm_stream_lookup_free :: "shm_state \<Rightarrow> nat \<Rightarrow> shm_state c_result" where
  "shm_stream_lookup_free st key =
     bind_r (HashTableRemove (stream_key_mem st) (heap_ok st) (ht_streams st) key) (\<lambda>(mem, ht).
       Inr (st\<lparr>stream_key_mem := mem, ht_streams := ht\<rparr>))"

text \<open>\<open>key\<close> is the address of the caller's key: the table keeps this address.\<close>

definition shm_stream_alloc :: "shm_state \<Rightarrow> nat \<Rightarrow> (nat option \<times> shm_state) c_result" where
  "shm_stream_alloc st key =
     bind_r (mga_alloc_entry (g_streams st) (stream_indexes (g_shm st)) (shm_streams (g_shm st))) (\<lambda>(p, es, r).
       let st1 = st\<lparr>g_shm := (g_shm st)\<lparr>stream_indexes := p, shm_streams := es\<rparr>\<rparr> in
       case r of
         None \<Rightarrow> Inr (None, st1)
       | Some idx \<Rightarrow>
           bind_r (HashTablePut (stream_key_mem st1) (heap_ok st1) (heap_ok st1) (ht_streams st1) key (unat idx))
             (\<lambda>(_, mem, ht).
           let st2 = st1\<lparr>stream_key_mem := mem, ht_streams := ht\<rparr> in
           bind_r (shm_stream_upd st2 (unat idx) (\<lambda>val.
                     val\<lparr>si_iid := gStreamCount st2, flowflags := 0, si_tcpflags := 0, vlan := 0,
                         packets := 0, bytes := 0, packets_rl := 0, bytes_rl := 0\<rparr>)) (\<lambda>st3.
             Inr (Some (unat idx), st3\<lparr>gStreamCount := gStreamCount st2 + 1\<rparr>))))"

definition shm_stream_lookup :: "shm_state \<Rightarrow> nat \<Rightarrow> nat option c_result" where
  "shm_stream_lookup st key = HashTableGet (stream_key_mem st) (ht_streams st) key"

definition shm_addr_free :: "shm_state \<Rightarrow> u32 \<Rightarrow> shm_state c_result" where
  "shm_addr_free st idx =
     (if idx \<ge> total_entries (g_lan_addrs st) then
        bind_r (mga_free_entry (g_wan_addrs st) (addr_wan_indexes (g_shm st)) (shm_addrs (g_shm st)) idx) (\<lambda>(p, es).
          Inr (st\<lparr>g_shm := (g_shm st)\<lparr>addr_wan_indexes := p, shm_addrs := es\<rparr>\<rparr>))
      else
        bind_r (mga_free_entry (g_lan_addrs st) (addr_lan_indexes (g_shm st)) (shm_addrs (g_shm st)) idx) (\<lambda>(p, es).
          Inr (st\<lparr>g_shm := (g_shm st)\<lparr>addr_lan_indexes := p, shm_addrs := es\<rparr>\<rparr>)))"

definition mga_alloc_addr :: "shm_state \<Rightarrow> bool \<Rightarrow> (u32 option \<times> shm_state) c_result" where
  "mga_alloc_addr st lan =
     (if lan then
        bind_r (mga_alloc_entry (g_lan_addrs st) (addr_lan_indexes (g_shm st)) (shm_addrs (g_shm st))) (\<lambda>(p, es, r).
          Inr (r, st\<lparr>g_shm := (g_shm st)\<lparr>addr_lan_indexes := p, shm_addrs := es\<rparr>\<rparr>))
      else
        bind_r (mga_alloc_entry (g_wan_addrs st) (addr_wan_indexes (g_shm st)) (shm_addrs (g_shm st))) (\<lambda>(p, es, r).
          Inr (r, st\<lparr>g_shm := (g_shm st)\<lparr>addr_wan_indexes := p, shm_addrs := es\<rparr>\<rparr>)))"

text \<open>
  Allocating an address entry. \<^verbatim>\<open>rxbytes\<close> is not among the fields that are cleared. The key that goes
  into the table is a new cell; when \<^verbatim>\<open>malloc\<close> fails it is written through a null pointer.
\<close>

definition shm_addr_alloc_v4 ::
  "shm_state \<Rightarrow> u32 \<Rightarrow> u8 list \<Rightarrow> (nat option \<times> u32 \<times> shm_state) c_result"
where
  "shm_addr_alloc_v4 st ipaddr mac_addr =
     bind_r (mga_alloc_addr st (ipaddr_is_lan ipaddr)) (\<lambda>(r, st1).
       case r of
         None \<Rightarrow> Inr (None, 0, st1)
       | Some pidx \<Rightarrow>
           bind_r (shm_addr_upd st1 (unat pidx) (\<lambda>addr.
             addr\<lparr>internal := (if ipaddr_is_lan ipaddr then 1 else 0), ai_iid := gAddrCount st1, ai_isv6 := 0,
                  resvd := 0, resvd2 := 0, addr_offset := ipaddr, nstreams := 0, nstreams_active := 0,
                  txbytes := 0, txpackets := 0, rxpackets := 0, txbcastpkt := 0, mac := mac_addr\<rparr>)) (\<lambda>st2.
           if \<not> heap_ok st2 then Inl NullDeref
           else
             let pkey = AHeap (next_addr_key st2);
                 st3 = st2\<lparr>gAddrCount := gAddrCount st1 + 1, next_addr_key := next_addr_key st2 + 1,
                           addr_key_mem := (addr_key_mem st2)(pkey := addr_key_init_v4 ipaddr)\<rparr> in
             bind_r (HashTablePut (addr_key_mem st3) (heap_ok st3) (heap_ok st3) (ht_v4addrs st3) pkey (unat pidx))
               (\<lambda>(_, mem, ht).
               Inr (Some (unat pidx), pidx, st3\<lparr>addr_key_mem := mem, ht_v4addrs := ht\<rparr>))))"

definition is_addr_slot_empty :: "addr_info_t \<Rightarrow> bool" where
  "is_addr_slot_empty entry \<longleftrightarrow> tv_sec (ai_tstart entry) = 0"

definition is_stream_slot_empty :: "stream_info_t \<Rightarrow> bool" where
  "is_stream_slot_empty entry \<longleftrightarrow> tv_sec (si_tstart entry) = 0"

definition set_stream_slot_empty :: "shm_state \<Rightarrow> nat \<Rightarrow> shm_state c_result" where
  "set_stream_slot_empty st idx =
     bind_r (mga_free_entry (g_streams st) (stream_indexes (g_shm st)) (shm_streams (g_shm st)) (of_nat idx)) (\<lambda>(p, es).
       Inr (st\<lparr>g_shm := (g_shm st)\<lparr>stream_indexes := p, shm_streams := es\<rparr>\<rparr>))"

text \<open>
  Printing. An address is printed into a buffer of \<open>cap\<close> bytes; \<^verbatim>\<open>sprintf\<close> into \<^verbatim>\<open>dest\<close> is the string that
  is written.
\<close>

definition addr_info_to_s :: "nat \<Rightarrow> addr_info_t \<Rightarrow> string c_result" where
  "addr_info_to_s cap addr =
     (if ai_isv6 addr \<noteq> 0 then (if cap < 8 then Inl OutOfBounds else Inr ''V6 TODO'')
      else ip2string cap (addr_offset addr))"

definition stream_label :: "stream_info_t \<Rightarrow> addr_info_t \<Rightarrow> addr_info_t \<Rightarrow> string c_result" where
  "stream_label stream aleft aright =
     bind_r (addr_info_to_s 32 aleft) (\<lambda>left.
     bind_r (addr_info_to_s 32 aright) (\<lambda>right.
       Inr (get_proto_name (si_ipproto stream) @ ''|'' @ left @ '':'' @ dec (unat (si_lport stream)) @
            ''|'' @ right @ '':'' @ dec (unat (si_rport stream)))))"

definition stream_info_to_s ::
  "shm_state \<Rightarrow> stream_info_t \<Rightarrow> addr_info_t option \<Rightarrow> addr_info_t option \<Rightarrow> string c_result"
where
  "stream_info_to_s st stream aleft aright =
     bind_r (case aleft of Some a \<Rightarrow> Inr a
       | None \<Rightarrow> bind_r (shm_addr_get (ucast (idx_left stream))) (shm_addr_rd st)) (\<lambda>al.
     bind_r (case aright of Some a \<Rightarrow> Inr a
       | None \<Rightarrow> bind_r (shm_addr_get (ucast (idx_right stream))) (shm_addr_rd st)) (\<lambda>ar.
       stream_label stream al ar))"

definition stream_info_to_s2 :: "stream_info_t \<Rightarrow> string" where
  "stream_info_to_s2 stream =
     (if si_ipproto stream = IPPROTO_TCP then ''TCP'' else ''?'') @ ''_idx='' @
     dec (unat (idx_left stream)) @ ''_'' @ dec (unat (si_lport stream)) @ ''|idx='' @
     dec (unat (idx_right stream)) @ ''_'' @ dec (unat (si_rport stream))"

definition hex_digit :: "nat \<Rightarrow> char" where
  "hex_digit n = (if n < 10 then char_of (48 + n) else char_of (87 + n))"

definition hex2 :: "u8 \<Rightarrow> string" where
  "hex2 b = [hex_digit (unat b div 16), hex_digit (unat b mod 16)]"

text \<open>The structure holds six bytes.\<close>

definition addr_mac_to_s :: "addr_info_t \<Rightarrow> string" where
  "addr_mac_to_s addr =
     (let m = mac addr in
      hex2 (m ! 0) @ '':'' @ hex2 (m ! 1) @ '':'' @ hex2 (m ! 2) @ '':'' @ hex2 (m ! 3) @ '':'' @
      hex2 (m ! 4) @ '':'' @ hex2 (m ! 5))"

definition shm_inc_flow_stats :: "shm_state \<Rightarrow> stream_info_t \<Rightarrow> u32 \<Rightarrow> shm_state c_result" where
  "shm_inc_flow_stats st ss len =
     (let i = unat (flowflags ss AND 0x07) in
      bind_r (c_assert (i < SI_NUM_FLOWTYPES)) (\<lambda>_.
        Inr (st\<lparr>g_shm := (g_shm st)\<lparr>flow_stats := inc_flow (flow_stats (g_shm st)) i len\<rparr>\<rparr>)))"

definition shm_update_capstats :: "shm_state \<Rightarrow> u32 \<Rightarrow> u32 \<Rightarrow> u32 \<Rightarrow> shm_state" where
  "shm_update_capstats st recv ifdr kdr =
     (let st1 = st\<lparr>g_shm := (g_shm st)\<lparr>ifdrops := ifdr\<rparr>\<rparr>
      in st1\<lparr>g_shm := (g_shm st1)\<lparr>ifdrops := kdr\<rparr>\<rparr>)"

text \<open>The index of the counters of a port, TCP ports first; the sum is a 16-bit one.\<close>

definition shm_get_protocol :: "u8 \<Rightarrow> u16 \<Rightarrow> nat option" where
  "shm_get_protocol proto port =
     (if unat port \<ge> SI_NUM_TCP_PROTOS then None
      else if proto = IPPROTO_UDP then Some (unat (port + of_nat SI_NUM_TCP_PROTOS)) else Some (unat port))"

definition shm_stats_print :: "shm_state \<Rightarrow> string" where
  "shm_stats_print st =
     (let shm = g_shm st; total = flow_stats shm ! FLOW_TYPE_TOTAL in
      ''G pkt='' @ dec_int (sint (fs_packets total)) @ '' bytes='' @ dec_int (sint (fs_bytes total)) @
      '' streams='' @ dec_int (sint (num_entries (stream_indexes shm))) @
      '' lan_addrs='' @ dec_int (sint (num_entries (addr_lan_indexes shm))) @
      '' wan_addrs='' @ dec_int (sint (num_entries (addr_wan_indexes shm))) @ [CHR 0x0A])"

subsection \<open>The managed arrays of the segment\<close>

interpretation addr_slots: slot_status addr_isempty_func
  by unfold_locales (simp_all add: addr_isempty_func_def Let_def)

interpretation stream_slots: slot_status stream_isempty_func
  by unfold_locales (simp_all add: stream_isempty_func_def Let_def)

text \<open>What \<^term>\<open>shm_data_init\<close> makes of the three arrays.\<close>

definition lan_array :: "addr_info_t mgarray_t" where
  "lan_array = \<lparr>isempty_func = addr_isempty_func, entry_size = 52, total_entries = 256, idx_min = 0, idx_max = 255\<rparr>"

definition wan_array :: "addr_info_t mgarray_t" where
  "wan_array = \<lparr>isempty_func = addr_isempty_func, entry_size = 52, total_entries = 16128, idx_min = 256, idx_max = 16383\<rparr>"

definition stream_array :: "stream_info_t mgarray_t" where
  "stream_array = \<lparr>isempty_func = stream_isempty_func, entry_size = 52, total_entries = 32768, idx_min = 0, idx_max = 32767\<rparr>"

interpretation lan: managed_array lan_array SI_NUM_ADDRS
  by unfold_locales (simp_all add: lan_array_def SI_NUM_ADDRS_def addr_slots.tst_pure addr_slots.set_taken
      addr_slots.tstset_status addr_slots.tstset_taken addr_slots.tstset_keep addr_slots.clr_avail)

interpretation wan: managed_array wan_array SI_NUM_ADDRS
  by unfold_locales (simp_all add: wan_array_def SI_NUM_ADDRS_def addr_slots.tst_pure addr_slots.set_taken
      addr_slots.tstset_status addr_slots.tstset_taken addr_slots.tstset_keep addr_slots.clr_avail)

interpretation strm: managed_array stream_array SI_NUM_STREAMS
  by unfold_locales (simp_all add: stream_array_def SI_NUM_STREAMS_def stream_slots.tst_pure stream_slots.set_taken
      stream_slots.tstset_status stream_slots.tstset_taken stream_slots.tstset_keep stream_slots.clr_avail)

definition mga_start :: "'e mgarray_t \<Rightarrow> mga_info_t" where
  "mga_start ma = \<lparr>num_entries = 0, idx_lo = mga_mid ma, idx_hi = mga_mid ma + 1\<rparr>"

lemma init_arrays:
  "mga_init m (Some es) p 52 addr_isempty_func 0 255 = (lan_array, mga_start lan_array)"
  "mga_init m (Some es) p 52 addr_isempty_func 256 16383 = (wan_array, mga_start wan_array)"
  "mga_init m' (Some es') p 52 stream_isempty_func 0 32767 = (stream_array, mga_start stream_array)"
proof -
  show "mga_init m (Some es) p 52 addr_isempty_func 0 255 = (lan_array, mga_start lan_array)"
    "mga_init m (Some es) p 52 addr_isempty_func 256 16383 = (wan_array, mga_start wan_array)"
    by (cases m; cases p; simp add: mga_init_def lan_array_def wan_array_def mga_start_def mga_mid_def)+
  show "mga_init m' (Some es') p 52 stream_isempty_func 0 32767 = (stream_array, mga_start stream_array)"
    by (cases m'; cases p; simp add: mga_init_def stream_array_def mga_start_def mga_mid_def)
qed

lemma start_fresh: "mga_fresh ma (mga_start ma)"
  by (simp add: mga_fresh_def mga_start_def)

lemma zero_untaken:
  "\<not> taken lan_array (shm_addrs zero_sharedif) i" "\<not> taken wan_array (shm_addrs zero_sharedif) i"
  "\<not> taken stream_array (shm_streams zero_sharedif) i"
  by (simp_all add: taken_def lan_array_def wan_array_def stream_array_def zero_sharedif_def
      addr_isempty_func_def stream_isempty_func_def zero_addr_info_def zero_stream_info_def zero_tval_def Let_def)

text \<open>
  Filling the LAN part of the address table takes a slot of the WAN part. From the initial
  state, 255 allocations hand out slots 0 to 255 and the 256th hands out slot 256, which belongs to
  the WAN array.
\<close>

theorem lan_array_overflows_into_wan:
  "\<exists>p es is. alloc_run 256 lan_array (mga_start lan_array) (shm_addrs zero_sharedif) =
     Inr (p, es, map Some is @ [Some 256])"
proof -
  have "taken_slots lan_array (shm_addrs zero_sharedif) = {}" by (simp add: taken_slots_def zero_untaken)
  then show ?thesis
    using lan.fill_overrun(1) [OF start_fresh, of "shm_addrs zero_sharedif"] zero_untaken(1)
    by (simp add: lan_array_def zero_sharedif_def SI_NUM_ADDRS_def)
qed

text \<open>
  Filling the stream table leaves the array. From the initial state, 32767 allocations succeed
  and the next one asks for the status of an entry past the end of \<^verbatim>\<open>streams\<close>.
\<close>

theorem stream_array_overruns:
  "(\<exists>p es is. alloc_run 32767 stream_array (mga_start stream_array) (shm_streams zero_sharedif) =
      Inr (p, es, map Some is)) \<and>
   alloc_run 32768 stream_array (mga_start stream_array) (shm_streams zero_sharedif) = Inl OutOfBounds"
proof
  have none: "taken_slots stream_array (shm_streams zero_sharedif) = {}"
    by (simp add: taken_slots_def zero_untaken)
  have len: "alen (shm_streams zero_sharedif) = SI_NUM_STREAMS" by (simp add: zero_sharedif_def)
  have total: "unat (total_entries stream_array) = 32768" "unat (idx_max stream_array) = 32767"
    "unat (entry_size stream_array) = 52" by (simp_all add: stream_array_def)
  show "alloc_run 32768 stream_array (mga_start stream_array) (shm_streams zero_sharedif) = Inl OutOfBounds"
    using strm.fill_overrun(2) [OF start_fresh none len] unfolding total by (simp add: SI_NUM_STREAMS_def)
  show "\<exists>p es is. alloc_run 32767 stream_array (mga_start stream_array) (shm_streams zero_sharedif) =
      Inr (p, es, map Some is)"
    using strm.fill_state [OF start_fresh none len, of 32767] unfolding total by force
qed

subsection \<open>Invariants\<close>

text \<open>The layout of the segment and of the static variables, which no operation changes.\<close>

definition shm_layout :: "shm_state \<Rightarrow> bool" where
  "shm_layout st \<longleftrightarrow>
     g_lan_addrs st = lan_array \<and> g_wan_addrs st = wan_array \<and> g_streams st = stream_array \<and>
     alen (shm_addrs (g_shm st)) = SI_NUM_ADDRS \<and> alen (shm_streams (g_shm st)) = SI_NUM_STREAMS \<and>
     alen (shm_protos (g_shm st)) = SI_NUM_PROTOS \<and> length (flow_stats (g_shm st)) = SI_NUM_FLOWTYPES"

text \<open>The address entries that a stream refers to are in the table.\<close>

definition refs_ok :: "stream_info_t \<Rightarrow> bool" where
  "refs_ok s \<longleftrightarrow> unat (idx_left s) < SI_NUM_ADDRS \<and> unat (idx_right s) < SI_NUM_ADDRS"

lemma hcmp_addr_zero: "hcmp_v4addr_key k1 k2 = 0 \<longleftrightarrow> k2 = k1"
proof -
  have "addr_key_bytes k1 = addr_key_bytes k2 \<longleftrightarrow> k1 = k2"
    by (cases k1; cases k2) (simp add: addr_key_bytes_def)
  then show ?thesis
    by (auto simp: hcmp_v4addr_key_def memcmp_zero addr_key_bytes_def)
qed

interpretation addr_keys:
  hashed_keys "\<lambda>p q. hcmp_v4addr_key (mem p) (mem q)" "\<lambda>p. hash_v4addr_key (mem p)" mem hash_v4addr_key
  for mem :: "'p \<Rightarrow> addr_key_t"
  by unfold_locales (simp_all add: hcmp_addr_zero)

text \<open>
  The address table: it has the functions it was given, no deallocators, its invariant holds for
  the keys in memory, and its keys are cells that have been allocated.
\<close>

definition addr_dir :: "shm_state \<Rightarrow> bool" where
  "addr_dir st \<longleftrightarrow>
     keycmp (ht_v4addrs st) = (\<lambda>mem p q. hcmp_v4addr_key (mem p) (mem q)) \<and>
     hashFunction (ht_v4addrs st) = (\<lambda>mem p. hash_v4addr_key (mem p)) \<and>
     keyDeallocator (ht_v4addrs st) = None \<and> valueDeallocator (ht_v4addrs st) = None \<and>
     ht_inv (addr_key_mem st) hash_v4addr_key (ht_v4addrs st) \<and>
     ht_keys (ht_v4addrs st) \<subseteq> AHeap ` {..< next_addr_key st}"

text \<open>The map from IPv4 addresses to slots that the table stands for.\<close>

definition addr_map :: "shm_state \<Rightarrow> u32 \<Rightarrow> nat option" where
  "addr_map st ip = ht_map (addr_key_mem st) hash_v4addr_key (ht_v4addrs st) (addr_key_init_v4 ip)"

lemma addr_key_init_inject [simp]: "addr_key_init_v4 a = addr_key_init_v4 b \<longleftrightarrow> a = b"
  by (auto simp: addr_key_init_v4_def zero_addr_def)

lemma addr_lookup_eq:
  assumes dir: "addr_dir st"
  shows "shm_addr_lookup_v4 st ip =
    Inr (addr_map st ip, case addr_map st ip of None \<Rightarrow> 0 | Some i \<Rightarrow> of_nat i)"
proof -
  define mem where "mem = (addr_key_mem st)(ALocal := addr_key_init_v4 ip)"
  have agree: "addr_key_mem st p = mem p" if "p \<in> ht_keys (ht_v4addrs st)" for p
    using that dir by (auto simp: mem_def addr_dir_def)
  have inv: "ht_inv (addr_key_mem st) hash_v4addr_key (ht_v4addrs st)" using dir by (simp add: addr_dir_def)
  note same = ht_cong [OF agree inv]
  have "addr_keys.uses mem mem (ht_v4addrs st)" using dir by (simp add: addr_keys.uses_def addr_dir_def)
  from addr_keys.get_correct [OF this same(1), of ALocal]
  have "HashTableGet mem (ht_v4addrs st) ALocal = Inr (addr_map st ip)"
    by (simp add: same(2) addr_map_def) (simp add: mem_def)
  then show ?thesis
    by (simp add: shm_addr_lookup_v4_def mem_def [symmetric] Let_def split: option.split)
qed

text \<open>Putting a new key into the table.\<close>

lemma addr_put:
  fixes st :: shm_state and ip :: u32 and i :: nat
  assumes dir: "addr_dir st"
  defines "pkey \<equiv> AHeap (next_addr_key st)"
  defines "mem \<equiv> (addr_key_mem st)(pkey := addr_key_init_v4 ip)"
  obtains ht where "HashTablePut mem True True (ht_v4addrs st) pkey i = Inr (0, mem, ht)"
    "addr_dir (st\<lparr>next_addr_key := next_addr_key st + 1, addr_key_mem := mem, ht_v4addrs := ht\<rparr>)"
    "addr_map (st\<lparr>next_addr_key := next_addr_key st + 1, addr_key_mem := mem, ht_v4addrs := ht\<rparr>) =
       (addr_map st)(ip \<mapsto> i)"
proof -
  let ?ht = "ht_v4addrs st"
  have agree: "addr_key_mem st p = mem p" if "p \<in> ht_keys ?ht" for p
    using that dir by (auto simp: mem_def pkey_def addr_dir_def)
  have inv: "ht_inv (addr_key_mem st) hash_v4addr_key ?ht" using dir by (simp add: addr_dir_def)
  note same = ht_cong [OF agree inv]
  have st: "addr_keys.steady mem mem ?ht"
    using dir same(1) by (simp add: addr_keys.steady_def addr_keys.uses_def addr_dir_def)
  from addr_keys.put_steady [OF st, of True pkey i] obtain ht where
    put: "HashTablePut mem True True ?ht pkey i = Inr (0, mem, ht)" "addr_keys.steady mem mem ht"
      "ht_map mem hash_v4addr_key ht = (ht_map mem hash_v4addr_key ?ht)(mem pkey \<mapsto> i)" .
  have fields: "keycmp ht = keycmp ?ht" "hashFunction ht = hashFunction ?ht"
    using put(1) by (auto simp: HashTablePut_def Let_def c_simps split_beta split: option.splits if_splits)
  have "numOfBuckets ?ht \<noteq> 0" using inv by (simp add: ht_inv_def)
  from put_keys [OF put(1) this] have "ht_keys ht \<subseteq> AHeap ` {..< next_addr_key st + 1}"
    using dir by (simp add: addr_dir_def pkey_def lessThan_Suc) blast
  then have "addr_dir (st\<lparr>next_addr_key := next_addr_key st + 1, addr_key_mem := mem, ht_v4addrs := ht\<rparr>)"
    using dir put(2) fields by (simp add: addr_dir_def addr_keys.steady_def)
  moreover have "addr_map (st\<lparr>next_addr_key := next_addr_key st + 1, addr_key_mem := mem, ht_v4addrs := ht\<rparr>) =
      (addr_map st)(ip \<mapsto> i)"
  proof
    fix x
    have "mem pkey = addr_key_init_v4 ip" by (simp add: mem_def)
    then show "addr_map (st\<lparr>next_addr_key := next_addr_key st + 1, addr_key_mem := mem, ht_v4addrs := ht\<rparr>) x =
        ((addr_map st)(ip \<mapsto> i)) x"
      using put(3) same(2) by (simp add: addr_map_def)
  qed
  ultimately show ?thesis using that put(1) by blast
qed

subsection \<open>Allocating addresses\<close>

text \<open>The part of the address table that an address belongs to, and its counters.\<close>

definition part_array :: "bool \<Rightarrow> addr_info_t mgarray_t" where
  "part_array is_lan = (if is_lan then lan_array else wan_array)"

definition part_info :: "shm_state \<Rightarrow> bool \<Rightarrow> mga_info_t" where
  "part_info st is_lan = (if is_lan then addr_lan_indexes (g_shm st) else addr_wan_indexes (g_shm st))"

lemma part_managed: "managed_array (part_array is_lan) SI_NUM_ADDRS"
  by (simp add: part_array_def lan.managed_array_axioms wan.managed_array_axioms)

lemma part_range:
  "unat (idx_min (part_array is_lan)) = (if is_lan then 0 else 256)"
  "unat (idx_max (part_array is_lan)) = (if is_lan then 255 else 16383)"
  by (simp_all add: part_array_def lan_array_def wan_array_def)

text \<open>A new entry in the part has a free slot and the table has memory for its key.\<close>

definition addr_room :: "shm_state \<Rightarrow> bool \<Rightarrow> bool" where
  "addr_room st is_lan \<longleftrightarrow>
     heap_ok st \<and> mga_inv (part_array is_lan) (part_info st is_lan) (shm_addrs (g_shm st)) \<and>
     num_entries (part_info st is_lan) < total_entries (part_array is_lan) \<and>
     alloc_room (part_array is_lan) (part_info st is_lan)"

lemma mga_alloc_addr_ok:
  assumes lay: "shm_layout st" and room: "addr_room st is_lan"
  obtains p i where
    "mga_alloc_addr st is_lan = Inr (Some i, st\<lparr>g_shm := (if is_lan then (g_shm st)\<lparr>addr_lan_indexes := p\<rparr>
       else (g_shm st)\<lparr>addr_wan_indexes := p\<rparr>)\<lparr>shm_addrs := managed_array.set_slot (part_array is_lan) (shm_addrs (g_shm st)) (unat i)\<rparr>\<rparr>)"
    "(if is_lan then 0 else 256) \<le> unat i" "unat i \<le> (if is_lan then 255 else 16383)"
    "\<not> taken (part_array is_lan) (shm_addrs (g_shm st)) (unat i)"
    "mga_inv (part_array is_lan) p (managed_array.set_slot (part_array is_lan) (shm_addrs (g_shm st)) (unat i))"
    "mga_alloc_entry (part_array is_lan) (part_info st is_lan) (shm_addrs (g_shm st)) =
      Inr (p, managed_array.set_slot (part_array is_lan) (shm_addrs (g_shm st)) (unat i), Some i)"
proof -
  have len: "alen (shm_addrs (g_shm st)) = SI_NUM_ADDRS" using lay by (simp add: shm_layout_def)
  from managed_array.alloc_correct [OF part_managed _ len, of is_lan "part_info st is_lan"] room
  obtain p i where run: "mga_alloc_entry (part_array is_lan) (part_info st is_lan) (shm_addrs (g_shm st)) =
      Inr (p, managed_array.set_slot (part_array is_lan) (shm_addrs (g_shm st)) (unat i), Some i)"
    and *: "mga_inv (part_array is_lan) p (managed_array.set_slot (part_array is_lan) (shm_addrs (g_shm st)) (unat i))"
      "unat (idx_min (part_array is_lan)) \<le> unat i" "unat i \<le> unat (idx_max (part_array is_lan))"
      "\<not> taken (part_array is_lan) (shm_addrs (g_shm st)) (unat i)"
    by (auto simp: addr_room_def)
  have "mga_alloc_addr st is_lan = Inr (Some i, st\<lparr>g_shm := (if is_lan then (g_shm st)\<lparr>addr_lan_indexes := p\<rparr>
       else (g_shm st)\<lparr>addr_wan_indexes := p\<rparr>)\<lparr>shm_addrs := managed_array.set_slot (part_array is_lan) (shm_addrs (g_shm st)) (unat i)\<rparr>\<rparr>)"
    using run lay by (cases is_lan) (simp_all add: mga_alloc_addr_def part_array_def part_info_def shm_layout_def)
  then show ?thesis using that *(2-4) *(1) run unfolding part_range by blast
qed

lemma addr_map_cong:
  "ht_v4addrs st' = ht_v4addrs st \<Longrightarrow> addr_key_mem st' = addr_key_mem st \<Longrightarrow> addr_map st' = addr_map st"
  "ht_v4addrs st' = ht_v4addrs st \<Longrightarrow> addr_key_mem st' = addr_key_mem st \<Longrightarrow>
   next_addr_key st' = next_addr_key st \<Longrightarrow> addr_dir st' = addr_dir st"
  by (rule ext, simp add: addr_map_def) (simp add: addr_dir_def)

lemma addr_alloc_ok:
  assumes lay: "shm_layout st" and dir: "addr_dir st" and room: "addr_room st (ipaddr_is_lan ip)"
  obtains i st' where "shm_addr_alloc_v4 st ip m = Inr (Some (unat i), i, st')"
    "(if ipaddr_is_lan ip then 0 else 256) \<le> unat i" "unat i \<le> (if ipaddr_is_lan ip then 255 else 16383)"
    "is_addr_slot_empty (aget (shm_addrs (g_shm st)) (unat i))"
    "shm_layout st'" "addr_dir st'" "addr_map st' = (addr_map st)(ip \<mapsto> unat i)"
    "\<forall>j. j \<noteq> unat i \<longrightarrow> aget (shm_addrs (g_shm st')) j = aget (shm_addrs (g_shm st)) j"
    "aget (shm_addrs (g_shm st')) (unat i) =
      \<lparr>ai_tstart = (ai_tstart (aget (shm_addrs (g_shm st)) (unat i)))\<lparr>tv_sec := 1\<rparr>, ai_iid = gAddrCount st,
       addr_offset = ip, ai_isv6 = 0, internal = (if ipaddr_is_lan ip then 1 else 0), resvd = 0, resvd2 = 0,
       nstreams = 0, nstreams_active = 0, txpackets = 0, txbytes = 0, rxpackets = 0,
       rxbytes = rxbytes (aget (shm_addrs (g_shm st)) (unat i)), txbcastpkt = 0, mac = m\<rparr>"
    "mga_inv (part_array (ipaddr_is_lan ip)) (part_info st' (ipaddr_is_lan ip)) (shm_addrs (g_shm st'))"
    "\<exists>es. mga_alloc_entry (part_array (ipaddr_is_lan ip)) (part_info st (ipaddr_is_lan ip)) (shm_addrs (g_shm st)) =
      Inr (part_info st' (ipaddr_is_lan ip), es, Some i)"
    "heap_ok st'"
proof -
  let ?l = "ipaddr_is_lan ip"
  from mga_alloc_addr_ok [OF lay room] obtain p i where al:
    "mga_alloc_addr st ?l = Inr (Some i, st\<lparr>g_shm := (if ?l then (g_shm st)\<lparr>addr_lan_indexes := p\<rparr>
       else (g_shm st)\<lparr>addr_wan_indexes := p\<rparr>)\<lparr>shm_addrs := managed_array.set_slot (part_array ?l) (shm_addrs (g_shm st)) (unat i)\<rparr>\<rparr>)"
    (is "_ = Inr (Some i, ?st1)")
    and rng: "(if ?l then 0 else 256) \<le> unat i" "unat i \<le> (if ?l then 255 else 16383)"
    and free: "\<not> taken (part_array ?l) (shm_addrs (g_shm st)) (unat i)"
    and pinv: "mga_inv (part_array ?l) p (managed_array.set_slot (part_array ?l) (shm_addrs (g_shm st)) (unat i))"
    and mrun: "mga_alloc_entry (part_array ?l) (part_info st ?l) (shm_addrs (g_shm st)) =
      Inr (p, managed_array.set_slot (part_array ?l) (shm_addrs (g_shm st)) (unat i), Some i)" by metis
  let ?es = "shm_addrs (g_shm st)"
  have len: "alen ?es = SI_NUM_ADDRS" using lay by (simp add: shm_layout_def)
  have ic: "unat i < SI_NUM_ADDRS" using rng by (simp add: SI_NUM_ADDRS_def split: if_splits)
  have func: "isempty_func (part_array ?l) = addr_isempty_func"
    by (simp add: part_array_def lan_array_def wan_array_def)
  have empty: "is_addr_slot_empty (aget ?es (unat i))"
    using free by (simp add: taken_def func addr_isempty_func_def is_addr_slot_empty_def Let_def split: if_splits)
  define e where "e = (aget ?es (unat i))\<lparr>ai_tstart := (ai_tstart (aget ?es (unat i)))\<lparr>tv_sec := 1\<rparr>\<rparr>"
  have slot: "managed_array.set_slot (part_array ?l) ?es (unat i) = ?es\<lparr>aget := (aget ?es)(unat i := e)\<rparr>"
    unfolding managed_array.set_slot_def [OF part_managed] func e_def
    using empty by (simp add: addr_isempty_func_def is_addr_slot_empty_def Let_def)
  define fill where "fill = (\<lambda>addr. addr\<lparr>internal := (if ?l then 1 else 0), ai_iid := gAddrCount st, ai_isv6 := 0,
      resvd := 0, resvd2 := 0, addr_offset := ip, nstreams := 0, nstreams_active := 0,
      txbytes := 0, txpackets := 0, rxpackets := 0, txbcastpkt := 0, mac := m\<rparr> :: addr_info_t)"
  define st2 where "st2 = ?st1\<lparr>g_shm := (g_shm ?st1)\<lparr>shm_addrs := ?es\<lparr>aget := (aget ?es)(unat i := fill e)\<rparr>\<rparr>\<rparr>"
  have upd: "shm_addr_upd ?st1 (unat i) fill = Inr st2"
    using ic len by (simp add: shm_addr_upd_def st2_def slot)
  have heap: "heap_ok st2" "heap_ok ?st1" using room by (simp_all add: st2_def addr_room_def)
  have dir2: "addr_dir (st2\<lparr>gAddrCount := gAddrCount st + 1\<rparr>)"
    and map2: "addr_map (st2\<lparr>gAddrCount := gAddrCount st + 1\<rparr>) = addr_map st"
    using dir addr_map_cong [of "st2\<lparr>gAddrCount := gAddrCount st + 1\<rparr>" st] by (simp_all add: st2_def)
  let ?pkey = "AHeap (next_addr_key st2)"
  let ?mem = "(addr_key_mem st2)(?pkey := addr_key_init_v4 ip)"
  from addr_put [OF dir2, of ip "unat i"] obtain ht where
    put: "HashTablePut ?mem True True (ht_v4addrs st2) ?pkey (unat i) = Inr (0, ?mem, ht)" and
    dir3: "addr_dir (st2\<lparr>gAddrCount := gAddrCount st + 1, next_addr_key := next_addr_key st2 + 1, addr_key_mem := ?mem, ht_v4addrs := ht\<rparr>)" and
    map3: "addr_map (st2\<lparr>gAddrCount := gAddrCount st + 1, next_addr_key := next_addr_key st2 + 1, addr_key_mem := ?mem, ht_v4addrs := ht\<rparr>) = (addr_map st)(ip \<mapsto> unat i)"
    unfolding map2 by auto
  let ?st3 = "st2\<lparr>gAddrCount := gAddrCount st + 1, next_addr_key := next_addr_key st2 + 1, addr_key_mem := ?mem, ht_v4addrs := ht\<rparr>"
  have "shm_addr_alloc_v4 st ip m = Inr (Some (unat i), i, ?st3)"
    using heap put upd unfolding shm_addr_alloc_v4_def al bind_r_simps
    by (simp add: fill_def Let_def)
  moreover have "shm_layout ?st3" using lay by (simp add: shm_layout_def st2_def)
  moreover have es3: "shm_addrs (g_shm ?st3) = ?es\<lparr>aget := (aget ?es)(unat i := fill e)\<rparr>" by (simp add: st2_def)
  moreover have p3: "part_info ?st3 ?l = p" by (simp add: part_info_def st2_def)
  moreover have "mga_inv (part_array ?l) (part_info ?st3 ?l) (shm_addrs (g_shm ?st3))"
  proof -
    have "taken (part_array ?l) (shm_addrs (g_shm ?st3)) j = taken (part_array ?l) (managed_array.set_slot (part_array ?l) ?es (unat i)) j" for j
      unfolding es3 slot by (simp add: taken_def func addr_isempty_func_def fill_def e_def Let_def)
    from mga_inv_cong [OF this] pinv show ?thesis unfolding p3 by blast
  qed
  moreover have "heap_ok ?st3" using heap by simp
  ultimately show ?thesis
    using that [of i ?st3] rng empty dir3 map3 mrun by (simp add: fill_def e_def)
qed

subsection \<open>Streams\<close>

text \<open>The stream table: like the address table, but its keys are wherever the caller kept them.\<close>

definition stream_dir :: "shm_state \<Rightarrow> bool" where
  "stream_dir st \<longleftrightarrow>
     keycmp (ht_streams st) = (\<lambda>mem p q. hcmp_stream_key (mem p) (mem q)) \<and>
     hashFunction (ht_streams st) = (\<lambda>mem p. hash_stream_key (mem p)) \<and>
     keyDeallocator (ht_streams st) = None \<and> valueDeallocator (ht_streams st) = None \<and>
     ht_inv (stream_key_mem st) hash_stream_key (ht_streams st)"

definition stream_map :: "shm_state \<Rightarrow> stream_key_t \<Rightarrow> nat option" where
  "stream_map st = ht_map (stream_key_mem st) hash_stream_key (ht_streams st)"

definition stream_room :: "shm_state \<Rightarrow> bool" where
  "stream_room st \<longleftrightarrow>
     heap_ok st \<and> mga_inv stream_array (stream_indexes (g_shm st)) (shm_streams (g_shm st)) \<and>
     num_entries (stream_indexes (g_shm st)) < total_entries stream_array \<and>
     alloc_room stream_array (stream_indexes (g_shm st))"

lemma stream_steady: "stream_dir st \<Longrightarrow> stream_keys.steady (stream_key_mem st) (stream_key_mem st) (ht_streams st)"
  by (simp add: stream_dir_def stream_keys.steady_def stream_keys.uses_def)

lemma stream_lookup_eq:
  "stream_dir st \<Longrightarrow> shm_stream_lookup st kp = Inr (stream_map st (stream_key_mem st kp))"
  by (simp add: shm_stream_lookup_def stream_map_def stream_keys.get_steady [OF stream_steady])

lemma stream_alloc_ok:
  assumes lay: "shm_layout st" and dir: "stream_dir st" and room: "stream_room st"
  obtains i st' where "shm_stream_alloc st kp = Inr (Some i, st')" "i < SI_NUM_STREAMS"
    "is_stream_slot_empty (aget (shm_streams (g_shm st)) i)" "shm_layout st'" "stream_dir st'"
    "stream_map st' = (stream_map st)(stream_key_mem st kp \<mapsto> i)" "stream_key_mem st' = stream_key_mem st"
    "ht_keys (ht_streams st') \<subseteq> insert kp (ht_keys (ht_streams st))"
    "\<forall>j. j \<noteq> i \<longrightarrow> aget (shm_streams (g_shm st')) j = aget (shm_streams (g_shm st)) j"
proof -
  let ?es = "shm_streams (g_shm st)" and ?mem = "stream_key_mem st"
  have len: "alen ?es = SI_NUM_STREAMS" using lay by (simp add: shm_layout_def)
  from strm.alloc_correct [OF _ len, of "stream_indexes (g_shm st)"] room
  obtain p i where run: "mga_alloc_entry stream_array (stream_indexes (g_shm st)) ?es =
      Inr (p, strm.set_slot ?es (unat i), Some i)"
    and rng: "unat i \<le> unat (idx_max stream_array)" and free: "\<not> taken stream_array ?es (unat i)"
    by (auto simp: stream_room_def)
  have ic: "unat i < SI_NUM_STREAMS" using rng by (simp add: stream_array_def SI_NUM_STREAMS_def)
  define st1 where "st1 = st\<lparr>g_shm := (g_shm st)\<lparr>stream_indexes := p, shm_streams := strm.set_slot ?es (unat i)\<rparr>\<rparr>"
  from stream_keys.put_steady [OF stream_steady [OF dir], of True kp "unat i"] obtain ht where
    put: "HashTablePut ?mem True True (ht_streams st) kp (unat i) = Inr (0, ?mem, ht)"
      "stream_keys.steady ?mem ?mem ht" "ht_map ?mem hash_stream_key ht = (stream_map st)(?mem kp \<mapsto> unat i)"
    unfolding stream_map_def .
  have fields: "keycmp ht = keycmp (ht_streams st)" "hashFunction ht = hashFunction (ht_streams st)"
    using put(1) by (auto simp: HashTablePut_def Let_def c_simps split_beta split: option.splits if_splits)
  have nb: "numOfBuckets (ht_streams st) \<noteq> 0" using dir by (simp add: stream_dir_def ht_inv_def)
  define fill where "fill = (\<lambda>val. val\<lparr>si_iid := gStreamCount st, flowflags := 0, si_tcpflags := 0, vlan := 0,
      packets := 0, bytes := 0, packets_rl := 0, bytes_rl := 0\<rparr> :: stream_info_t)"
  define st2 where "st2 = st1\<lparr>stream_key_mem := ?mem, ht_streams := ht\<rparr>"
  obtain st3 where st3: "shm_stream_upd st2 (unat i) fill = Inr st3"
    and st3': "st3 = st2\<lparr>g_shm := (g_shm st2)\<lparr>shm_streams := (shm_streams (g_shm st2))\<lparr>aget :=
        (aget (shm_streams (g_shm st2)))(unat i := fill (aget (shm_streams (g_shm st2)) (unat i)))\<rparr>\<rparr>\<rparr>"
    using ic len by (simp add: shm_stream_upd_def st2_def st1_def)
  let ?st' = "st3\<lparr>gStreamCount := gStreamCount st + 1\<rparr>"
  have "shm_stream_alloc st kp = Inr (Some (unat i), ?st')"
    using run lay put(1) st3 room
    by (simp add: shm_stream_alloc_def shm_layout_def stream_room_def Let_def st2_def st1_def fill_def)
  moreover have "is_stream_slot_empty (aget ?es (unat i))"
    using free by (simp add: taken_def stream_array_def stream_isempty_func_def is_stream_slot_empty_def Let_def split: if_splits)
  moreover have "shm_layout ?st'" using lay by (simp add: shm_layout_def st3' st2_def st1_def)
  moreover have "stream_dir ?st'"
    using dir put(2) fields by (simp add: stream_dir_def st3' st2_def st1_def stream_keys.steady_def)
  moreover have "stream_map ?st' = (stream_map st)(?mem kp \<mapsto> unat i)"
    using put(3) by (simp add: stream_map_def st3' st2_def st1_def)
  moreover have "stream_key_mem ?st' = ?mem" "ht_keys (ht_streams ?st') \<subseteq> insert kp (ht_keys (ht_streams st))"
    using put_keys [OF put(1) nb] by (simp_all add: st3' st2_def st1_def)
  moreover have "\<forall>j. j \<noteq> unat i \<longrightarrow> aget (shm_streams (g_shm ?st')) j = aget ?es j"
    by (simp add: st3' st2_def st1_def strm.aget_slot)
  ultimately show ?thesis using that ic by blast
qed

subsection \<open>The initial state\<close>

text \<open>Static storage before \<^verbatim>\<open>shm_data_init\<close>: null tables, zero counters.\<close>

definition null_table :: "('m, 'k, 'v) HashTable" where
  "null_table = \<lparr>numOfBuckets = 0, numOfElements = 0, bucketArray = [], idealRatio = 0, lowerRehashThreshold = 0,
     upperRehashThreshold = 0, keycmp = (\<lambda>_ _ _. 0), valuecmp = (\<lambda>_ _ _. 0), hashFunction = (\<lambda>_ _. 0),
     keyDeallocator = None, valueDeallocator = None\<rparr>"

definition shm_statics :: "bool \<Rightarrow> shm_state" where
  "shm_statics heap =
     \<lparr>g_shm = zero_sharedif, ht_streams = null_table, ht_v4addrs = null_table,
      g_lan_addrs = lan_array\<lparr>entry_size := 0, total_entries := 0, idx_max := 0\<rparr>,
      g_wan_addrs = lan_array\<lparr>entry_size := 0, total_entries := 0, idx_max := 0\<rparr>,
      g_streams = stream_array\<lparr>entry_size := 0, total_entries := 0, idx_max := 0\<rparr>,
      gAddrCount = 0, gStreamCount = 0,
      cleanup_streams_list = \<lparr>entries = None, al_num_entries = 0\<rparr>,
      cleanup_streams_wait = \<lparr>entries = None, al_num_entries = 0\<rparr>,
      stream_key_mem = (\<lambda>_. zero_key), addr_key_mem = (\<lambda>_. zero_addr), next_addr_key = 0, heap_ok = heap\<rparr>"

lemma array_rooms:
  "alloc_room lan_array (mga_start lan_array)" "alloc_room wan_array (mga_start wan_array)"
  "alloc_room stream_array (mga_start stream_array)"
  by (simp_all add: alloc_room_def mga_start_def mga_mid_def mga_more_lo_than_hi_def lan_array_def wan_array_def
      stream_array_def)

lemma start_invs:
  "mga_inv lan_array (mga_start lan_array) (shm_addrs zero_sharedif)"
  "mga_inv wan_array (mga_start wan_array) (shm_addrs zero_sharedif)"
  "mga_inv stream_array (mga_start stream_array) (shm_streams zero_sharedif)"
  by (rule lan.fresh_inv(1) wan.fresh_inv(1) strm.fresh_inv(1), rule start_fresh,
      simp add: taken_slots_def zero_untaken)+

lemma created_keys:
  "HashTableCreate a True True n = Inr (Some ht) \<Longrightarrow> ht_keys ht = {}"
  by (auto simp: HashTableCreate_def ht_keys_def c_simps)

lemma keys_setters [simp]:
  "ht_keys (HashTableSetHashFunction ht f) = ht_keys ht"
  "ht_keys (HashTableSetKeyComparisonFunction ht g) = ht_keys ht"
  by (simp_all add: ht_keys_def HashTableSetHashFunction_def HashTableSetKeyComparisonFunction_def)

lemma shm_init_ok:
  assumes "heap_ok st"
  obtains st' where "shm_data_init skaddr akaddr True st = Inr (True, st')" "shm_layout st'" "addr_dir st'"
    "stream_dir st'" "addr_map st' = Map.empty" "stream_map st' = Map.empty" "ht_keys (ht_streams st') = {}"
    "g_shm st' = zero_sharedif\<lparr>magic := SHAREDIF_MAGIC, addr_lan_indexes := mga_start lan_array,
       addr_wan_indexes := mga_start wan_array, stream_indexes := mga_start stream_array\<rparr>"
    "stream_key_mem st' = stream_key_mem st" "heap_ok st'" "numOfBuckets (ht_streams st') = 6553" "ht_vals (ht_v4addrs st') = {}"
proof -
  obtain hs :: stream_table where hs: "HashTableCreate skaddr True True 6553 = Inr (Some hs)"
    by (simp add: HashTableCreate_def)
  obtain ha :: addr_table where ha: "HashTableCreate akaddr True True 3276 = Inr (Some ha)"
    by (simp add: HashTableCreate_def)
  note cs = stream_keys.created_empty [OF hs] and ca = addr_keys.created_empty [OF ha]
  let ?hs = "HashTableSetHashFunction (HashTableSetKeyComparisonFunction hs (\<lambda>mem p q. hcmp_stream_key (mem p) (mem q)))
     (\<lambda>mem p. hash_stream_key (mem p))"
  let ?ha = "HashTableSetHashFunction (HashTableSetKeyComparisonFunction ha (\<lambda>mem p q. hcmp_v4addr_key (mem p) (mem q)))
     (\<lambda>mem p. hash_v4addr_key (mem p))"
  let ?st = "st\<lparr>g_shm := zero_sharedif\<lparr>magic := SHAREDIF_MAGIC, addr_lan_indexes := mga_start lan_array,
       addr_wan_indexes := mga_start wan_array, stream_indexes := mga_start stream_array\<rparr>,
     ht_streams := ?hs, ht_v4addrs := ?ha, g_lan_addrs := lan_array, g_wan_addrs := wan_array, g_streams := stream_array\<rparr>"
  have run: "shm_data_init skaddr akaddr True st = Inr (True, ?st)"
    using assms hs ha init_arrays
    by (simp add: shm_data_init_def Let_def SI_NUM_STREAMS_def SI_NUM_ADDRS_def)
  have dealloc: "keyDeallocator ?hs = None" "valueDeallocator ?hs = None" "keyDeallocator ?ha = None" "valueDeallocator ?ha = None"
    using cs ca by (simp_all add: HashTableSetHashFunction_def HashTableSetKeyComparisonFunction_def)
  have funs: "keycmp ?hs = (\<lambda>mem p q. hcmp_stream_key (mem p) (mem q))" "hashFunction ?hs = (\<lambda>mem p. hash_stream_key (mem p))"
    "keycmp ?ha = (\<lambda>mem p q. hcmp_v4addr_key (mem p) (mem q))" "hashFunction ?ha = (\<lambda>mem p. hash_v4addr_key (mem p))"
    "numOfBuckets ?hs = numOfBuckets hs"
    by (simp_all add: HashTableSetHashFunction_def HashTableSetKeyComparisonFunction_def)
  have "shm_layout ?st"
    by (simp add: shm_layout_def zero_sharedif_def)
  moreover have "addr_dir ?st" using ca dealloc funs created_keys [OF ha] by (simp add: addr_dir_def)
  moreover have "stream_dir ?st" using cs dealloc funs by (simp add: stream_dir_def)
  moreover have "addr_map ?st = Map.empty" using ca by (auto simp: addr_map_def)
  moreover have "stream_map ?st = Map.empty" using cs by (simp add: stream_map_def)
  moreover have "numOfBuckets hs = 6553" using hs by (auto simp: HashTableCreate_def c_simps)
  moreover have "ht_vals ?ha = {}" using created_keys [OF ha]
    by (simp add: ht_keys_def ht_vals_def HashTableSetHashFunction_def HashTableSetKeyComparisonFunction_def)
  ultimately show ?thesis using that [OF run] assms created_keys [OF hs] funs(5) by simp
qed

lemma init_rooms:
  assumes "g_shm st = zero_sharedif\<lparr>magic := SHAREDIF_MAGIC, addr_lan_indexes := mga_start lan_array,
       addr_wan_indexes := mga_start wan_array, stream_indexes := mga_start stream_array\<rparr>" "heap_ok st"
  shows "addr_room st is_lan" "stream_room st"
  using assms start_invs array_rooms
  by (simp_all add: addr_room_def stream_room_def part_array_def part_info_def)
     (simp_all add: mga_start_def lan_array_def wan_array_def stream_array_def)

subsection \<open>Properties\<close>

text \<open>
  C20: A new address gets a free slot of the part it belongs to, LAN or WAN, with cleared counters
  (all but \<^verbatim>\<open>rxbytes\<close>, which keeps the value the slot had). After that a lookup of the address finds the
  slot, and a lookup of any other address answers as before.
\<close>

theorem addr_alloc_then_lookup:
  assumes "shm_layout st" "addr_dir st" "addr_room st (ipaddr_is_lan ip)"
  shows "\<exists>i st'. shm_addr_alloc_v4 st ip m = Inr (Some (unat i), i, st') \<and>
    (if ipaddr_is_lan ip then unat i \<le> 255 else 256 \<le> unat i \<and> unat i < SI_NUM_ADDRS) \<and>
    is_addr_slot_empty (aget (shm_addrs (g_shm st)) (unat i)) \<and>
    shm_layout st' \<and> addr_dir st' \<and>
    (\<forall>ip'. shm_addr_lookup_v4 st' ip' = (if ip' = ip then Inr (Some (unat i), i) else shm_addr_lookup_v4 st ip')) \<and>
    (let a = aget (shm_addrs (g_shm st')) (unat i) in
       addr_offset a = ip \<and> internal a = (if ipaddr_is_lan ip then 1 else 0) \<and> mac a = m \<and>
       nstreams_active a = 0 \<and> txpackets a = 0 \<and> txbytes a = 0 \<and> rxpackets a = 0 \<and>
       rxbytes a = rxbytes (aget (shm_addrs (g_shm st)) (unat i)))"
proof -
  from addr_alloc_ok [OF assms, of m] obtain i st' where run: "shm_addr_alloc_v4 st ip m = Inr (Some (unat i), i, st')"
    and rng: "(if ipaddr_is_lan ip then 0 else 256) \<le> unat i" "unat i \<le> (if ipaddr_is_lan ip then 255 else 16383)"
    and empty: "is_addr_slot_empty (aget (shm_addrs (g_shm st)) (unat i))"
    and keep: "shm_layout st'" "addr_dir st'" and mp: "addr_map st' = (addr_map st)(ip \<mapsto> unat i)"
    and a: "aget (shm_addrs (g_shm st')) (unat i) =
      \<lparr>ai_tstart = (ai_tstart (aget (shm_addrs (g_shm st)) (unat i)))\<lparr>tv_sec := 1\<rparr>, ai_iid = gAddrCount st,
       addr_offset = ip, ai_isv6 = 0, internal = (if ipaddr_is_lan ip then 1 else 0), resvd = 0, resvd2 = 0,
       nstreams = 0, nstreams_active = 0, txpackets = 0, txbytes = 0, rxpackets = 0,
       rxbytes = rxbytes (aget (shm_addrs (g_shm st)) (unat i)), txbcastpkt = 0, mac = m\<rparr>" by metis
  have "\<forall>ip'. shm_addr_lookup_v4 st' ip' = (if ip' = ip then Inr (Some (unat i), i) else shm_addr_lookup_v4 st ip')"
    by (simp add: addr_lookup_eq [OF keep(2)] addr_lookup_eq [OF assms(2)] mp)
  moreover have "if ipaddr_is_lan ip then unat i \<le> 255 else 256 \<le> unat i \<and> unat i < SI_NUM_ADDRS"
    using rng by (auto simp: SI_NUM_ADDRS_def split: if_splits)
  ultimately show ?thesis using run empty keep by (auto simp: a Let_def)
qed

theorem addr_alloc_then_lookup_witness:
  "\<exists>st0 i st. shm_data_init (\<lambda>_. 0) (\<lambda>_. 0) True (shm_statics True) = Inr (True, st0) \<and>
     shm_addr_alloc_v4 st0 0x0101A8C0 [1, 2, 3, 4, 5, 6] = Inr (Some (unat i), i, st) \<and> unat i \<le> 255 \<and>
     shm_addr_lookup_v4 st 0x0101A8C0 = Inr (Some (unat i), i) \<and> shm_addr_lookup_v4 st 0x08080808 = Inr (None, 0)"
proof -
  have heap: "heap_ok (shm_statics True)" by (simp add: shm_statics_def)
  obtain st0 where st0: "shm_data_init (\<lambda>_. 0) (\<lambda>_. 0) True (shm_statics True) = Inr (True, st0)"
      "shm_layout st0" "addr_dir st0" "addr_map st0 = Map.empty" "heap_ok st0"
      "g_shm st0 = zero_sharedif\<lparr>magic := SHAREDIF_MAGIC, addr_lan_indexes := mga_start lan_array,
       addr_wan_indexes := mga_start wan_array, stream_indexes := mga_start stream_array\<rparr>"
    by (rule shm_init_ok [OF heap, of "\<lambda>_. 0" "\<lambda>_. 0"])
  have lan: "ipaddr_is_lan 0x0101A8C0" by code_simp
  have none: "shm_addr_lookup_v4 st0 0x08080808 = Inr (None, 0)" by (simp add: addr_lookup_eq [OF st0(3)] st0(4))
  from addr_alloc_then_lookup [OF st0(2,3) init_rooms(1) [OF st0(6,5)], of "0x0101A8C0" "[1, 2, 3, 4, 5, 6]"]
  show ?thesis using st0(1) lan none by auto
qed

text \<open>
  C34: Releasing an address entry leaves its key in the hash table. The slot is free again, yet a
  lookup of the address still finds it, as does every later packet.
\<close>

theorem addr_free_keeps_stale_entry:
  assumes lay: "shm_layout st" and dir: "addr_dir st" and found: "addr_map st ip = Some (unat i)"
    and part: "idx_min (part_array l) \<le> i" "i \<le> idx_max (part_array l)"
    and inv: "mga_inv (part_array l) (part_info st l) (shm_addrs (g_shm st))"
    and tk: "unat i \<in> taken_slots (part_array l) (shm_addrs (g_shm st))"
    and room: "free_room (part_array l) (part_info st l) (shm_addrs (g_shm st)) (unat i)"
  shows "\<exists>st'. shm_addr_free st i = Inr st' \<and> is_addr_slot_empty (aget (shm_addrs (g_shm st')) (unat i)) \<and>
    shm_addr_lookup_v4 st' ip = Inr (Some (unat i), i)"
proof -
  let ?es = "shm_addrs (g_shm st)"
  have len: "alen ?es = SI_NUM_ADDRS" using lay by (simp add: shm_layout_def)
  have "unat i \<in> window (part_array l) (part_info st l) ?es"
    using tk managed_array.taken_slots_window [OF part_managed inv] by simp
  from managed_array.free_correct [OF part_managed inv len this room] obtain p where
    run: "mga_free_entry (part_array l) (part_info st l) ?es i = Inr (p, managed_array.clr_slot (part_array l) ?es (unat i))"
    by blast
  let ?es' = "managed_array.clr_slot (part_array l) ?es (unat i)"
  let ?st' = "st\<lparr>g_shm := (if l then (g_shm st)\<lparr>addr_lan_indexes := p\<rparr> else (g_shm st)\<lparr>addr_wan_indexes := p\<rparr>)\<lparr>shm_addrs := ?es'\<rparr>\<rparr>"
  have side: "(total_entries lan_array \<le> i) = (\<not> l)"
    using part by (auto simp: part_array_def lan_array_def wan_array_def word_nat split: if_splits)
  have free: "shm_addr_free st i = Inr ?st'"
    using run lay side by (cases l) (simp_all add: shm_addr_free_def part_array_def part_info_def shm_layout_def)
  have empty: "is_addr_slot_empty (aget ?es' (unat i))"
    by (simp add: managed_array.aget_slot [OF part_managed] is_addr_slot_empty_def)
       (simp add: part_array_def lan_array_def wan_array_def addr_isempty_func_def)
  have "addr_dir ?st'" "addr_map ?st' = addr_map st"
    using dir addr_map_cong [of ?st' st] by (simp_all cong: if_cong)
  then have "shm_addr_lookup_v4 ?st' ip = Inr (Some (unat i), i)" using found by (simp add: addr_lookup_eq)
  with free empty show ?thesis by auto
qed

theorem addr_free_keeps_stale_entry_witness:
  "\<exists>st0 st i st'. shm_data_init (\<lambda>_. 0) (\<lambda>_. 0) True (shm_statics True) = Inr (True, st0) \<and>
     shm_addr_alloc_v4 st0 0x0101A8C0 [1, 2, 3, 4, 5, 6] = Inr (Some (unat i), i, st) \<and>
     shm_addr_free st i = Inr st' \<and> shm_addr_lookup_v4 st' 0x0101A8C0 = Inr (Some (unat i), i)"
proof -
  have heap: "heap_ok (shm_statics True)" by (simp add: shm_statics_def)
  obtain st0 where st0: "shm_data_init (\<lambda>_. 0) (\<lambda>_. 0) True (shm_statics True) = Inr (True, st0)"
      "shm_layout st0" "addr_dir st0" "addr_map st0 = Map.empty" "heap_ok st0"
      "g_shm st0 = zero_sharedif\<lparr>magic := SHAREDIF_MAGIC, addr_lan_indexes := mga_start lan_array,
       addr_wan_indexes := mga_start wan_array, stream_indexes := mga_start stream_array\<rparr>"
    by (rule shm_init_ok [OF heap, of "\<lambda>_. 0" "\<lambda>_. 0"])
  let ?ip = "0x0101A8C0 :: u32" and ?m = "[1, 2, 3, 4, 5, 6] :: u8 list"
  have lan: "ipaddr_is_lan ?ip = True" by code_simp
  obtain i st where run: "shm_addr_alloc_v4 st0 ?ip ?m = Inr (Some (unat i), i, st)"
    and rng: "(if ipaddr_is_lan ?ip then 0 else 256) \<le> unat i" "unat i \<le> (if ipaddr_is_lan ?ip then 255 else 16383)"
    and "is_addr_slot_empty (aget (shm_addrs (g_shm st0)) (unat i))"
    and keep: "shm_layout st" "addr_dir st" "addr_map st = (addr_map st0)(?ip \<mapsto> unat i)"
    and "\<forall>j. j \<noteq> unat i \<longrightarrow> aget (shm_addrs (g_shm st)) j = aget (shm_addrs (g_shm st0)) j"
    and entry: "aget (shm_addrs (g_shm st)) (unat i) =
      \<lparr>ai_tstart = (ai_tstart (aget (shm_addrs (g_shm st0)) (unat i)))\<lparr>tv_sec := 1\<rparr>, ai_iid = gAddrCount st0,
       addr_offset = ?ip, ai_isv6 = 0, internal = (if ipaddr_is_lan ?ip then 1 else 0), resvd = 0, resvd2 = 0,
       nstreams = 0, nstreams_active = 0, txpackets = 0, txbytes = 0, rxpackets = 0,
       rxbytes = rxbytes (aget (shm_addrs (g_shm st0)) (unat i)), txbcastpkt = 0, mac = ?m\<rparr>"
    and inv: "mga_inv (part_array (ipaddr_is_lan ?ip)) (part_info st (ipaddr_is_lan ?ip)) (shm_addrs (g_shm st))"
    and alloc: "\<exists>es. mga_alloc_entry (part_array (ipaddr_is_lan ?ip)) (part_info st0 (ipaddr_is_lan ?ip)) (shm_addrs (g_shm st0)) =
      Inr (part_info st (ipaddr_is_lan ?ip), es, Some i)"
    and "heap_ok st"
    by (rule addr_alloc_ok [OF st0(2,3) init_rooms(1) [OF st0(6,5)]])
  have a2: "unat i \<le> 255" using rng lan by simp
  obtain es where a7: "mga_alloc_entry lan_array (part_info st0 True) (shm_addrs (g_shm st0)) = Inr (part_info st True, es, Some i)"
    using alloc lan by (auto simp: part_array_def)
  have start: "shm_addrs (g_shm st0) = shm_addrs zero_sharedif" "part_info st0 True = mga_start lan_array"
    by (simp_all add: st0(6) part_info_def)
  have hi: "part_info st True = \<lparr>num_entries = 1, idx_lo = 127, idx_hi = 129\<rparr>"
    using a7 unfolding start
    by (auto simp: mga_alloc_entry_def mga_start_def mga_mid_def mga_more_lo_than_hi_def lan_array_def c_simps
        split: if_splits)
  have "free_room lan_array (part_info st True) (shm_addrs (g_shm st)) (unat i)"
    by (simp add: free_room_def hi mga_mid_def lan_array_def)
  moreover have "unat i \<in> taken_slots lan_array (shm_addrs (g_shm st))"
    using a2 by (simp add: taken_slots_def taken_def lan_array_def addr_isempty_func_def entry Let_def)
  moreover have "idx_min lan_array \<le> i" "i \<le> idx_max lan_array" using a2 by (simp_all add: lan_array_def word_nat)
  moreover have "mga_inv lan_array (part_info st True) (shm_addrs (g_shm st))" using inv lan by (simp add: part_array_def)
  moreover have "addr_map st ?ip = Some (unat i)" by (simp add: keep(3))
  ultimately have "\<exists>st'. shm_addr_free st i = Inr st' \<and> is_addr_slot_empty (aget (shm_addrs (g_shm st')) (unat i)) \<and>
      shm_addr_lookup_v4 st' ?ip = Inr (Some (unat i), i)"
    by (intro addr_free_keeps_stale_entry [OF keep(1,2), where l = True]) (simp_all add: part_array_def)
  with st0(1) run show ?thesis by blast
qed

text \<open>
  A new stream gets a free slot, and after that a lookup of its key finds the slot, as long as
  the memory behind the key pointers in the table does not change.
\<close>

theorem stream_alloc_then_lookup:
  assumes "shm_layout st" "stream_dir st" "stream_room st"
  shows "\<exists>i st'. shm_stream_alloc st kp = Inr (Some i, st') \<and> i < SI_NUM_STREAMS \<and>
    is_stream_slot_empty (aget (shm_streams (g_shm st)) i) \<and> stream_dir st' \<and>
    shm_stream_lookup st' kp = Inr (Some i) \<and>
    (\<forall>kq. stream_key_mem st kq \<noteq> stream_key_mem st kp \<longrightarrow> shm_stream_lookup st' kq = shm_stream_lookup st kq)"
proof -
  from stream_alloc_ok [OF assms, of kp] obtain i st' where
    "shm_stream_alloc st kp = Inr (Some i, st')" "i < SI_NUM_STREAMS"
    "is_stream_slot_empty (aget (shm_streams (g_shm st)) i)" and dir: "stream_dir st'" and
    mp: "stream_map st' = (stream_map st)(stream_key_mem st kp \<mapsto> i)" "stream_key_mem st' = stream_key_mem st" by metis
  moreover have "shm_stream_lookup st' kp = Inr (Some i)"
    by (simp add: stream_lookup_eq [OF dir] mp)
  moreover have "\<forall>kq. stream_key_mem st kq \<noteq> stream_key_mem st kp \<longrightarrow> shm_stream_lookup st' kq = shm_stream_lookup st kq"
    by (simp add: stream_lookup_eq [OF dir] stream_lookup_eq [OF assms(2)] mp)
  ultimately show ?thesis by blast
qed

theorem stream_alloc_then_lookup_witness:
  "\<exists>st0 i st. shm_data_init (\<lambda>_. 0) (\<lambda>_. 0) True (shm_statics True) = Inr (True, st0) \<and>
     shm_stream_alloc st0 7 = Inr (Some i, st) \<and> shm_stream_lookup st 7 = Inr (Some i)"
proof -
  have heap: "heap_ok (shm_statics True)" by (simp add: shm_statics_def)
  obtain st0 where st0: "shm_data_init (\<lambda>_. 0) (\<lambda>_. 0) True (shm_statics True) = Inr (True, st0)"
      "shm_layout st0" "stream_dir st0" "heap_ok st0"
      "g_shm st0 = zero_sharedif\<lparr>magic := SHAREDIF_MAGIC, addr_lan_indexes := mga_start lan_array,
       addr_wan_indexes := mga_start wan_array, stream_indexes := mga_start stream_array\<rparr>"
    by (rule shm_init_ok [OF heap, of "\<lambda>_. 0" "\<lambda>_. 0"])
  from stream_alloc_then_lookup [OF st0(2,3) init_rooms(2) [OF st0(5,4)], of 7] st0(1)
  show ?thesis by blast
qed

text \<open>
  The table does not copy keys. While every pointer it holds is the address of one variable, which
  holds the key of the current packet, a lookup finds the first entry of the bucket whatever its key
  was.
\<close>

lemma aliased_lookup:
  assumes dir: "keycmp (ht_streams st) = (\<lambda>mem p q. hcmp_stream_key (mem p) (mem q))"
    and idx: "bucket_index (stream_key_mem st) (ht_streams st) kp = Inr n"
    and keys: "ht_keys (ht_streams st) \<subseteq> {kp}" and some: "bucketArray (ht_streams st) ! n \<noteq> []"
  shows "shm_stream_lookup st kp = Inr (Some (snd (hd (bucketArray (ht_streams st) ! n))))"
proof -
  let ?b = "bucketArray (ht_streams st) ! n"
  have n: "n < length (bucketArray (ht_streams st))"
    using idx by (auto simp: bucket_index_def Let_def split: if_splits)
  obtain pr rest where b: "?b = pr # rest" using some by (cases ?b) auto
  have "fst pr = kp" using keys b nth_mem [OF n] by (force simp: ht_keys_def)
  then have "find_pair (keycmp (ht_streams st) (stream_key_mem st) kp) ?b = Some 0"
    by (simp add: b dir hcmp_zero)
  then show ?thesis by (simp add: shm_stream_lookup_def HashTableGet_def idx Let_def b)
qed

text \<open>
  Two conversations are taken for one when their keys have the same hash. The stream of the first
  packet is entered under the address of the local variable that holds its key; when the next packet's
  key is in that variable, its lookup finds the stream of the first, although the keys differ.
\<close>

theorem streams_conflated:
  assumes heap: "heap_ok st0" and collide: "hash_stream_key k1 = hash_stream_key k2"
  shows "\<exists>st i st1. shm_data_init skaddr akaddr True st0 = Inr (True, st) \<and>
    shm_stream_alloc (st\<lparr>stream_key_mem := (stream_key_mem st)(kp := k1)\<rparr>) kp = Inr (Some i, st1) \<and>
    shm_stream_lookup (st1\<lparr>stream_key_mem := (stream_key_mem st1)(kp := k2)\<rparr>) kp = Inr (Some i)"
proof -
  obtain st where init: "shm_data_init skaddr akaddr True st0 = Inr (True, st)" and lay: "shm_layout st" and
    "addr_dir st" and dir: "stream_dir st" and "addr_map st = Map.empty" and none: "stream_map st = Map.empty"
    "ht_keys (ht_streams st) = {}"
    and shm: "g_shm st = zero_sharedif\<lparr>magic := SHAREDIF_MAGIC, addr_lan_indexes := mga_start lan_array,
       addr_wan_indexes := mga_start wan_array, stream_indexes := mga_start stream_array\<rparr>"
    and "stream_key_mem st = stream_key_mem st0" and heap1: "heap_ok st" and "numOfBuckets (ht_streams st) = 6553"
    by (rule shm_init_ok [OF heap])
  let ?st = "st\<lparr>stream_key_mem := (stream_key_mem st)(kp := k1)\<rparr>"
  have "ht_inv (stream_key_mem st) hash_stream_key (ht_streams st)" using dir by (simp add: stream_dir_def)
  from ht_cong [OF _ this, of "stream_key_mem ?st"] none
  have inv: "ht_inv (stream_key_mem ?st) hash_stream_key (ht_streams st)" by auto
  have lay': "shm_layout ?st" using lay by (simp add: shm_layout_def)
  have dir': "stream_dir ?st" using dir inv by (simp add: stream_dir_def)
  have room': "stream_room ?st" using init_rooms(2) [OF shm heap1] by (simp add: stream_room_def)
  obtain i st1 where al: "shm_stream_alloc ?st kp = Inr (Some i, st1)" and "i < SI_NUM_STREAMS"
    and "is_stream_slot_empty (aget (shm_streams (g_shm ?st)) i)" and "shm_layout st1" and dir1: "stream_dir st1"
    and map1: "stream_map st1 = (stream_map ?st)(stream_key_mem ?st kp \<mapsto> i)" and mem1: "stream_key_mem st1 = stream_key_mem ?st"
    and keys1: "ht_keys (ht_streams st1) \<subseteq> insert kp (ht_keys (ht_streams ?st))"
    and "\<forall>j. j \<noteq> i \<longrightarrow> aget (shm_streams (g_shm st1)) j = aget (shm_streams (g_shm ?st)) j"
    by (rule stream_alloc_ok [OF lay' dir' room', of kp])
  let ?ht = "ht_streams st1" and ?n = "bucket_of hash_stream_key (ht_streams st1) k1"
  let ?st2 = "st1\<lparr>stream_key_mem := (stream_key_mem st1)(kp := k2)\<rparr>"
  have inv1: "ht_inv (stream_key_mem st1) hash_stream_key ?ht" "keycmp ?ht = (\<lambda>mem p q. hcmp_stream_key (mem p) (mem q))"
    "hashFunction ?ht = (\<lambda>mem p. hash_stream_key (mem p))" using dir1 by (simp_all add: stream_dir_def)
  have n: "?n < length (bucketArray ?ht)" using inv1(1) by (simp add: ht_inv_def bucket_of_less)
  have found: "map_of (content (stream_key_mem st1) (bucketArray ?ht ! ?n)) k1 = Some i"
    using fun_cong [OF map1, of k1] by (simp add: stream_map_def ht_map_def)
  have idx: "bucket_index (stream_key_mem ?st2) (ht_streams ?st2) kp = Inr ?n"
    using inv1 n by (simp add: bucket_index_def ht_inv_def bucket_of_def collide Let_def)
  have ne: "bucketArray ?ht ! ?n \<noteq> []" using found by auto
  have look: "shm_stream_lookup ?st2 kp = Inr (Some (snd (hd (bucketArray ?ht ! ?n))))"
    using aliased_lookup [of ?st2, OF _ idx] inv1(2) keys1 none(2) ne by simp
  obtain pr rest where b: "bucketArray ?ht ! ?n = pr # rest" using ne by (cases "bucketArray ?ht ! ?n") auto
  have "set (bucketArray ?ht ! ?n) \<subseteq> set (concat (bucketArray ?ht))" using nth_mem [OF n] by auto
  then have "pr \<in> set (concat (bucketArray ?ht))" by (simp add: b)
  then have "fst pr \<in> ht_keys ?ht" by (simp add: ht_keys_def del: set_concat)
  with keys1 none(2) have "fst pr = kp" by auto
  then have "snd pr = i" using found by (simp add: b mem1)
  then show ?thesis using init al look by (auto simp: b)
qed

text \<open>
  The hash does not look at the protocol, so a TCP and a UDP conversation between the same ports of
  two hosts collide.
\<close>

theorem streams_conflated_witness:
  "let k1 = fst (net_stream_init_v4 IPPROTO_UDP 0x0201A8C0 0x08080808 1234 53);
       k2 = fst (net_stream_init_v4 IPPROTO_TCP 0x0201A8C0 0x08080808 1234 53) in
   k1 \<noteq> k2 \<and> (\<exists>st i st1. shm_data_init (\<lambda>_. 0) (\<lambda>_. 0) True (shm_statics True) = Inr (True, st) \<and>
    shm_stream_alloc (st\<lparr>stream_key_mem := (stream_key_mem st)(7 := k1)\<rparr>) 7 = Inr (Some i, st1) \<and>
    shm_stream_lookup (st1\<lparr>stream_key_mem := (stream_key_mem st1)(7 := k2)\<rparr>) 7 = Inr (Some i))"
proof -
  let ?k1 = "fst (net_stream_init_v4 IPPROTO_UDP 0x0201A8C0 0x08080808 1234 53)"
  let ?k2 = "fst (net_stream_init_v4 IPPROTO_TCP 0x0201A8C0 0x08080808 1234 53)"
  have "?k1 \<noteq> ?k2" "hash_stream_key ?k1 = hash_stream_key ?k2" by code_simp+
  moreover have "heap_ok (shm_statics True)" by (simp add: shm_statics_def)
  ultimately show ?thesis using streams_conflated [of "shm_statics True" ?k1 ?k2 "\<lambda>_. 0" "\<lambda>_. 0" 7] by (simp add: Let_def)
qed

end
