(* ===== verification/Cleanup.thy ===== *)
theory Cleanup
  imports ShmData
begin

text \<open>
  Releasing streams (\<^verbatim>\<open>capture/cleanup.c\<close> and \<^verbatim>\<open>find_expired_streams\<close> of \<^verbatim>\<open>common/shmdata.c\<close>): a main list of
  streams that the next cleanup releases and a wait list for those that the statistics process has
  not seen yet. The lists hold pointers to streams, which are indices here.
\<close>

subsection \<open>The code\<close>

definition STAT_PROCESS_TIME_SEC :: u32 where "STAT_PROCESS_TIME_SEC = 15"
definition STREAM_EXPIRED_SEC :: u32 where "STREAM_EXPIRED_SEC = 30"

text \<open>\<^verbatim>\<open>i\<close>, the number of entries in use, is the length of the list.\<close>

definition alist_alloc :: "bool \<Rightarrow> nat \<Rightarrow> alist_t" where
  "alist_alloc ok n = \<lparr>entries = (if ok then Some [] else None), al_num_entries = of_nat n\<rparr>"

definition cleanup_init :: "shm_state \<Rightarrow> shm_state" where
  "cleanup_init st =
     st\<lparr>cleanup_streams_list := alist_alloc (heap_ok st) (SI_NUM_STREAMS div 10),
        cleanup_streams_wait := alist_alloc (heap_ok st) (SI_NUM_STREAMS div 20)\<rparr>"

definition alist_items :: "alist_t \<Rightarrow> nat list" where
  "alist_items l = (case entries l of None \<Rightarrow> [] | Some es \<Rightarrow> es)"

definition alist_is_empty :: "alist_t \<Rightarrow> bool" where
  "alist_is_empty l \<longleftrightarrow> length (alist_items l) = 0"

text \<open>An entry that has no room is dropped.\<close>

definition LIST_ADD :: "alist_t \<Rightarrow> nat \<Rightarrow> alist_t c_result" where
  "LIST_ADD l val =
     (if unat (al_num_entries l) \<le> length (alist_items l) then Inr l
      else case entries l of None \<Rightarrow> Inl NullDeref | Some es \<Rightarrow> Inr (l\<lparr>entries := Some (es @ [val])\<rparr>))"

definition alist_clear :: "alist_t \<Rightarrow> alist_t" where
  "alist_clear l = l\<lparr>entries := map_option (\<lambda>_. []) (entries l)\<rparr>"

definition add_stream_to_cleanup_list :: "u32 \<Rightarrow> nat \<Rightarrow> shm_state \<Rightarrow> shm_state c_result" where
  "add_stream_to_cleanup_list sec ss st =
     (let seconds_inside_minute = sec mod 60 in
      if seconds_inside_minute < STAT_PROCESS_TIME_SEC \<or> seconds_inside_minute \<ge> 55
      then bind_r (LIST_ADD (cleanup_streams_list st) ss) (\<lambda>l. Inr (st\<lparr>cleanup_streams_list := l\<rparr>))
      else bind_r (LIST_ADD (cleanup_streams_wait st) ss) (\<lambda>l. Inr (st\<lparr>cleanup_streams_wait := l\<rparr>)))"

text \<open>
  The search for idle streams over the window of the stream array. The age is an unsigned difference.
\<close>

definition check_expired :: "u32 \<Rightarrow> nat \<Rightarrow> shm_state \<Rightarrow> shm_state c_result" where
  "check_expired sec i st =
     bind_r (mga_get (g_streams st) (of_nat i)) (\<lambda>_.
     bind_r (shm_stream_rd st i) (\<lambda>ss.
       if is_stream_slot_empty ss then Inr st
       else if sec - tv_sec (si_tlast ss) > STREAM_EXPIRED_SEC then add_stream_to_cleanup_list sec i st
       else Inr st))"

definition find_expired_streams :: "u32 \<Rightarrow> shm_state \<Rightarrow> shm_state c_result" where
  "find_expired_streams sec st =
     (let p = stream_indexes (g_shm st) in
      fold_r (check_expired sec) [unat (idx_lo p + 1) ..< unat (idx_hi p)] st)"

text \<open>
  Releasing one stream. \<open>ck\<close> is the address of the local variable \<^verbatim>\<open>key\<close>. The addresses are read again
  after each counter: left and right may be the same.
\<close>

definition free_if_idle :: "u16 \<Rightarrow> shm_state \<Rightarrow> shm_state c_result" where
  "free_if_idle idx st =
     bind_r (shm_addr_rd st (unat idx)) (\<lambda>a.
       if nstreams_active a = 0 then shm_addr_free st (ucast idx) else Inr st)"

definition release_stream :: "nat \<Rightarrow> nat \<Rightarrow> shm_state \<Rightarrow> shm_state c_result" where
  "release_stream ck i st =
     bind_r (shm_stream_rd st i) (\<lambda>ss.
     bind_r (stream_init_key_from_stream st ss) (\<lambda>key.
     bind_r (shm_stream_lookup_free (st\<lparr>stream_key_mem := (stream_key_mem st)(ck := key)\<rparr>) ck) (\<lambda>st1.
     bind_r (shm_addr_get (ucast (idx_left ss))) (\<lambda>li.
     bind_r (shm_addr_get (ucast (idx_right ss))) (\<lambda>ri.
     bind_r (shm_addr_upd st1 li (\<lambda>a. a\<lparr>nstreams_active := nstreams_active a - 1\<rparr>)) (\<lambda>st2.
     bind_r (shm_addr_upd st2 ri (\<lambda>a. a\<lparr>nstreams_active := nstreams_active a - 1\<rparr>)) (\<lambda>st3.
     bind_r (free_if_idle (idx_left ss) st3) (\<lambda>st4.
     bind_r (free_if_idle (idx_right ss) st4) (\<lambda>st5.
       set_stream_slot_empty st5 i)))))))))"

definition move_wait :: "nat \<Rightarrow> shm_state \<Rightarrow> shm_state c_result" where
  "move_wait ss st = bind_r (LIST_ADD (cleanup_streams_list st) ss) (\<lambda>l. Inr (st\<lparr>cleanup_streams_list := l\<rparr>))"

definition cleanup_expired_streams :: "nat \<Rightarrow> u32 \<Rightarrow> shm_state \<Rightarrow> shm_state c_result" where
  "cleanup_expired_streams ck sec st =
     (if sec mod 60 < STAT_PROCESS_TIME_SEC \<or> alist_is_empty (cleanup_streams_list st) then Inr st
      else
        bind_r (find_expired_streams sec st) (\<lambda>st1.
        bind_r (fold_r (release_stream ck) (alist_items (cleanup_streams_list st1)) st1) (\<lambda>st2.
        let st3 = st2\<lparr>cleanup_streams_list := alist_clear (cleanup_streams_list st2)\<rparr> in
        bind_r (fold_r move_wait (alist_items (cleanup_streams_wait st3)) st3) (\<lambda>st4.
          Inr (st4\<lparr>cleanup_streams_wait := alist_clear (cleanup_streams_wait st4)\<rparr>)))))"

subsection \<open>The lists\<close>

text \<open>An allocated list that is not overfull, and a list extended by as much as it has room for.\<close>

definition alist_wf :: "alist_t \<Rightarrow> bool" where
  "alist_wf l \<longleftrightarrow> entries l \<noteq> None \<and> length (alist_items l) \<le> unat (al_num_entries l)"

definition list_extend :: "alist_t \<Rightarrow> nat list \<Rightarrow> alist_t" where
  "list_extend l vs = l\<lparr>entries := Some (take (unat (al_num_entries l)) (alist_items l @ vs))\<rparr>"

lemma items_simps [simp]:
  "alist_items (l\<lparr>entries := Some es\<rparr>) = es"
  "alist_items (alist_clear l) = []"
  "al_num_entries (alist_clear l) = al_num_entries l"
  "al_num_entries (list_extend l vs) = al_num_entries l"
  "alist_items (list_extend l vs) = take (unat (al_num_entries l)) (alist_items l @ vs)"
  by (simp_all add: alist_items_def alist_clear_def list_extend_def split: option.split)

lemma extend_wf [simp]:
  "alist_wf (list_extend l vs)"
  "alist_wf l \<Longrightarrow> alist_wf (alist_clear l)"
  by (simp_all add: alist_wf_def list_extend_def) (simp_all add: alist_clear_def)

lemma extend_Nil: "alist_wf l \<Longrightarrow> list_extend l [] = l"
  by (cases l) (auto simp: alist_wf_def list_extend_def alist_items_def)

lemma extend_extend: "list_extend (list_extend l us) vs = list_extend l (us @ vs)"
  by (auto simp: list_extend_def min_def)

lemma LIST_ADD_extend: "alist_wf l \<Longrightarrow> LIST_ADD l v = Inr (list_extend l [v])"
  by (cases l) (auto simp: LIST_ADD_def alist_wf_def list_extend_def alist_items_def split: option.splits)

subsection \<open>Finding idle streams\<close>

text \<open>The list that takes a stream at a second, and whether a stream has expired then.\<close>

definition direct :: "u32 \<Rightarrow> bool" where
  "direct sec \<longleftrightarrow> sec mod 60 < STAT_PROCESS_TIME_SEC \<or> sec mod 60 \<ge> 55"

definition queued :: "u32 \<Rightarrow> nat list \<Rightarrow> shm_state \<Rightarrow> shm_state" where
  "queued sec vs st =
     (if direct sec then st\<lparr>cleanup_streams_list := list_extend (cleanup_streams_list st) vs\<rparr>
      else st\<lparr>cleanup_streams_wait := list_extend (cleanup_streams_wait st) vs\<rparr>)"

definition lists_wf :: "shm_state \<Rightarrow> bool" where
  "lists_wf st \<longleftrightarrow> alist_wf (cleanup_streams_list st) \<and> alist_wf (cleanup_streams_wait st)"

lemma queued_fields [simp]:
  "g_shm (queued sec vs st) = g_shm st" "g_streams (queued sec vs st) = g_streams st"
  "lists_wf st \<Longrightarrow> lists_wf (queued sec vs st)"
  "shm_layout (queued sec vs st) = shm_layout st"
  by (simp_all add: queued_def lists_wf_def shm_layout_def)

lemma queued_queued: "queued sec vs (queued sec us st) = queued sec (us @ vs) st"
  by (simp add: queued_def extend_extend)

lemma queued_Nil: "lists_wf st \<Longrightarrow> queued sec [] st = st"
  by (simp add: queued_def lists_wf_def extend_Nil)

lemma add_queued: "lists_wf st \<Longrightarrow> add_stream_to_cleanup_list sec i st = Inr (queued sec [i] st)"
  by (simp add: add_stream_to_cleanup_list_def lists_wf_def LIST_ADD_extend queued_def direct_def Let_def)

definition idle :: "u32 \<Rightarrow> shm_state \<Rightarrow> nat \<Rightarrow> bool" where
  "idle sec st i \<longleftrightarrow> \<not> is_stream_slot_empty (aget (shm_streams (g_shm st)) i) \<and>
     sec - tv_sec (si_tlast (aget (shm_streams (g_shm st)) i)) > STREAM_EXPIRED_SEC"

lemma idle_queued [simp]: "idle sec (queued sec' vs st) = idle sec st"
  by (simp add: idle_def fun_eq_iff)

text \<open>The slots of the window, in the order of the search.\<close>

definition stream_window :: "shm_state \<Rightarrow> nat list" where
  "stream_window st = [unat (idx_lo (stream_indexes (g_shm st)) + 1) ..< unat (idx_hi (stream_indexes (g_shm st)))]"

lemma check_expired_eq:
  assumes "shm_layout st" "lists_wf st" "i < SI_NUM_STREAMS"
  shows "check_expired sec i st = Inr (queued sec (if idle sec st i then [i] else []) st)"
proof -
  have "unat (of_nat i :: u32) = i" using assms(3) by (simp add: SI_NUM_STREAMS_def unat_of_nat)
  then have "mga_get (g_streams st) (of_nat i) = Inr (ENTRY_PTR (g_streams st) (of_nat i))"
    using assms by (simp add: mga_get_def shm_layout_def stream_array_def word_nat SI_NUM_STREAMS_def)
  then show ?thesis
    using assms by (simp add: check_expired_def shm_stream_rd_def shm_layout_def idle_def add_queued queued_Nil)
qed

lemma search_eq:
  assumes "shm_layout st" "lists_wf st" "\<forall>i \<in> set is. i < SI_NUM_STREAMS"
  shows "fold_r (check_expired sec) is st = Inr (queued sec (filter (idle sec st) is) st)"
  using assms
proof (induction "is" arbitrary: st)
  case (Cons i "is")
  then show ?case by (simp add: check_expired_eq queued_queued)
qed (simp add: queued_Nil)

lemma stream_window_range:
  assumes "covers stream_array (stream_indexes (g_shm st)) es"
  shows "\<forall>i \<in> set (stream_window st). i < SI_NUM_STREAMS"
  using assms by (simp add: covers_def stream_window_def stream_array_def SI_NUM_STREAMS_def)

lemma find_expired_eq:
  assumes "shm_layout st" "lists_wf st" "covers stream_array (stream_indexes (g_shm st)) (shm_streams (g_shm st))"
  shows "find_expired_streams sec st = Inr (queued sec (filter (idle sec st) (stream_window st)) st)"
  using search_eq [OF assms(1,2) stream_window_range [OF assms(3)]]
  by (simp add: find_expired_streams_def stream_window_def Let_def)

subsection \<open>Cleaning up\<close>

definition lists_of :: "shm_state \<Rightarrow> alist_t \<times> alist_t" where
  "lists_of st = (cleanup_streams_list st, cleanup_streams_wait st)"

lemma lists_frame:
  "shm_addr_upd st i f = Inr st' \<Longrightarrow> lists_of st' = lists_of st"
  "shm_addr_free st idx = Inr st' \<Longrightarrow> lists_of st' = lists_of st"
  "free_if_idle idx' st = Inr st' \<Longrightarrow> lists_of st' = lists_of st"
  "set_stream_slot_empty st i = Inr st' \<Longrightarrow> lists_of st' = lists_of st"
  "shm_stream_lookup_free st kp = Inr st' \<Longrightarrow> lists_of st' = lists_of st"
  by (auto simp: shm_addr_upd_def shm_addr_free_def free_if_idle_def set_stream_slot_empty_def
      shm_stream_lookup_free_def lists_of_def c_simps split: if_splits)

lemma release_lists: "release_stream ck i st = Inr st' \<Longrightarrow> lists_of st' = lists_of st"
  by (auto simp: release_stream_def c_simps dest!: lists_frame) (simp_all add: lists_of_def)

lemma releases_lists: "fold_r (release_stream ck) is st = Inr st' \<Longrightarrow> lists_of st' = lists_of st"
  by (rule fold_r_keeps [where P = "\<lambda>s. lists_of s = lists_of st"]) (auto dest: release_lists)

lemma move_waits:
  assumes "alist_wf (cleanup_streams_list st)"
  shows "fold_r move_wait is st = Inr (st\<lparr>cleanup_streams_list := list_extend (cleanup_streams_list st) is\<rparr>)"
  using assms
  by (induction "is" arbitrary: st) (simp_all add: move_wait_def LIST_ADD_extend extend_Nil extend_extend)

text \<open>The main list has room for all of the wait list.\<close>

definition cleanup_room :: "shm_state \<Rightarrow> bool" where
  "cleanup_room st \<longleftrightarrow> al_num_entries (cleanup_streams_wait st) \<le> al_num_entries (cleanup_streams_list st)"

lemma init_lists:
  assumes "heap_ok st"
  shows "lists_wf (cleanup_init st)" "cleanup_room (cleanup_init st)"
    "alist_items (cleanup_streams_list (cleanup_init st)) = []" "alist_items (cleanup_streams_wait (cleanup_init st)) = []"
  using assms
  by (simp_all add: cleanup_init_def lists_wf_def cleanup_room_def alist_wf_def alist_alloc_def alist_items_def
      SI_NUM_STREAMS_def)

text \<open>The wait list becomes the main list.\<close>

definition cycled :: "shm_state \<Rightarrow> shm_state" where
  "cycled st = st\<lparr>cleanup_streams_list := (cleanup_streams_list st)\<lparr>entries := entries (cleanup_streams_wait st)\<rparr>,
                  cleanup_streams_wait := (cleanup_streams_wait st)\<lparr>entries := Some []\<rparr>\<rparr>"

lemma cycle_eq:
  assumes "lists_wf st" "cleanup_room st"
  shows "(let st3 = st\<lparr>cleanup_streams_list := alist_clear (cleanup_streams_list st)\<rparr> in
     bind_r (fold_r move_wait (alist_items (cleanup_streams_wait st3)) st3) (\<lambda>st4.
       Inr (st4\<lparr>cleanup_streams_wait := alist_clear (cleanup_streams_wait st4)\<rparr>))) = Inr (cycled st)"
proof -
  obtain es where es: "entries (cleanup_streams_wait st) = Some es" and len: "length es \<le> unat (al_num_entries (cleanup_streams_list st))"
    using assms by (auto simp: lists_wf_def alist_wf_def cleanup_room_def word_nat alist_items_def)
  have "list_extend (alist_clear (cleanup_streams_list st)) es =
      (cleanup_streams_list st)\<lparr>entries := Some es\<rparr>"
    using len by (simp add: list_extend_def)
  moreover have "alist_clear (cleanup_streams_wait st) = (cleanup_streams_wait st)\<lparr>entries := Some []\<rparr>"
    by (simp add: alist_clear_def es)
  ultimately show ?thesis
    using assms es by (simp add: Let_def move_waits lists_wf_def alist_items_def cycled_def)
qed

text \<open>
  The pass step by step: the search and the moves between the lists never fault, what is left is the release of the streams on the
  main list.
\<close>

lemma cleanup_eq:
  assumes "shm_layout st" "lists_wf st" "cleanup_room st"
    "covers stream_array (stream_indexes (g_shm st)) (shm_streams (g_shm st))"
    and "\<not> sec mod 60 < 15" "alist_items (cleanup_streams_list st) \<noteq> []"
  defines "found \<equiv> filter (idle sec st) (stream_window st)"
  defines "st1 \<equiv> (if sec mod 60 \<ge> 55 then st\<lparr>cleanup_streams_list := list_extend (cleanup_streams_list st) found\<rparr>
     else st\<lparr>cleanup_streams_wait := list_extend (cleanup_streams_wait st) found\<rparr>)"
  shows "cleanup_expired_streams ck sec st =
    bind_r (fold_r (release_stream ck) (alist_items (cleanup_streams_list st1)) st1) (\<lambda>st2. Inr (cycled st2))"
proof -
  have st1: "st1 = queued sec found st" using assms(5) by (simp add: st1_def queued_def direct_def STAT_PROCESS_TIME_SEC_def)
  have wf: "lists_wf st1" "cleanup_room st1" using assms(2,3) by (auto simp: st1_def lists_wf_def cleanup_room_def)
  have tail: "bind_r (fold_r (release_stream ck) is st1) (\<lambda>st2.
        let st3 = st2\<lparr>cleanup_streams_list := alist_clear (cleanup_streams_list st2)\<rparr> in
        bind_r (fold_r move_wait (alist_items (cleanup_streams_wait st3)) st3) (\<lambda>st4.
          Inr (st4\<lparr>cleanup_streams_wait := alist_clear (cleanup_streams_wait st4)\<rparr>))) =
      bind_r (fold_r (release_stream ck) is st1) (\<lambda>st2. Inr (cycled st2))" for "is"
  proof (rule bind_r_cong [OF refl])
    fix st2 assume "fold_r (release_stream ck) is st1 = Inr st2"
    from releases_lists [OF this] wf have "lists_wf st2" "cleanup_room st2"
      by (simp_all add: lists_of_def lists_wf_def cleanup_room_def)
    then show "(let st3 = st2\<lparr>cleanup_streams_list := alist_clear (cleanup_streams_list st2)\<rparr> in
        bind_r (fold_r move_wait (alist_items (cleanup_streams_wait st3)) st3) (\<lambda>st4.
          Inr (st4\<lparr>cleanup_streams_wait := alist_clear (cleanup_streams_wait st4)\<rparr>))) = Inr (cycled st2)"
      by (rule cycle_eq)
  qed
  have "find_expired_streams sec st = Inr st1"
    using find_expired_eq [OF assms(1,2,4)] by (simp add: st1 found_def)
  then show ?thesis
    using assms(5,6) tail by (simp add: cleanup_expired_streams_def alist_is_empty_def STAT_PROCESS_TIME_SEC_def)
qed

text \<open>
  The search for idle streams does not look at \<^verbatim>\<open>FLOW_FLAG_CLEANUP\<close>. A finished stream that is on
  the main list already is put there a second time when it is idle, and the pass releases it twice,
  which takes two off the stream counters of its addresses.
\<close>

theorem finished_stream_queued_twice:
  assumes "shm_layout st" "lists_wf st"
    "mga_inv stream_array (stream_indexes (g_shm st)) (shm_streams (g_shm st))"
    and i: "i \<in> set (alist_items (cleanup_streams_list st))" "i \<in> set (stream_window st)" "idle sec st i"
    and sec: "sec mod 60 \<ge> 55"
    and room: "length (alist_items (cleanup_streams_list st)) + length (filter (idle sec st) (stream_window st)) \<le>
      unat (al_num_entries (cleanup_streams_list st))"
  shows "\<exists>st1. find_expired_streams sec st = Inr st1 \<and> 2 \<le> count_list (alist_items (cleanup_streams_list st1)) i"
proof -
  let ?found = "filter (idle sec st) (stream_window st)"
  have "alist_items (cleanup_streams_list (queued sec ?found st)) = alist_items (cleanup_streams_list st) @ ?found"
    using sec room by (simp add: queued_def direct_def)
  moreover have "1 \<le> count_list (alist_items (cleanup_streams_list st)) i" "1 \<le> count_list ?found i"
    using i by (simp_all add: Suc_le_eq count_list_0_iff flip: neq0_conv)
  ultimately show ?thesis using find_expired_eq [OF assms(1,2) inv_covers [OF assms(3)], of sec] by simp
qed

text \<open>A segment with one stream, in the middle slot, whose last packet was at second \<open>t\<close>.\<close>

definition one_stream_shm :: "u32 \<Rightarrow> sharedif_t" where
  "one_stream_shm t = zero_sharedif\<lparr>stream_indexes := \<lparr>num_entries = 1, idx_lo = 16383, idx_hi = 16385\<rparr>,
     shm_streams := (shm_streams zero_sharedif)\<lparr>aget := (\<lambda>_. zero_stream_info)(16384 :=
       zero_stream_info\<lparr>si_tstart := \<lparr>tv_sec = t, tv_usec = 0\<rparr>, si_tlast := \<lparr>tv_sec = t, tv_usec = 0\<rparr>\<rparr>)\<rparr>\<rparr>"

lemma one_stream_inv:
  assumes "t \<noteq> 0"
  shows "mga_inv stream_array (stream_indexes (one_stream_shm t)) (shm_streams (one_stream_shm t))"
proof -
  have tk: "taken stream_array (shm_streams (one_stream_shm t)) i \<longleftrightarrow> i = 16384" for i
    using assms by (simp add: taken_def one_stream_shm_def stream_array_def stream_isempty_func_def zero_stream_info_def
        zero_tval_def Let_def)
  have "window stream_array (stream_indexes (one_stream_shm t)) (shm_streams (one_stream_shm t)) = {16384}"
    by (auto simp: window_def tk) (simp_all add: one_stream_shm_def)
  then show ?thesis
    by (auto simp: mga_inv_def tk) (simp_all add: one_stream_shm_def stream_array_def mga_mid_def)
qed

theorem finished_stream_queued_twice_witness:
  "\<exists>st0. shm_data_init (\<lambda>_. 0) (\<lambda>_. 0) True (shm_statics True) = Inr (True, st0) \<and>
    (let st = (cleanup_init st0)\<lparr>g_shm := one_stream_shm 1,
       cleanup_streams_list := list_extend (cleanup_streams_list (cleanup_init st0)) [16384]\<rparr> in
     \<exists>st1. find_expired_streams 175 st = Inr st1 \<and> 2 \<le> count_list (alist_items (cleanup_streams_list st1)) 16384)"
proof -
  have heap: "heap_ok (shm_statics True)" by (simp add: shm_statics_def)
  obtain st0 where st0: "shm_data_init (\<lambda>_. 0) (\<lambda>_. 0) True (shm_statics True) = Inr (True, st0)"
      "shm_layout st0" "heap_ok st0"
    by (rule shm_init_ok [OF heap, of "\<lambda>_. 0" "\<lambda>_. 0"])
  define st where "st = (cleanup_init st0)\<lparr>g_shm := one_stream_shm 1,
     cleanup_streams_list := list_extend (cleanup_streams_list (cleanup_init st0)) [16384]\<rparr>"
  note il = init_lists [OF st0(3)]
  have room: "al_num_entries (cleanup_streams_list st) = 3276"
    by (simp add: st_def) (simp add: cleanup_init_def alist_alloc_def SI_NUM_STREAMS_def)
  have items: "alist_items (cleanup_streams_list st) = [16384]"
    using il(3) room by (simp add: st_def)
  have idle: "idle 175 st 16384"
    by (simp add: idle_def is_stream_slot_empty_def st_def one_stream_shm_def STREAM_EXPIRED_SEC_def)
  have win: "stream_window st = [16384]"
    by (simp add: stream_window_def st_def one_stream_shm_def upt_rec [of 16384])
  have "shm_layout st" using st0(2) by (simp add: shm_layout_def st_def cleanup_init_def one_stream_shm_def) (simp add: zero_sharedif_def)
  moreover have "lists_wf st" using il(1) by (simp add: st_def lists_wf_def)
  moreover have "mga_inv stream_array (stream_indexes (g_shm st)) (shm_streams (g_shm st))"
    using one_stream_inv [of 1] by (simp add: st_def)
  ultimately have "\<exists>st1. find_expired_streams 175 st = Inr st1 \<and> 2 \<le> count_list (alist_items (cleanup_streams_list st1)) 16384"
    using finished_stream_queued_twice [of st 16384 175] items idle win room by simp
  then show ?thesis using st0(1) by (auto simp: st_def Let_def)
qed

subsection \<open>Releasing a stream\<close>

text \<open>The key a stream entry stands for: its protocol and ports with the addresses of its two entries.\<close>

definition key_of_stream :: "shm_state \<Rightarrow> stream_info_t \<Rightarrow> stream_key_t" where
  "key_of_stream st s =
     (let A = aget (shm_addrs (g_shm st)) in
      fst (net_stream_init_v4 (si_ipproto s) (addr_offset (A (unat (idx_left s)))) (addr_offset (A (unat (idx_right s))))
        (si_lport s) (si_rport s)))"

lemma addr_get_u16: "unat (i :: u16) < SI_NUM_ADDRS \<Longrightarrow> shm_addr_get (ucast i) = Inr (unat i)"
  by (simp add: shm_addr_get_def)

text \<open>
  Both parts of the address array in order. An entry whose part holds at least one more entry can be
  released, and the other part does not notice.
\<close>

definition addr_parts :: "shm_state \<Rightarrow> bool" where
  "addr_parts st \<longleftrightarrow> (\<forall>b. mga_inv (part_array b) (part_info st b) (shm_addrs (g_shm st)))"

definition part_slots :: "shm_state \<Rightarrow> nat \<Rightarrow> nat set" where
  "part_slots st x = taken_slots (part_array (x < 256)) (shm_addrs (g_shm st))"

definition idle_clear :: "addr_info_t \<Rightarrow> addr_info_t" where
  "idle_clear a = (if nstreams_active a = 0 then snd (addr_isempty_func a MGA_OP_CLR) else a)"

definition drop_stream :: "addr_info_t \<Rightarrow> addr_info_t" where
  "drop_stream a = a\<lparr>nstreams_active := nstreams_active a - 1\<rparr>"

text \<open>The state with other address entries and windows.\<close>

definition with_addrs :: "mga_info_t \<Rightarrow> mga_info_t \<Rightarrow> (nat \<Rightarrow> addr_info_t) \<Rightarrow> shm_state \<Rightarrow> shm_state" where
  "with_addrs p q A st = st\<lparr>g_shm := (g_shm st)\<lparr>addr_lan_indexes := p, addr_wan_indexes := q,
     shm_addrs := (shm_addrs (g_shm st))\<lparr>aget := A\<rparr>\<rparr>\<rparr>"

lemma with_addrs_simps [simp]:
  "aget (shm_addrs (g_shm (with_addrs p q A st))) = A" "shm_layout (with_addrs p q A st) = shm_layout st"
  "with_addrs p' q' A' (with_addrs p q A st) = with_addrs p' q' A' st"
  by (simp_all add: with_addrs_def shm_layout_def)

lemma mga_inv_range:
  assumes "mga_inv ma p es" "\<And>i. rmin ma \<le> i \<Longrightarrow> i \<le> rmax ma \<Longrightarrow> taken ma es' i = taken ma es i"
  shows "mga_inv ma p es'"
proof -
  have "window ma p es' = window ma p es"
    using assms by (auto simp: mga_inv_def window_def)
  then show ?thesis using assms by (simp add: mga_inv_def)
qed

lemma part_func: "isempty_func (part_array b) = addr_isempty_func"
  by (simp add: part_array_def lan_array_def wan_array_def)

lemma taken_addr: "taken (part_array b) es i \<longleftrightarrow> tv_sec (ai_tstart (aget es i)) \<noteq> 0"
  by (simp add: taken_def part_func addr_isempty_func_def Let_def)

lemma clear_fields [simp]:
  "nstreams_active (snd (addr_isempty_func a MGA_OP_CLR)) = nstreams_active a"
  "tv_sec (ai_tstart (snd (addr_isempty_func a MGA_OP_CLR))) = 0"
  by (simp_all add: addr_isempty_func_def)

lemma drop_fields [simp]: "ai_tstart (drop_stream a) = ai_tstart a" "nstreams_active (drop_stream a) = nstreams_active a - 1"
  by (simp_all add: drop_stream_def)

lemma free_if_idle_ok:
  fixes st :: shm_state and idx :: u16
  defines "x \<equiv> unat idx" and "A \<equiv> aget (shm_addrs (g_shm st))"
  assumes lay: "shm_layout st" and parts: "addr_parts st" and x: "x < SI_NUM_ADDRS"
    and idle: "nstreams_active (A x) = 0 \<Longrightarrow> x \<in> part_slots st x \<and> part_slots st x - {x} \<noteq> {}"
  obtains p q where "free_if_idle idx st = Inr (with_addrs p q (A(x := idle_clear (A x))) st)"
    "addr_parts (with_addrs p q (A(x := idle_clear (A x))) st)"
proof (cases "nstreams_active (A x) = 0")
  case False
  have "A(x := idle_clear (A x)) = A" using False by (simp add: idle_clear_def)
  then show ?thesis
    using that [where p = "addr_lan_indexes (g_shm st)" and q = "addr_wan_indexes (g_shm st)"] False parts x lay
    by (simp add: free_if_idle_def shm_addr_rd_def shm_layout_def A_def x_def with_addrs_def)
next
  case True
  let ?b = "x < 256" and ?es = "shm_addrs (g_shm st)" and ?i = "ucast idx :: u32"
  have len: "alen ?es = SI_NUM_ADDRS" using lay by (simp add: shm_layout_def)
  have ix: "unat ?i = x" by (simp add: x_def)
  have inv: "mga_inv (part_array b) (part_info st b) ?es" for b using parts by (simp add: addr_parts_def)
  have sl: "x \<in> taken_slots (part_array ?b) ?es" "taken_slots (part_array ?b) ?es - {x} \<noteq> {}"
    using idle [OF True] by (simp_all add: part_slots_def)
  have win: "taken_slots (part_array ?b) ?es = window (part_array ?b) (part_info st ?b) ?es"
    by (rule managed_array.taken_slots_window [OF part_managed inv])
  have "free_room (part_array ?b) (part_info st ?b) ?es (unat ?i)"
    using sl(2) unfolding win ix free_room_def by blast
  with sl(1) obtain p' where
    run: "mga_free_entry (part_array ?b) (part_info st ?b) ?es ?i = Inr (p', managed_array.clr_slot (part_array ?b) ?es x)"
    and pinv: "mga_inv (part_array ?b) p' (managed_array.clr_slot (part_array ?b) ?es x)"
    using managed_array.free_correct [OF part_managed inv len, of ?i ?b] unfolding win ix by blast
  have es': "managed_array.clr_slot (part_array ?b) ?es x = ?es\<lparr>aget := A(x := idle_clear (A x))\<rparr>"
    using True by (simp add: managed_array.clr_slot_def [OF part_managed] part_func A_def idle_clear_def)
  let ?es' = "?es\<lparr>aget := A(x := idle_clear (A x))\<rparr>"
  have other: "mga_inv (part_array b) (part_info st b) ?es'" if "b \<noteq> ?b" for b
    by (rule mga_inv_range [OF inv]) (use that in \<open>auto simp: taken_addr A_def part_range split: if_splits\<close>)
  have side: "(total_entries lan_array \<le> ?i) = (\<not> ?b)"
    using ix by (auto simp: lan_array_def word_nat)
  show ?thesis
  proof (cases ?b)
    case b: True
    have "free_if_idle idx st = Inr (st\<lparr>g_shm := (g_shm st)\<lparr>addr_lan_indexes := p', shm_addrs := ?es'\<rparr>\<rparr>)"
      using run es' b True side lay x by (simp add: free_if_idle_def shm_addr_rd_def shm_addr_free_def A_def x_def
          shm_layout_def part_array_def part_info_def)
    moreover have "addr_parts (st\<lparr>g_shm := (g_shm st)\<lparr>addr_lan_indexes := p', shm_addrs := ?es'\<rparr>\<rparr>)"
      using pinv other [of False] b es' by (simp add: addr_parts_def all_bool_eq part_info_def)
    ultimately show ?thesis using that [where p = p' and q = "addr_wan_indexes (g_shm st)"] by (simp add: with_addrs_def)
  next
    case b: False
    have "free_if_idle idx st = Inr (st\<lparr>g_shm := (g_shm st)\<lparr>addr_wan_indexes := p', shm_addrs := ?es'\<rparr>\<rparr>)"
      using run es' b True side lay x by (simp add: free_if_idle_def shm_addr_rd_def shm_addr_free_def A_def x_def
          shm_layout_def part_array_def part_info_def)
    moreover have "addr_parts (st\<lparr>g_shm := (g_shm st)\<lparr>addr_wan_indexes := p', shm_addrs := ?es'\<rparr>\<rparr>)"
      using pinv other [of True] b es' by (simp add: addr_parts_def all_bool_eq part_info_def)
    ultimately show ?thesis using that [where p = "addr_lan_indexes (g_shm st)" and q = p'] by (simp add: with_addrs_def)
  qed
qed

lemma free_both_idle:
  fixes st :: shm_state and li ri :: u16
  defines "l \<equiv> unat li" and "r \<equiv> unat ri" and "A \<equiv> aget (shm_addrs (g_shm st))"
  assumes lay: "shm_layout st" and parts: "addr_parts st" and lr: "l < SI_NUM_ADDRS" "r < SI_NUM_ADDRS" "l \<noteq> r"
    and idle: "nstreams_active (A l) = 0 \<Longrightarrow> l \<in> part_slots st l \<and> part_slots st l - {l, r} \<noteq> {}"
      "nstreams_active (A r) = 0 \<Longrightarrow> r \<in> part_slots st r \<and> part_slots st r - {l, r} \<noteq> {}"
  obtains p q where "bind_r (free_if_idle li st) (free_if_idle ri) = Inr (with_addrs p q (A(l := idle_clear (A l), r := idle_clear (A r))) st)"
    "addr_parts (with_addrs p q (A(l := idle_clear (A l), r := idle_clear (A r))) st)"
proof -
  obtain p1 q1 where f1: "free_if_idle li st = Inr (with_addrs p1 q1 (A(l := idle_clear (A l))) st)"
      "addr_parts (with_addrs p1 q1 (A(l := idle_clear (A l))) st)"
    unfolding A_def l_def
    by (rule free_if_idle_ok [OF lay parts, of li]) (use lr idle(1) in \<open>auto simp: l_def A_def intro: that\<close>)
  let ?st = "with_addrs p1 q1 (A(l := idle_clear (A l))) st"
  have sub: "part_slots st x - {l} \<subseteq> part_slots ?st x" for x
    by (auto simp: part_slots_def taken_slots_def taken_addr A_def)
  have r': "nstreams_active ((A(l := idle_clear (A l))) r) = 0 \<Longrightarrow> r \<in> part_slots ?st r \<and> part_slots ?st r - {r} \<noteq> {}"
    using idle(2) lr(3) sub [of r] by auto
  obtain p2 q2 where "free_if_idle ri ?st = Inr (with_addrs p2 q2 ((A(l := idle_clear (A l)))(r := idle_clear (A r))) ?st)"
      "addr_parts (with_addrs p2 q2 ((A(l := idle_clear (A l)))(r := idle_clear (A r))) ?st)"
    by (rule free_if_idle_ok [of ?st ri]) (use lay f1(2) lr r' in \<open>auto simp: r_def [symmetric]\<close>)
  then show ?thesis using f1(1) that [of p2 q2] by simp
qed

lemma drop_parts:
  assumes "addr_parts st" "\<And>i. ai_tstart (A' i) = ai_tstart (aget (shm_addrs (g_shm st)) i)"
  shows "addr_parts (st\<lparr>stream_key_mem := mem, ht_streams := ht, g_shm := (g_shm st)\<lparr>shm_addrs := (shm_addrs (g_shm st))\<lparr>aget := A'\<rparr>\<rparr>\<rparr>)"
proof -
  have "mga_inv (part_array b) (part_info st b) ((shm_addrs (g_shm st))\<lparr>aget := A'\<rparr>)" for b
    by (rule mga_inv_range [of _ _ "shm_addrs (g_shm st)"]) (use assms in \<open>simp_all add: addr_parts_def taken_addr\<close>)
  from this [of True] this [of False] show ?thesis by (simp add: addr_parts_def part_info_def all_bool_eq)
qed

text \<open>What the release of a stream does before its slot is cleared.\<close>

definition dropped :: "stream_info_t \<Rightarrow> (nat \<Rightarrow> addr_info_t) \<Rightarrow> nat \<Rightarrow> addr_info_t" where
  "dropped s A = A(unat (idx_left s) := idle_clear (drop_stream (A (unat (idx_left s)))),
                   unat (idx_right s) := idle_clear (drop_stream (A (unat (idx_right s)))))"

definition last_stream :: "shm_state \<Rightarrow> u16 \<Rightarrow> bool" where
  "last_stream st x \<longleftrightarrow> nstreams_active (aget (shm_addrs (g_shm st)) (unat x)) = 1"

definition can_drop :: "shm_state \<Rightarrow> stream_info_t \<Rightarrow> bool" where
  "can_drop st s \<longleftrightarrow> (\<forall>x \<in> {idx_left s, idx_right s}. unat x < SI_NUM_ADDRS \<and>
     (last_stream st x \<longrightarrow> unat x \<in> part_slots st (unat x) \<and> part_slots st (unat x) - {unat (idx_left s), unat (idx_right s)} \<noteq> {}))"

lemma release_after_remove:
  fixes st :: shm_state and i :: nat
  defines "s \<equiv> aget (shm_streams (g_shm st)) i" and "A \<equiv> aget (shm_addrs (g_shm st))"
  assumes lay: "shm_layout st" and parts: "addr_parts st" and i: "i < SI_NUM_STREAMS"
    and drop: "can_drop st s" "idx_left s \<noteq> idx_right s" "ai_isv6 (A (unat (idx_left s))) = 0"
    and rem: "shm_stream_lookup_free (st\<lparr>stream_key_mem := (stream_key_mem st)(ck := key_of_stream st s)\<rparr>) ck =
      Inr (st\<lparr>stream_key_mem := mem, ht_streams := ht\<rparr>)"
  obtains p q where
    "release_stream ck i st = set_stream_slot_empty (with_addrs p q (dropped s A) (st\<lparr>stream_key_mem := mem, ht_streams := ht\<rparr>)) i"
    "addr_parts (with_addrs p q (dropped s A) st)"
proof -
  let ?key = "key_of_stream st s" and ?l = "unat (idx_left s)" and ?r = "unat (idx_right s)"
  have len: "alen (shm_streams (g_shm st)) = SI_NUM_STREAMS" "alen (shm_addrs (g_shm st)) = SI_NUM_ADDRS"
    using lay by (simp_all add: shm_layout_def)
  have lr: "?l < SI_NUM_ADDRS" "?r < SI_NUM_ADDRS" "?l \<noteq> ?r" using drop by (auto simp: can_drop_def word_unat_eq_iff)
  define st3 where "st3 = st\<lparr>stream_key_mem := mem, ht_streams := ht, g_shm := (g_shm st)\<lparr>shm_addrs :=
    (shm_addrs (g_shm st))\<lparr>aget := A(?l := drop_stream (A ?l), ?r := drop_stream (A ?r))\<rparr>\<rparr>\<rparr>"
  have lay3: "shm_layout st3" using lay by (simp add: st3_def shm_layout_def)
  have parts3: "addr_parts st3" unfolding st3_def by (rule drop_parts [OF parts]) (simp add: A_def)
  have A3: "aget (shm_addrs (g_shm st3)) = A(?l := drop_stream (A ?l), ?r := drop_stream (A ?r))" by (simp add: st3_def)
  have slots3: "part_slots st3 x = part_slots st x" for x
    by (simp add: part_slots_def taken_slots_def taken_addr A3) (auto simp: A_def)
  obtain p q where both: "bind_r (free_if_idle (idx_left s) st3) (free_if_idle (idx_right s)) = Inr (with_addrs p q (dropped s A) st3)"
    and parts5: "addr_parts (with_addrs p q (dropped s A) st3)"
    by (rule free_both_idle [OF lay3 parts3, of "idx_left s" "idx_right s"])
      (use lr drop(1) in \<open>auto simp: A3 slots3 fun_upd_twist [of ?l ?r] dropped_def can_drop_def last_stream_def A_def\<close>)
  have "stream_init_key_from_stream st s = Inr ?key"
    using lr drop(3) len by (simp add: stream_init_key_from_stream_def addr_get_u16 A_def shm_addr_rd_def key_of_stream_def Let_def)
  moreover have "bind_r (free_if_idle (idx_left s) st3) (\<lambda>st4. bind_r (free_if_idle (idx_right s) st4) k) = k (with_addrs p q (dropped s A) st3)"
    for k :: "shm_state \<Rightarrow> shm_state c_result"
    using both by (simp add: bind_r_assoc [symmetric])
  ultimately have run: "release_stream ck i st = set_stream_slot_empty (with_addrs p q (dropped s A) st3) i"
    using i len lr rem
    by (simp add: release_stream_def shm_stream_rd_def s_def [symmetric] addr_get_u16
        shm_addr_upd_def A_def [symmetric] st3_def drop_stream_def)
  have st3: "with_addrs p q B st3 = with_addrs p q B (st\<lparr>stream_key_mem := mem, ht_streams := ht\<rparr>)" for B
    by (simp add: with_addrs_def st3_def)
  have "addr_parts (with_addrs p q (dropped s A) st)"
    using parts5 unfolding st3 by (simp add: addr_parts_def part_info_def with_addrs_def all_bool_eq)
  then show ?thesis using that run [unfolded st3] by blast
qed

text \<open>The last step of a release, whatever has become of the addresses and the table.\<close>

lemma slot_emptied:
  fixes st :: shm_state and i :: nat
  defines "es \<equiv> shm_streams (g_shm st)"
  assumes lay: "shm_layout st" and inv: "mga_inv stream_array (stream_indexes (g_shm st)) es"
    and i: "i \<in> taken_slots stream_array es" and room: "free_room stream_array (stream_indexes (g_shm st)) es i"
  obtains w where "mga_inv stream_array w (strm.clr_slot es i)"
    "\<forall>p q A' mem ht. set_stream_slot_empty (with_addrs p q A' (st\<lparr>stream_key_mem := mem, ht_streams := ht\<rparr>)) i =
      Inr ((with_addrs p q A' (st\<lparr>stream_key_mem := mem, ht_streams := ht\<rparr>))\<lparr>g_shm := (g_shm (with_addrs p q A' st))
        \<lparr>stream_indexes := w, shm_streams := strm.clr_slot es i\<rparr>\<rparr>)"
proof -
  have len: "alen es = SI_NUM_STREAMS" using lay by (simp add: shm_layout_def es_def)
  have win: "i \<in> window stream_array (stream_indexes (g_shm st)) es" using i strm.taken_slots_window [OF inv] by simp
  have "i < SI_NUM_STREAMS" using i by (simp add: taken_slots_def stream_array_def SI_NUM_STREAMS_def)
  then have un: "unat (of_nat i :: u32) = i" by (simp add: SI_NUM_STREAMS_def unat_of_nat)
  from strm.free_correct [OF inv len, of "of_nat i"] win room obtain w where
    free: "mga_free_entry stream_array (stream_indexes (g_shm st)) es (of_nat i) = Inr (w, strm.clr_slot es i)"
      "mga_inv stream_array w (strm.clr_slot es i)" unfolding un by blast
  show ?thesis
    by (rule that [OF free(2)]) (use free(1) lay in \<open>simp add: set_stream_slot_empty_def with_addrs_def shm_layout_def es_def\<close>)
qed

lemma cleared_slot: "is_stream_slot_empty (aget (strm.clr_slot es i) i)"
  by (simp add: strm.aget_slot is_stream_slot_empty_def) (simp add: stream_array_def stream_isempty_func_def)

text \<open>A segment with one stream between the addresses 127, which has no other stream, and 128, which has one more.\<close>

definition pair_addrs :: "nat \<Rightarrow> addr_info_t" where
  "pair_addrs j = (if j \<in> {126, 127, 128}
     then zero_addr_info\<lparr>ai_tstart := \<lparr>tv_sec = 1, tv_usec = 0\<rparr>, nstreams_active := (if j = 127 then 1 else 2)\<rparr> else zero_addr_info)"

definition pair_shm :: sharedif_t where
  "pair_shm = (one_stream_shm 1)\<lparr>
     shm_streams := (shm_streams (one_stream_shm 1))\<lparr>aget := (aget (shm_streams (one_stream_shm 1)))
       (16384 := (aget (shm_streams (one_stream_shm 1)) 16384)\<lparr>idx_left := 127, idx_right := 128\<rparr>)\<rparr>,
     addr_lan_indexes := \<lparr>num_entries = 3, idx_lo = 125, idx_hi = 129\<rparr>, addr_wan_indexes := mga_start wan_array,
     shm_addrs := (shm_addrs (one_stream_shm 1))\<lparr>aget := pair_addrs\<rparr>\<rparr>"

lemma pair_taken: "taken (part_array b) (shm_addrs pair_shm) j \<longleftrightarrow> j \<in> {126, 127, 128}"
  by (simp add: taken_addr pair_shm_def) (simp add: pair_addrs_def zero_addr_info_def zero_tval_def)

lemma pair_parts: "addr_parts (st\<lparr>g_shm := pair_shm\<rparr>)"
proof -
  have "window (part_array True) (addr_lan_indexes pair_shm) (shm_addrs pair_shm) = {126, 127, 128}"
    "window (part_array False) (addr_wan_indexes pair_shm) (shm_addrs pair_shm) = {}"
    by (auto simp: window_def pair_taken) (auto simp: pair_shm_def mga_start_def mga_mid_def wan_array_def)
  then show ?thesis
    by (auto simp: addr_parts_def all_bool_eq part_info_def mga_inv_def pair_taken part_range)
      (simp_all add: pair_shm_def mga_start_def mga_mid_def wan_array_def lan_array_def part_array_def)
qed

lemma pair_stream:
  "aget (shm_streams pair_shm) 16384 = zero_stream_info\<lparr>si_tstart := \<lparr>tv_sec = 1, tv_usec = 0\<rparr>,
      si_tlast := \<lparr>tv_sec = 1, tv_usec = 0\<rparr>, idx_left := 127, idx_right := 128\<rparr>"
  "aget (shm_addrs pair_shm) = pair_addrs" "ai_isv6 (pair_addrs 127) = 0"
  by (simp_all add: pair_shm_def one_stream_shm_def) (simp add: pair_addrs_def zero_addr_info_def)

lemma pair_ready:
  "mga_inv stream_array (stream_indexes pair_shm) (shm_streams pair_shm)"
  "16384 \<in> taken_slots stream_array (shm_streams pair_shm)"
  "free_room stream_array (stream_indexes pair_shm) (shm_streams pair_shm) 16384"
  "shm_layout st \<Longrightarrow> shm_layout (st\<lparr>g_shm := pair_shm\<rparr>)"
  "can_drop (st\<lparr>g_shm := pair_shm\<rparr>) (aget (shm_streams pair_shm) 16384)"
proof -
  have "taken stream_array (shm_streams (one_stream_shm 1)) j = taken stream_array (shm_streams pair_shm) j" for j
    by (simp add: taken_def pair_shm_def stream_array_def stream_isempty_func_def Let_def)
  from mga_inv_cong [OF this] one_stream_inv [of 1] show "mga_inv stream_array (stream_indexes pair_shm) (shm_streams pair_shm)"
    by (simp add: pair_shm_def)
  show "16384 \<in> taken_slots stream_array (shm_streams pair_shm)"
    by (simp add: taken_slots_def taken_def pair_stream) (simp add: stream_array_def stream_isempty_func_def)
  show "free_room stream_array (stream_indexes pair_shm) (shm_streams pair_shm) 16384"
    by (simp add: free_room_def pair_shm_def one_stream_shm_def stream_array_def mga_mid_def)
  show "shm_layout (st\<lparr>g_shm := pair_shm\<rparr>)" if "shm_layout st"
    using that by (simp add: shm_layout_def pair_shm_def one_stream_shm_def) (simp add: zero_sharedif_def)
  have "part_slots (st\<lparr>g_shm := pair_shm\<rparr>) 127 = {126, 127, 128}" "part_slots (st\<lparr>g_shm := pair_shm\<rparr>) 128 = {126, 127, 128}"
    by (auto simp: part_slots_def taken_slots_def pair_taken part_range)
  then show "can_drop (st\<lparr>g_shm := pair_shm\<rparr>) (aget (shm_streams pair_shm) 16384)"
    by (auto simp: can_drop_def pair_stream SI_NUM_ADDRS_def)
qed

end
