(* ===== verification/Capture.thy ===== *)
theory Capture
  imports Cleanup
begin

text \<open>
  The capture process: \<^verbatim>\<open>capture/main.c\<close> handles one packet, \<^verbatim>\<open>capture/readcap.c\<close> reads packets from a capture
  file and \<^verbatim>\<open>capture/capmain.c\<close> takes them from libpcap.

  The functions that \<^verbatim>\<open>on_packet\<close> calls before and after a packet when it reads from a file
  (\<^verbatim>\<open>statproc/statproc_sim.c\<close>) are its arguments here, with a state of their own: they read the shared
  segment and do not write it.
\<close>

subsection \<open>One packet\<close>

datatype PktDir = LEFT_TO_RIGHT | RIGHT_TO_LEFT | DIR_NONE

record 's cap_state =
  cap_shm :: shm_state
  last_sec :: u32
  cap_sim :: 's

type_synonym 's sim_hook = "tval_t \<Rightarrow> sharedif_t \<Rightarrow> 's \<Rightarrow> 's c_result"

definition inc_addr_ctrs :: "nat \<Rightarrow> nat \<Rightarrow> PktDir \<Rightarrow> u32 \<Rightarrow> shm_state \<Rightarrow> shm_state c_result" where
  "inc_addr_ctrs left right dir pktlen st =
     (let (tx, rx) = (if dir = LEFT_TO_RIGHT then (left, right) else (right, left)) in
      bind_r (shm_addr_upd st tx (\<lambda>a. a\<lparr>txpackets := txpackets a + 1, txbytes := txbytes a + pktlen\<rparr>)) (\<lambda>st1.
        shm_addr_upd st1 rx (\<lambda>a. a\<lparr>rxpackets := rxpackets a + 1, rxbytes := rxbytes a + pktlen\<rparr>)))"

definition count_stream :: "addr_info_t \<Rightarrow> addr_info_t" where
  "count_stream a = a\<lparr>nstreams := nstreams a + 1, nstreams_active := nstreams_active a + 1\<rparr>"

definition inc_stream_counters :: "nat \<Rightarrow> PktDir \<Rightarrow> u32 \<Rightarrow> shm_state \<Rightarrow> shm_state c_result" where
  "inc_stream_counters si dir pktlen st =
     bind_r (shm_stream_upd st si (\<lambda>s. s\<lparr>packets := packets s + 1, bytes := bytes s + pktlen\<rparr>)) (\<lambda>st1.
     bind_r (shm_stream_rd st1 si) (\<lambda>s.
     bind_r (shm_addr_get (ucast (idx_left s))) (\<lambda>addr_left.
     bind_r (shm_addr_get (ucast (idx_right s))) (\<lambda>addr_right.
     bind_r (if packets s = 1
             then bind_r (shm_addr_upd st1 addr_left count_stream) (\<lambda>st2. shm_addr_upd st2 addr_right count_stream)
             else Inr st1) (\<lambda>st3.
       inc_addr_ctrs addr_left addr_right dir pktlen st3)))))"

definition is_web :: "u16 \<Rightarrow> bool" where
  "is_web port \<longleftrightarrow> port = 80 \<or> port = 443 \<or> port = 8080"

text \<open>The flags of a new stream; every path reads both addresses.\<close>

definition flow_flags :: "addr_info_t \<Rightarrow> addr_info_t \<Rightarrow> stream_info_t \<Rightarrow> stream_info_t" where
  "flow_flags left right ss =
     (if internal left \<noteq> 0 \<and> internal right \<noteq> 0 then ss\<lparr>flowflags := FLOW_TYPE_INTERNAL\<rparr>
      else
        let ss1 = (if is_web (si_rport ss) then ss\<lparr>flowflags := flowflags ss OR FLOW_FLAG_WEB\<rparr> else ss) in
        if internal right \<noteq> 0 then ss1\<lparr>flowflags := flowflags ss1 OR FLOW_FLAG_IN\<rparr> else ss1)"

definition set_stream_flow_flags :: "nat \<Rightarrow> nat option \<Rightarrow> nat option \<Rightarrow> shm_state \<Rightarrow> shm_state c_result" where
  "set_stream_flow_flags ss shm_left shm_right st =
     bind_r (deref shm_left) (\<lambda>l.
     bind_r (shm_addr_rd st l) (\<lambda>left.
     bind_r (deref shm_right) (\<lambda>r.
     bind_r (shm_addr_rd st r) (\<lambda>right.
       shm_stream_upd st ss (flow_flags left right)))))"

definition inc_protocol_counters :: "u8 \<Rightarrow> u16 \<Rightarrow> PktDir \<Rightarrow> u32 \<Rightarrow> shm_state \<Rightarrow> shm_state c_result" where
  "inc_protocol_counters proto port dir len st =
     (case shm_get_protocol proto port of
        None \<Rightarrow> Inr st
      | Some i \<Rightarrow>
          bind_r (arr_rd (shm_protos (g_shm st)) i) (\<lambda>entry.
          let entry1 = entry\<lparr>pi_packets := pi_packets entry + 1, pi_bytes := pi_bytes entry + len\<rparr>;
              entry2 = (if dir = RIGHT_TO_LEFT
                then entry1\<lparr>pi_packets_rl := pi_packets_rl entry1 + 1, pi_bytes_rl := pi_bytes_rl entry1 + len\<rparr>
                else entry1) in
          bind_r (arr_wr (shm_protos (g_shm st)) i entry2) (\<lambda>ps.
            Inr (st\<lparr>g_shm := (g_shm st)\<lparr>shm_protos := ps\<rparr>\<rparr>))))"

text \<open>
  The address entry of one side of a new stream: looked up, or else allocated with the hardware address
  of that side and the time of the packet. The index is 0 when there is no entry.
\<close>

definition pkt_mac_left :: "u8 list \<Rightarrow> pktinfo_t \<Rightarrow> bool \<Rightarrow> u8 list c_result" where
  "pkt_mac_left buf pktinfo is_flipped = (if is_flipped then pkt_dst_mac buf pktinfo else pkt_src_mac buf pktinfo)"

definition pkt_mac_right :: "u8 list \<Rightarrow> pktinfo_t \<Rightarrow> bool \<Rightarrow> u8 list c_result" where
  "pkt_mac_right buf pktinfo is_flipped = (if is_flipped then pkt_src_mac buf pktinfo else pkt_dst_mac buf pktinfo)"

definition addr_entry :: "u32 \<Rightarrow> u8 list c_result \<Rightarrow> tval_t \<Rightarrow> shm_state \<Rightarrow> (nat option \<times> u32 \<times> shm_state) c_result" where
  "addr_entry ip pkt_mac ts st =
     bind_r (shm_addr_lookup_v4 st ip) (\<lambda>(found, idx).
       case found of
         Some i \<Rightarrow> Inr (Some i, idx, st)
       | None \<Rightarrow>
           bind_r pkt_mac (\<lambda>m.
           bind_r (shm_addr_alloc_v4 st ip m) (\<lambda>(new, idx1, st1).
             case new of
               None \<Rightarrow> Inr (None, idx1, st1)
             | Some i \<Rightarrow> bind_r (shm_addr_upd st1 i (\<lambda>a. a\<lparr>ai_tstart := ts\<rparr>)) (\<lambda>st2. Inr (Some i, idx1, st2)))))"

text \<open>Filling in a new stream. Its slot \<open>ss\<close> has been allocated and entered in the table.\<close>

definition open_stream ::
  "u8 list \<Rightarrow> pktinfo_t \<Rightarrow> stream_key_t \<Rightarrow> bool \<Rightarrow> tval_t \<Rightarrow> nat \<Rightarrow> shm_state \<Rightarrow> shm_state c_result"
where
  "open_stream buf pktinfo key is_flipped ts ss st =
     bind_r (addr_entry (net_stream4_left key) (pkt_mac_left buf pktinfo is_flipped) ts st) (\<lambda>(shm_left, li, st1).
     bind_r (addr_entry (net_stream4_right key) (pkt_mac_right buf pktinfo is_flipped) ts st1) (\<lambda>(shm_right, ri, st2).
     bind_r (shm_stream_upd st2 ss (\<lambda>s.
               s\<lparr>si_ipproto := ipproto (v4 key), si_lport := lport (v4 key), si_rport := rport (v4 key),
                 idx_left := ucast li, idx_right := ucast ri, si_tstart := ts\<rparr>)) (\<lambda>st3.
       set_stream_flow_flags ss shm_left shm_right st3)))"

text \<open>TCP flags and the end of a TCP connection.\<close>

definition note_tcp :: "pktinfo_t \<Rightarrow> tval_t \<Rightarrow> nat \<Rightarrow> shm_state \<Rightarrow> shm_state c_result" where
  "note_tcp pktinfo ts ss st =
     (if istcp pktinfo = 0 then Inr st
      else
        bind_r (shm_stream_upd st ss (\<lambda>s. s\<lparr>si_tcpflags := si_tcpflags s OR tcpflags pktinfo\<rparr>)) (\<lambda>st1.
        bind_r (shm_stream_rd st1 ss) (\<lambda>s.
          if isfin pktinfo \<noteq> 0 \<and> flowflags s AND FLOW_FLAG_CLEANUP = 0 then
            bind_r (add_stream_to_cleanup_list (tv_sec ts) ss st1) (\<lambda>st2.
              shm_stream_upd st2 ss (\<lambda>s. s\<lparr>flowflags := flowflags s OR FLOW_FLAG_CLEANUP\<rparr>))
          else Inr st1)))"

text \<open>The second packet of a stream sets its VLAN, cut to eight bits.\<close>

definition note_vlan :: "u8 list \<Rightarrow> pktinfo_t \<Rightarrow> nat \<Rightarrow> shm_state \<Rightarrow> shm_state c_result" where
  "note_vlan buf pktinfo ss st =
     bind_r (shm_stream_rd st ss) (\<lambda>s.
       if packets s = 1
       then bind_r (pkt_get_vlan buf pktinfo) (\<lambda>v. shm_stream_upd st ss (\<lambda>s. s\<lparr>vlan := of_int v\<rparr>))
       else Inr st)"

text \<open>What every packet does to the counters of its stream \<open>ss\<close>.\<close>

definition count_packet ::
  "u8 list \<Rightarrow> pktinfo_t \<Rightarrow> pcap_pkthdr32_t \<Rightarrow> PktDir \<Rightarrow> nat \<Rightarrow> shm_state \<Rightarrow> shm_state c_result"
where
  "count_packet buf pktinfo hdr dir ss st =
     bind_r (shm_stream_upd st ss (\<lambda>s. s\<lparr>si_tlast := hdr_ts hdr\<rparr>)) (\<lambda>st1.
     bind_r (note_tcp pktinfo (hdr_ts hdr) ss st1) (\<lambda>st2.
     bind_r (note_vlan buf pktinfo ss st2) (\<lambda>st3.
     bind_r (inc_stream_counters ss dir (pkt_len hdr) st3) (\<lambda>st4.
     bind_r (shm_stream_rd st4 ss) (\<lambda>s.
     bind_r (shm_inc_flow_stats st4 s (pkt_len hdr)) (\<lambda>st5.
       inc_protocol_counters (si_ipproto s) (si_rport s) dir (pkt_len hdr) st5))))))"

text \<open>
  The stream of a packet: looked up by its key, or else allocated. There is none when no slot is free.
  \<open>kp\<close> is the address of the local variable that holds the key.
\<close>

definition find_stream ::
  "u8 list \<Rightarrow> pktinfo_t \<Rightarrow> pcap_pkthdr32_t \<Rightarrow> nat \<Rightarrow> stream_key_t \<Rightarrow> bool \<Rightarrow> shm_state \<Rightarrow> (nat option \<times> shm_state) c_result"
where
  "find_stream buf pktinfo hdr kp key is_flipped st =
     bind_r (shm_stream_lookup st kp) (\<lambda>found.
       case found of
         Some ss \<Rightarrow> Inr (Some ss, st)
       | None \<Rightarrow>
           bind_r (shm_stream_alloc st kp) (\<lambda>(new, st1).
             case new of
               None \<Rightarrow> Inr (None, st1)
             | Some ss \<Rightarrow> bind_r (open_stream buf pktinfo key is_flipped (hdr_ts hdr) ss st1) (\<lambda>st2. Inr (Some ss, st2))))"

text \<open>
  The end of the handling: the statistics of the file mode, and a cleanup when the second has changed.
  \<open>ck\<close> is the address of the local variable \<^verbatim>\<open>key\<close> of \<^verbatim>\<open>cleanup_expired_streams\<close>.
\<close>

definition finish_packet ::
  "bool \<Rightarrow> 's sim_hook \<Rightarrow> nat \<Rightarrow> tval_t \<Rightarrow> 's cap_state \<Rightarrow> (int \<times> 's cap_state) c_result"
where
  "finish_packet READ_FROM_FILE sim_after_packet ck ts c =
     bind_r (if READ_FROM_FILE
             then bind_r (sim_after_packet ts (g_shm (cap_shm c)) (cap_sim c)) (\<lambda>s. Inr (c\<lparr>cap_sim := s\<rparr>))
             else Inr c) (\<lambda>c1.
       if tv_sec ts - last_sec c1 > 0 then
         bind_r (cleanup_expired_streams ck (tv_sec ts) (cap_shm c1)) (\<lambda>st.
           Inr (0, c1\<lparr>cap_shm := st, last_sec := tv_sec ts\<rparr>))
       else Inr (0, c1))"

text \<open>The packet is that of a stream to be tracked.\<close>

definition track_packet ::
  "bool \<Rightarrow> 's sim_hook \<Rightarrow> nat \<Rightarrow> nat \<Rightarrow> pcap_pkthdr32_t \<Rightarrow> u8 list \<Rightarrow> pktinfo_t \<Rightarrow> stream_key_t \<Rightarrow> bool \<Rightarrow> 's cap_state \<Rightarrow>
    (int \<times> 's cap_state) c_result"
where
  "track_packet READ_FROM_FILE sim_after_packet kp ck hdr buf pktinfo key is_flipped c =
     bind_r (find_stream buf pktinfo hdr kp key is_flipped (cap_shm c)) (\<lambda>(found, st).
       case found of
         None \<Rightarrow> Inr (0, c\<lparr>cap_shm := st\<rparr>)
       | Some ss \<Rightarrow>
           bind_r (count_packet buf pktinfo hdr (if is_flipped then RIGHT_TO_LEFT else LEFT_TO_RIGHT) ss st) (\<lambda>st1.
             finish_packet READ_FROM_FILE sim_after_packet ck (hdr_ts hdr) (c\<lparr>cap_shm := st1\<rparr>)))"

text \<open>A packet whose headers were accepted. \<open>kp\<close> is the address of the local variable \<^verbatim>\<open>key\<close>.\<close>

definition parsed_packet ::
  "bool \<Rightarrow> 's sim_hook \<Rightarrow> nat \<Rightarrow> nat \<Rightarrow> pcap_pkthdr32_t \<Rightarrow> u8 list \<Rightarrow> pktinfo_t \<Rightarrow> 's cap_state \<Rightarrow> (int \<times> 's cap_state) c_result"
where
  "parsed_packet READ_FROM_FILE sim_after_packet kp ck hdr buf pktinfo c =
     bind_r (pkt_init_key buf pktinfo) (\<lambda>(key, is_flipped).
     let st1 = (cap_shm c)\<lparr>stream_key_mem := (stream_key_mem (cap_shm c))(kp := key)\<rparr> in
     if net_stream4_left key = 0 \<or> net_stream4_right key = 0 then Inr (0, c\<lparr>cap_shm := st1\<rparr>)
     else
       let c2 = c\<lparr>cap_shm := shm_inc_global st1 (hdr_ts hdr) (pkt_len hdr)\<rparr> in
       if pkt_is_v6 pktinfo then Inr (0, c2)
       else track_packet READ_FROM_FILE sim_after_packet kp ck hdr buf pktinfo key (is_flipped \<noteq> 0) c2)"

text \<open>
  Handling a packet; the result is always 0. The packet structure is uninitialised before \<^verbatim>\<open>net_parse\<close>, which
  leaves it so only when it reports an error.
\<close>

definition on_packet ::
  "bool \<Rightarrow> 's sim_hook \<Rightarrow> 's sim_hook \<Rightarrow> nat \<Rightarrow> nat \<Rightarrow> pcap_pkthdr32_t \<Rightarrow> u8 list \<Rightarrow> 's cap_state \<Rightarrow> (int \<times> 's cap_state) c_result"
where
  "on_packet READ_FROM_FILE sim_before_packet sim_after_packet kp ck hdr buf c =
     bind_r (if READ_FROM_FILE
             then bind_r (sim_before_packet (hdr_ts hdr) (g_shm (cap_shm c)) (cap_sim c)) (\<lambda>s. Inr (c\<lparr>cap_sim := s\<rparr>))
             else Inr c) (\<lambda>c1.
     bind_r (net_parse hdr buf pkt_init) (\<lambda>(status, pktinfo).
       if status \<noteq> PARSE_ERR_OK then Inr (0, c1)
       else parsed_packet READ_FROM_FILE sim_after_packet kp ck hdr buf pktinfo c1))"

subsection \<open>Reading a capture file\<close>

definition MAX_PKT_BYTES :: nat where "MAX_PKT_BYTES = 1700"

definition decode_hdr :: "u8 list \<Rightarrow> pcap_pkthdr32_t" where
  "decode_hdr b =
     \<lparr>hdr_ts = \<lparr>tv_sec = of_le32 (b ! 0) (b ! 1) (b ! 2) (b ! 3), tv_usec = of_le32 (b ! 4) (b ! 5) (b ! 6) (b ! 7)\<rparr>,
      caplen = of_le32 (b ! 8) (b ! 9) (b ! 10) (b ! 11), pkt_len = of_le32 (b ! 12) (b ! 13) (b ! 14) (b ! 15)\<rparr>"

text \<open>
  The loop over the file. \<open>file\<close> holds the bytes from the file position on, of which \<^verbatim>\<open>read\<close> gives as many as
  there are. \<^verbatim>\<open>read\<close> stores into the buffer of 1700 bytes; more bytes are an access outside it. The buffer keeps
  its bytes from one packet to the next.
\<close>

function read_pcap_loop ::
  "(pcap_pkthdr32_t \<Rightarrow> u8 list \<Rightarrow> int \<Rightarrow> 'c \<Rightarrow> (int \<times> 'c) c_result) \<Rightarrow> u8 list \<Rightarrow> int \<Rightarrow> u8 list \<Rightarrow> 'c \<Rightarrow> (int \<times> 'c) c_result"
where
  "read_pcap_loop cb tmpbuf pktnum file c =
     (if length file < 16 then Inr (-1, c)
      else
        let hdr = decode_hdr (take 16 file);
            rest = drop 16 file;
            n = unat (caplen hdr);
            got = take n rest in
        if length tmpbuf < length got then Inl OutOfBounds
        else if length got < n then Inr (-2, c)
        else if pktnum \<ge> INT_MAX then Inl IntOverflow
        else
          let tmpbuf1 = got @ drop n tmpbuf in
          bind_r (cb hdr tmpbuf1 (pktnum + 1) c) (\<lambda>(ret, c1).
            if ret \<noteq> 0 then Inr (-3, c1) else read_pcap_loop cb tmpbuf1 (pktnum + 1) (drop n rest) c1))"
  by pat_completeness auto
termination
  by (relation "measure (\<lambda>(_, _, _, file, _). length file)") auto

declare read_pcap_loop.simps [simp del]

text \<open>Opening the file skips the file header of 24 bytes; the file is read from the start of the first record.\<close>

definition PCAP_FILE_HEADER :: nat where "PCAP_FILE_HEADER = 24"

definition main_file ::
  "('s sim_hook) \<Rightarrow> 's sim_hook \<Rightarrow> (u32 \<Rightarrow> sharedif_t \<Rightarrow> 's \<Rightarrow> 's c_result) \<Rightarrow> nat \<Rightarrow> nat \<Rightarrow> u8 list \<Rightarrow> u8 list option \<Rightarrow>
    's cap_state \<Rightarrow> (int \<times> 's cap_state) c_result"
where
  "main_file sim_before_packet sim_after_packet sim_finish kp ck tmpbuf file c =
     (case file of
        None \<Rightarrow> Inr (-1, c)
      | Some bs \<Rightarrow>
          bind_r (read_pcap_loop (\<lambda>hdr buf _. on_packet True sim_before_packet sim_after_packet kp ck hdr buf)
                    tmpbuf 0 (drop PCAP_FILE_HEADER bs) c) (\<lambda>(_, c1).
          bind_r (sim_finish 0 (g_shm (cap_shm c1)) (cap_sim c1)) (\<lambda>s. Inr (0, c1\<lparr>cap_sim := s\<rparr>))))"

subsection \<open>Live capture\<close>

text \<open>
  The statistics of libpcap: received packets, packets dropped by the kernel and by the interface, or
  none when \<^verbatim>\<open>pcap_stats\<close> fails.
\<close>

definition get_libpcap_stats :: "(u32 \<times> u32 \<times> u32) option \<Rightarrow> u32 \<times> u32 \<times> u32" where
  "get_libpcap_stats pstat =
     (case pstat of None \<Rightarrow> (0, 0, 0) | Some (ps_recv, ps_drop, ps_ifdrop) \<Rightarrow> (ps_recv, ps_ifdrop, ps_drop))"

text \<open>
  The callback. libpcap's timestamps are of the machine's word size; \<open>sec\<close> and \<open>usec\<close> are theirs. The
  difference to the last report is taken at that size.
\<close>

definition callback ::
  "nat \<Rightarrow> nat \<Rightarrow> (u32 \<times> u32 \<times> u32) option \<Rightarrow> int \<Rightarrow> int \<Rightarrow> u32 \<Rightarrow> u32 \<Rightarrow> u8 list \<Rightarrow> u32 \<times> 's cap_state \<Rightarrow>
    (u32 \<times> 's cap_state) c_result"
where
  "callback kp ck pstat sec usec cap len bytes' = (\<lambda>(tlast_report, c).
     let hdr = \<lparr>hdr_ts = \<lparr>tv_sec = of_int sec, tv_usec = of_int usec\<rparr>, caplen = cap, pkt_len = len\<rparr>;
         (tlast1, c1) =
           (if tlast_report = 0 then (of_int sec, c)
            else if sec - int (unat tlast_report) \<ge> 1 then
              let (recv, ifdr, kdr) = get_libpcap_stats pstat in
              (of_int sec, c\<lparr>cap_shm := shm_update_capstats (cap_shm c) recv ifdr kdr\<rparr>)
            else (tlast_report, c)) in
     bind_r (on_packet False (\<lambda>_ _ s. Inr s) (\<lambda>_ _ s. Inr s) kp ck hdr bytes' c1) (\<lambda>(_, c2). Inr (tlast1, c2)))"

text \<open>
  The live capture. What libpcap does is an argument: whether \<^verbatim>\<open>pcap_open_live\<close> opens the device, and the text of the error or
  warning that it leaves in \<^verbatim>\<open>ebuf\<close>; the packets that \<^verbatim>\<open>pcap_loop\<close> delivers, each with the statistics that libpcap has then;
  how the loop ends, and the text of \<^verbatim>\<open>pcap_geterr\<close>. The device is opened for the 72 bytes of \<^verbatim>\<open>snaplen\<close>, so that a packet
  has no more of them. \<^verbatim>\<open>ebuf\<close> has 32 bytes, where libpcap writes texts of up to 256 (\<^verbatim>\<open>PCAP_ERRBUF_SIZE\<close>). The result has
  the texts printed to \<^verbatim>\<open>stdout\<close> and to \<^verbatim>\<open>stderr\<close>. (The user id is given up, and what \<^verbatim>\<open>setuid\<close> returns is not looked at.)
\<close>

type_synonym live_packet = "(u32 \<times> u32 \<times> u32) option \<times> int \<times> int \<times> u32 \<times> u32 \<times> u8 list"

record live_device =
  dev_opens :: bool
  dev_errbuf :: string
  dev_packets :: "live_packet list"
  dev_status :: int
  dev_geterr :: string

definition EBUF_BYTES :: nat where "EBUF_BYTES = 32"

definition snaplen :: nat where "snaplen = 72"

definition go_live_pcap :: "nat \<Rightarrow> nat \<Rightarrow> live_device \<Rightarrow> 's cap_state \<Rightarrow> (string \<times> string \<times> 's cap_state) c_result" where
  "go_live_pcap kp ck dev c =
     (if EBUF_BYTES \<le> length (dev_errbuf dev) then Inl OutOfBounds
      else if \<not> dev_opens dev then Inr (''ERROR:'' @ dev_errbuf dev, [], c)
      else
        let warn = (if dev_errbuf dev \<noteq> [] then ''WARN:'' @ dev_errbuf dev else []) in
        bind_r (fold_r (\<lambda>(pstat, sec, usec, cap, len, bs). callback kp ck pstat sec usec cap len bs) (dev_packets dev) (0, c)) (\<lambda>(_, c1).
          let err = (if dev_status dev = -1 then ''pcap_loop: '' @ dev_geterr dev @ [CHR 0x0A] else []) in
          Inr (warn @ ''pcap_loop done'', err, c1)))"

subsection \<open>The capture program\<close>

text \<open>
  The options as \<^verbatim>\<open>getopt\<close> reports them, each with its argument. The file name goes into a buffer of 128 bytes.
  \<^verbatim>\<open>usage\<close> ends the process, which is the result \<open>None\<close> of the functions for the options.
\<close>

definition FILENAME_BYTES :: nat where "FILENAME_BYTES = 128"

definition set_filename :: "string \<Rightarrow> string c_result" where
  "set_filename name = (if length name < FILENAME_BYTES then Inr name else Inl OutOfBounds)"

fun get_options :: "(char \<times> string) list \<Rightarrow> bool \<times> string \<Rightarrow> (bool \<times> string) option c_result" where
  "get_options [] (gVerbose, filename) = Inr (Some (gVerbose, filename))"
| "get_options ((ch, optarg) # opts) (gVerbose, filename) =
     (if ch = CHR ''v'' then get_options opts (True, filename)
      else if ch = CHR ''f'' then bind_r (set_filename optarg) (\<lambda>f. get_options opts (gVerbose, f))
      else Inr None)"

definition capture_args :: "(char \<times> string) list \<Rightarrow> string list \<Rightarrow> (bool \<times> string) option c_result" where
  "capture_args opts args =
     bind_r (get_options opts (False, [])) (\<lambda>r.
       case r of
         None \<Rightarrow> Inr None
       | Some (v, filename) \<Rightarrow>
           if args = [] \<and> filename = [] then Inr None
           else if args = [] then Inr (Some (v, filename))
           else bind_r (set_filename (hd args)) (\<lambda>f. Inr (Some (v, f))))"

text \<open>
  What the program runs on: whether it was built to read files, the statistics of the file mode, the
  addresses of variables and keys, whether the segment can be had, the bytes on the stack where the packet
buffer will be, the files, the device and the name of the program.
\<close>

record 's cap_env =
  READ_FROM_FILE :: bool
  env_before :: "'s sim_hook"
  env_after :: "'s sim_hook"
  env_finish :: "u32 \<Rightarrow> sharedif_t \<Rightarrow> 's \<Rightarrow> 's c_result"
  env_kp :: nat
  env_ck :: nat
  env_skaddr :: "nat \<Rightarrow> u64"
  env_akaddr :: "akptr \<Rightarrow> u64"
  env_shm_ok :: bool
  env_stack :: "u8 list"
  env_files :: "string \<Rightarrow> u8 list option"
  env_device :: live_device
  env_cmdname :: string

text \<open>
  How the program ends: what it has printed itself (the reports of the file mode are part of the state of the statistics) and
  its state, if it has come that far.
\<close>

record 's cap_end =
  end_stdout :: string
  end_stderr :: string
  end_state :: "'s cap_state option"

definition usage :: "string \<Rightarrow> string" where
  "usage cmdname =
     ''usage: '' @ cmdname @ '' <options>'' @ [CHR 0x0A] @ '' options:'' @ [CHR 0x0A] @ '' -v            Verbose output'' @ [CHR 0x0A] @
     '' -f <file>     Read in a capture file'' @ [CHR 0x0A] @ [CHR 0x0A]"

definition capture_main ::
  "'s cap_env \<Rightarrow> (char \<times> string) list \<Rightarrow> string list \<Rightarrow> shm_state \<Rightarrow> 's \<Rightarrow> 's cap_end c_result"
where
  "capture_main env opts args st0 sim =
     bind_r (capture_args opts args) (\<lambda>r.
       case r of
         None \<Rightarrow> Inr \<lparr>end_stdout = usage (env_cmdname env), end_stderr = [], end_state = None\<rparr>
       | Some (_, filename) \<Rightarrow>
           bind_r (shm_data_init (env_skaddr env) (env_akaddr env) (env_shm_ok env) st0) (\<lambda>(h_shm, st).
             if \<not> h_shm then
               Inr \<lparr>end_stdout = ''ERROR: unable to initialize data structures'' @ [CHR 0x0A], end_stderr = [], end_state = None\<rparr>
             else
               let c = \<lparr>cap_shm = cleanup_init st, last_sec = 0, cap_sim = sim\<rparr> in
               if READ_FROM_FILE env then
                 bind_r (main_file (env_before env) (env_after env) (env_finish env) (env_kp env) (env_ck env)
                           (env_stack env) (env_files env filename) c) (\<lambda>(ret, c1).
                   Inr \<lparr>end_stdout = (if ret = -1 then ''ERROR: unable to open '' @ filename @ [CHR 0x0A] else []), end_stderr = [],
                        end_state = Some c1\<rparr>)
               else
                 bind_r (go_live_pcap (env_kp env) (env_ck env) (env_device env) c) (\<lambda>(out, err, c1).
                   Inr \<lparr>end_stdout = out, end_stderr = err, end_state = Some c1\<rparr>)))"

subsection \<open>Properties\<close>

text \<open>The record that precedes a packet in a capture file.\<close>

definition encode_hdr :: "pcap_pkthdr32_t \<Rightarrow> u8 list" where
  "encode_hdr hdr = le32 (tv_sec (hdr_ts hdr)) @ le32 (tv_usec (hdr_ts hdr)) @ le32 (caplen hdr) @ le32 (pkt_len hdr)"

lemma decode_encode [simp]: "decode_hdr (encode_hdr hdr) = hdr" "length (encode_hdr hdr) = 16"
  by (simp_all add: decode_hdr_def encode_hdr_def le32_def of_le32_le32)

text \<open>The packets of a file handed to the callback one after the other.\<close>

primrec feed ::
  "(pcap_pkthdr32_t \<Rightarrow> u8 list \<Rightarrow> int \<Rightarrow> 'c \<Rightarrow> (int \<times> 'c) c_result) \<Rightarrow> (pcap_pkthdr32_t \<times> u8 list) list \<Rightarrow> u8 list \<Rightarrow> int \<Rightarrow> 'c \<Rightarrow>
    (int \<times> 'c) c_result"
where
  "feed cb [] tmpbuf n c = Inr (-1, c)"
| "feed cb (p # ps) tmpbuf n c =
     (let buf = snd p @ drop (length (snd p)) tmpbuf in
      bind_r (cb (fst p) buf (n + 1) c) (\<lambda>(ret, c1). if ret \<noteq> 0 then Inr (-3, c1) else feed cb ps buf (n + 1) c1))"

lemma read_pcap_feeds:
  assumes "\<forall>(hdr, data) \<in> set pkts. unat (caplen hdr) = length data \<and> length data \<le> length tmpbuf"
    and "length tail < 16" and "n + int (length pkts) \<le> INT_MAX"
  shows "read_pcap_loop cb tmpbuf n (concat (map (\<lambda>(hdr, data). encode_hdr hdr @ data) pkts) @ tail) c = feed cb pkts tmpbuf n c"
  using assms
proof (induction pkts arbitrary: tmpbuf n c)
  case Nil
  then show ?case by (simp add: read_pcap_loop.simps)
next
  case (Cons p pkts)
  obtain hdr data where p: "p = (hdr, data)" by (cases p)
  have len: "unat (caplen hdr) = length data" "length data \<le> length tmpbuf" using Cons.prems(1) by (simp_all add: p)
  let ?rest = "concat (map (\<lambda>(hdr, data). encode_hdr hdr @ data) pkts) @ tail"
  let ?buf = "data @ drop (length data) tmpbuf"
  have IH: "read_pcap_loop cb ?buf (n + 1) ?rest c1 = feed cb pkts ?buf (n + 1) c1" for c1
    using Cons.prems len by (intro Cons.IH) auto
  have "\<not> n \<ge> INT_MAX" using Cons.prems(3) by simp
  then show ?case
    using len by (subst read_pcap_loop.simps) (simp add: p Let_def IH split_beta cong: if_cong)
qed

text \<open>
  C31: Reading a capture file hands exactly its packets to the callback, in their order, each at the start
  of the buffer, until the callback reports an error or the file ends, possibly inside a record header.
  The loop terminates for every file.
\<close>

theorem read_pcap_loop_feeds:
  assumes "\<forall>(hdr, data) \<in> set pkts. unat (caplen hdr) = length data \<and> length data \<le> length tmpbuf"
    and "length tail < 16" and "n + int (length pkts) \<le> INT_MAX"
  shows "read_pcap_loop cb tmpbuf n (concat (map (\<lambda>(hdr, data). encode_hdr hdr @ data) pkts) @ tail) c = feed cb pkts tmpbuf n c"
  by (rule read_pcap_feeds [OF assms])

theorem read_pcap_loop_feeds_witness:
  "read_pcap_loop (\<lambda>hdr buf n c. Inr (0, c + unat (caplen hdr))) (replicate 1700 0) 0
     (concat (map (\<lambda>(hdr, data). encode_hdr hdr @ data)
        [(\<lparr>hdr_ts = \<lparr>tv_sec = 1, tv_usec = 0\<rparr>, caplen = 3, pkt_len = 60\<rparr>, [1, 2, 3]),
         (\<lparr>hdr_ts = \<lparr>tv_sec = 2, tv_usec = 0\<rparr>, caplen = 2, pkt_len = 60\<rparr>, [4, 5])]) @ [9]) 0 = Inr (-1, 5 :: nat)"
  by (subst read_pcap_loop_feeds) (simp_all add: INT_MAX_def)

text \<open>
  The length of a record is not checked against the buffer: a packet of more than 1700 captured bytes
  is stored past its end.
\<close>

theorem read_pcap_loop_overflow:
  assumes "length tmpbuf = MAX_PKT_BYTES" "MAX_PKT_BYTES < unat (caplen hdr)" "MAX_PKT_BYTES < length data"
  shows "read_pcap_loop cb tmpbuf n (encode_hdr hdr @ data) c = Inl OutOfBounds"
  using assms by (subst read_pcap_loop.simps) (simp add: Let_def)

theorem read_pcap_loop_overflow_witness:
  "read_pcap_loop (\<lambda>hdr buf n c. Inr (0, c)) (replicate 1700 0) 0
     (encode_hdr \<lparr>hdr_ts = \<lparr>tv_sec = 1, tv_usec = 0\<rparr>, caplen = 9000, pkt_len = 9000\<rparr> @ replicate 9000 0) () = Inl OutOfBounds"
  by (rule read_pcap_loop_overflow) (simp_all add: MAX_PKT_BYTES_def)

text \<open>
  Errors of the start-up: without a file name or with an unknown option the usage is printed, and a file that cannot be opened is
  reported; neither touches the packets.
\<close>

theorem start_errors:
  "capture_main env [] [] st0 sim = Inr \<lparr>end_stdout = usage (env_cmdname env), end_stderr = [], end_state = None\<rparr>"
  "ch \<notin> {CHR ''v'', CHR ''f''} \<Longrightarrow>
    capture_main env ((ch, arg) # opts) args st0 sim = Inr \<lparr>end_stdout = usage (env_cmdname env), end_stderr = [], end_state = None\<rparr>"
  "READ_FROM_FILE env \<Longrightarrow> env_files env name = None \<Longrightarrow> length name < FILENAME_BYTES \<Longrightarrow>
    shm_data_init (env_skaddr env) (env_akaddr env) (env_shm_ok env) st0 = Inr (True, st) \<Longrightarrow>
    capture_main env [] [name] st0 sim = Inr \<lparr>end_stdout = ''ERROR: unable to open '' @ name @ [CHR 0x0A], end_stderr = [],
      end_state = Some \<lparr>cap_shm = cleanup_init st, last_sec = 0, cap_sim = sim\<rparr>\<rparr>"
  by (simp_all add: capture_main_def capture_args_def set_filename_def main_file_def)

text \<open>A file name is not checked against the buffer it is copied into.\<close>

theorem long_filename_overflows:
  assumes "FILENAME_BYTES \<le> length name"
  shows "capture_main env [(CHR ''f'', name)] args st0 sim = Inl OutOfBounds" "capture_main env [] (name # args) st0 sim = Inl OutOfBounds"
  using assms by (simp_all add: capture_main_def capture_args_def set_filename_def)

text \<open>
  The buffer for the errors of libpcap is too small for most of them: without the permission to capture, the text is longer
  than the buffer, and \<^verbatim>\<open>pcap_open_live\<close> writes past its end before anything is reported.
\<close>

theorem open_error_overflows:
  assumes "EBUF_BYTES \<le> length (dev_errbuf dev)"
  shows "go_live_pcap kp ck dev c = Inl OutOfBounds"
  using assms by (simp add: go_live_pcap_def)

lemma permission_text: "EBUF_BYTES \<le> length ''You do not have permission to capture on that device''"
  by (simp add: EBUF_BYTES_def)

text \<open>A program built for live capture takes a file name and does not read the file.\<close>

theorem live_build_ignores_file:
  assumes "\<not> READ_FROM_FILE env"
  shows "capture_main (env\<lparr>env_files := files\<rparr>) opts args st0 sim = capture_main env opts args st0 sim"
  using assms by (simp add: capture_main_def Let_def cong: if_cong option.case_cong)

end
