(* ===== verification/CaptureRun.thy ===== *)
theory CaptureRun
  imports Capture
begin

text \<open>
  The runs of the capture (\<^verbatim>\<open>capture/main.c\<close>). Every operation on the segment keeps it in order: its layout, the
  windows of the three arrays, the flow type and the addresses of every stream, and the entries of the address table.
  A packet is counted at most once per level. Both hold in every state that is reached from the start-up.
\<close>

subsection \<open>The segment stays in order\<close>

text \<open>
  The invariant of the segment: its layout; that the lower three flag bits of every stream are a flow type other than
  the total and its addresses are in the table; where the windows of the arrays can be; and that the address table
  leads to entries of the array. \<open>safe_step\<close> relates the states around an operation that keeps it and does not touch
  the flow counters.
\<close>

definition entry_ok :: "stream_info_t \<Rightarrow> bool" where
  "entry_ok s \<longleftrightarrow> flowflags s AND 7 \<le> 4 \<and> unat (idx_left s) < SI_NUM_ADDRS \<and> unat (idx_right s) < SI_NUM_ADDRS"

definition windows_ok :: "sharedif_t \<Rightarrow> bool" where
  "windows_ok shm \<longleftrightarrow> win_ok lan_array 258 (addr_lan_indexes shm) \<and> win_ok wan_array SI_NUM_ADDRS (addr_wan_indexes shm) \<and>
     win_ok stream_array SI_NUM_STREAMS (stream_indexes shm)"

lemma windows_frame [simp]:
  "windows_ok (shm\<lparr>flow_stats := fs\<rparr>) = windows_ok shm" "windows_ok (shm\<lparr>shm_tnow := t\<rparr>) = windows_ok shm"
  "windows_ok (shm\<lparr>shm_tstart := t\<rparr>) = windows_ok shm" "windows_ok (shm\<lparr>shm_protos := ps\<rparr>) = windows_ok shm"
  by (simp_all add: windows_ok_def)

definition seg_ok :: "shm_state \<Rightarrow> bool" where
  "seg_ok st \<longleftrightarrow> shm_layout st \<and> (\<forall>i. entry_ok (aget (shm_streams (g_shm st)) i)) \<and> windows_ok (g_shm st) \<and>
     ht_vals (ht_v4addrs st) \<subseteq> {..<SI_NUM_ADDRS}"

definition safe_step :: "shm_state \<Rightarrow> shm_state \<Rightarrow> bool" where
  "safe_step st st' \<longleftrightarrow> (seg_ok st \<longrightarrow> seg_ok st') \<and> flow_stats (g_shm st') = flow_stats (g_shm st)"

named_theorems safe_intros \<open>operations that are safe steps\<close>

lemma safe_refl [simp]: "safe_step st st"
  by (simp add: safe_step_def)

lemma safe_trans [trans]: "safe_step a b \<Longrightarrow> safe_step b c \<Longrightarrow> safe_step a c"
  by (simp add: safe_step_def)

lemma safe_static:
  "g_shm st' = g_shm st \<Longrightarrow> g_lan_addrs st' = g_lan_addrs st \<Longrightarrow> g_wan_addrs st' = g_wan_addrs st \<Longrightarrow>
   g_streams st' = g_streams st \<Longrightarrow> ht_v4addrs st' = ht_v4addrs st \<Longrightarrow> safe_step st st'"
  by (simp add: safe_step_def seg_ok_def shm_layout_def)

lemma seg_okD: "seg_ok st \<Longrightarrow> shm_layout st" "seg_ok st \<Longrightarrow> entry_ok (aget (shm_streams (g_shm st)) i)"
  by (simp_all add: seg_ok_def)

lemma addr_upd_shape:
  assumes "shm_addr_upd st i f = Inr st'"
  shows "i < alen (shm_addrs (g_shm st)) \<and> st' = st\<lparr>g_shm := (g_shm st)\<lparr>shm_addrs :=
    (shm_addrs (g_shm st))\<lparr>aget := (aget (shm_addrs (g_shm st)))(i := f (aget (shm_addrs (g_shm st)) i))\<rparr>\<rparr>\<rparr>"
  using assms by (auto simp: shm_addr_upd_def arr_rd_def arr_wr_def split: if_splits)

lemma stream_upd_shape:
  assumes "shm_stream_upd st i f = Inr st'"
  shows "i < alen (shm_streams (g_shm st)) \<and> st' = st\<lparr>g_shm := (g_shm st)\<lparr>shm_streams :=
    (shm_streams (g_shm st))\<lparr>aget := (aget (shm_streams (g_shm st)))(i := f (aget (shm_streams (g_shm st)) i))\<rparr>\<rparr>\<rparr>"
  using assms by (auto simp: shm_stream_upd_def arr_rd_def arr_wr_def split: if_splits)

lemma safe_addr_upd [safe_intros]: "shm_addr_upd st i f = Inr st' \<Longrightarrow> safe_step st st'"
  by (drule addr_upd_shape) (simp add: safe_step_def seg_ok_def shm_layout_def windows_ok_def)

lemma safe_stream_upd [safe_intros]:
  assumes "shm_stream_upd st i f = Inr st'"
    "entry_ok (aget (shm_streams (g_shm st)) i) \<Longrightarrow> entry_ok (f (aget (shm_streams (g_shm st)) i))"
  shows "safe_step st st'"
  using assms(2) stream_upd_shape [OF assms(1)] by (auto simp: safe_step_def seg_ok_def shm_layout_def windows_ok_def)

lemma array_keeps:
  "keeps lan_array (\<lambda>_. True)" "keeps wan_array (\<lambda>_. True)" "keeps stream_array entry_ok"
  by (auto simp: keeps_def stream_array_def stream_isempty_func_def entry_ok_def Let_def split: mgaop_t.split)

lemma seg_entries: "seg_ok st \<Longrightarrow> all_entries SI_NUM_STREAMS entry_ok (shm_streams (g_shm st))"
  "seg_ok st \<Longrightarrow> all_entries SI_NUM_ADDRS (\<lambda>_. True) (shm_addrs (g_shm st))"
  by (simp_all add: seg_ok_def shm_layout_def all_entries_def)

lemma seg_arrays: "seg_ok st \<Longrightarrow> g_lan_addrs st = lan_array \<and> g_wan_addrs st = wan_array \<and> g_streams st = stream_array"
  by (simp add: seg_ok_def shm_layout_def)

lemma seg_okI:
  assumes "seg_ok st" "g_lan_addrs st' = g_lan_addrs st" "g_wan_addrs st' = g_wan_addrs st" "g_streams st' = g_streams st"
    "all_entries SI_NUM_STREAMS entry_ok (shm_streams (g_shm st'))"
    "all_entries SI_NUM_ADDRS (\<lambda>_. True) (shm_addrs (g_shm st'))"
    "alen (shm_protos (g_shm st')) = alen (shm_protos (g_shm st))"
    "length (flow_stats (g_shm st')) = length (flow_stats (g_shm st))"
    "windows_ok (g_shm st')" "ht_v4addrs st' = ht_v4addrs st"
  shows "seg_ok st'"
  using assms by (simp add: seg_ok_def shm_layout_def all_entries_def)

text \<open>The windows, as the operations of the three arrays keep them.\<close>

lemma seg_windows: "seg_ok st \<Longrightarrow> windows_ok (g_shm st)"
  by (simp add: seg_ok_def)

lemma mids: "unat (mga_mid lan_array) = 128" "unat (mga_mid wan_array) = 8320" "unat (mga_mid stream_array) = 16384"
  by (simp_all add: mga_mid_def lan_array_def wan_array_def stream_array_def)

lemma sizes: "entry_size lan_array = 52" "entry_size wan_array = 52" "entry_size stream_array = 52"
  by (simp_all add: lan_array_def wan_array_def stream_array_def)

lemma alloc_windows:
  "mga_alloc_entry lan_array p es = Inr (p', es', r) \<Longrightarrow> win_ok lan_array 258 p \<Longrightarrow> win_ok lan_array 258 p'"
  "mga_alloc_entry wan_array p es = Inr (p', es', r) \<Longrightarrow> win_ok wan_array SI_NUM_ADDRS p \<Longrightarrow> alen es = SI_NUM_ADDRS \<Longrightarrow>
     win_ok wan_array SI_NUM_ADDRS p'"
  "mga_alloc_entry stream_array q fs = Inr (q', fs', r) \<Longrightarrow> win_ok stream_array SI_NUM_STREAMS q \<Longrightarrow> alen fs = SI_NUM_STREAMS \<Longrightarrow>
     win_ok stream_array SI_NUM_STREAMS q'"
  by (erule alloc_window; simp add: mids sizes SI_NUM_ADDRS_def SI_NUM_STREAMS_def)+

lemma safe_addr_free [safe_intros]:
  assumes run: "shm_addr_free st idx = Inr st'"
  shows "safe_step st st'" "shm_streams (g_shm st') = shm_streams (g_shm st)"
proof -
  have "seg_ok st'" if seg: "seg_ok st"
  proof -
    have "all_entries SI_NUM_ADDRS (\<lambda>_. True) (shm_addrs (g_shm st'))"
      using run seg_arrays [OF seg] free_keeps [OF array_keeps(1) seg_entries(2) [OF seg]]
        free_keeps [OF array_keeps(2) seg_entries(2) [OF seg]]
      by (auto simp: shm_addr_free_def c_simps split: if_splits)
    moreover have "windows_ok (g_shm st')"
      using run seg_windows [OF seg] seg_arrays [OF seg]
      by (auto simp: shm_addr_free_def c_simps windows_ok_def split: if_splits intro: free_window)
    ultimately show ?thesis using run seg_entries(1) [OF seg]
      by (intro seg_okI [OF seg]) (auto simp: shm_addr_free_def c_simps split: if_splits)
  qed
  then show "safe_step st st'" using run by (auto simp: safe_step_def shm_addr_free_def c_simps split: if_splits)
  show "shm_streams (g_shm st') = shm_streams (g_shm st)"
    using run by (auto simp: shm_addr_free_def c_simps split: if_splits)
qed

lemma safe_slot_empty [safe_intros]:
  assumes run: "set_stream_slot_empty st i = Inr st'"
  shows "safe_step st st'"
proof -
  have "seg_ok st'" if seg: "seg_ok st"
  proof -
    have "all_entries SI_NUM_STREAMS entry_ok (shm_streams (g_shm st'))"
      using run seg_arrays [OF seg] free_keeps [OF array_keeps(3) seg_entries(1) [OF seg]]
      by (auto simp: set_stream_slot_empty_def c_simps)
    moreover have "windows_ok (g_shm st')"
      using run seg_windows [OF seg] seg_arrays [OF seg]
      by (auto simp: set_stream_slot_empty_def c_simps windows_ok_def intro: free_window)
    ultimately show ?thesis using run seg_entries(2) [OF seg]
      by (intro seg_okI [OF seg]) (auto simp: set_stream_slot_empty_def c_simps)
  qed
  then show ?thesis using run by (auto simp: safe_step_def set_stream_slot_empty_def c_simps)
qed

lemma safe_alloc_addr [safe_intros]:
  assumes run: "mga_alloc_addr st l = Inr (r, st')"
  shows "safe_step st st'" "shm_streams (g_shm st') = shm_streams (g_shm st)"
proof -
  have "seg_ok st'" if seg: "seg_ok st"
  proof -
    have "all_entries SI_NUM_ADDRS (\<lambda>_. True) (shm_addrs (g_shm st'))"
      using run seg_arrays [OF seg] alloc_keeps [OF array_keeps(1) seg_entries(2) [OF seg]]
        alloc_keeps [OF array_keeps(2) seg_entries(2) [OF seg]]
      by (auto simp: mga_alloc_addr_def c_simps split: if_splits)
    moreover have "windows_ok (g_shm st')"
      using run seg_windows [OF seg] seg_arrays [OF seg] seg_entries(2) [OF seg]
      by (auto simp: mga_alloc_addr_def c_simps windows_ok_def all_entries_def split: if_splits intro: alloc_windows)
    ultimately show ?thesis using run seg_entries(1) [OF seg]
      by (intro seg_okI [OF seg]) (auto simp: mga_alloc_addr_def c_simps split: if_splits)
  qed
  then show "safe_step st st'" using run by (auto simp: safe_step_def mga_alloc_addr_def c_simps split: if_splits)
  show "shm_streams (g_shm st') = shm_streams (g_shm st)"
    using run by (auto simp: mga_alloc_addr_def c_simps split: if_splits)
qed

lemma safe_addr_alloc [safe_intros]:
  assumes run: "shm_addr_alloc_v4 st ip m = Inr (r, idx, st')"
  shows "safe_step st st'" "shm_streams (g_shm st') = shm_streams (g_shm st)"
proof -
  from run obtain q st1 where 1: "mga_alloc_addr st (ipaddr_is_lan ip) = Inr (q, st1)"
    by (auto simp: shm_addr_alloc_v4_def c_simps)
  have "safe_step st1 st' \<and> shm_streams (g_shm st') = shm_streams (g_shm st1)"
  proof (cases q)
    case None
    then show ?thesis using run 1 by (simp add: shm_addr_alloc_v4_def)
  next
    case (Some pidx)
    with run 1 obtain f st2 where 2: "shm_addr_upd st1 (unat pidx) f = Inr st2" and
      3: "bind_r (if \<not> heap_ok st2 then Inl NullDeref else Inr (AHeap (next_addr_key st2))) (\<lambda>pkey.
         let st3 = st2\<lparr>gAddrCount := gAddrCount st1 + 1, next_addr_key := next_addr_key st2 + 1,
                       addr_key_mem := (addr_key_mem st2)(pkey := addr_key_init_v4 ip)\<rparr> in
         bind_r (HashTablePut (addr_key_mem st3) (heap_ok st3) (heap_ok st3) (ht_v4addrs st3) pkey (unat pidx))
           (\<lambda>(_, mem, ht). Inr (Some (unat pidx), pidx, st3\<lparr>addr_key_mem := mem, ht_v4addrs := ht\<rparr>))) = Inr (r, idx, st')"
      unfolding shm_addr_alloc_v4_def 1 bind_r_simps by (auto simp: bind_r_Inr_iff Let_def split: if_splits)
    have same: "g_shm st' = g_shm st2" "g_lan_addrs st' = g_lan_addrs st2" "g_wan_addrs st' = g_wan_addrs st2" "g_streams st' = g_streams st2"
      and vals: "ht_vals (ht_v4addrs st') \<subseteq> insert (unat pidx) (ht_vals (ht_v4addrs st2))"
      using 3 by (auto simp: bind_r_Inr_iff Let_def split: if_splits dest!: Put_vals)
    have "seg_ok st'" if "seg_ok st2"
      using that same vals addr_upd_shape [OF 2] by (auto simp: seg_ok_def shm_layout_def)
    then have "safe_step st2 st'" using same by (simp add: safe_step_def)
    then show ?thesis using safe_addr_upd [OF 2] addr_upd_shape [OF 2] same by (auto intro: safe_trans)
  qed
  with safe_alloc_addr [OF 1] show "safe_step st st'" "shm_streams (g_shm st') = shm_streams (g_shm st)"
    by (auto intro: safe_trans)
qed

lemma safe_stream_alloc [safe_intros]:
  assumes run: "shm_stream_alloc st kp = Inr (r, st')"
  shows "safe_step st st'" "r = Some ss \<Longrightarrow> flowflags (aget (shm_streams (g_shm st')) ss) = 0"
proof -
  from run obtain p es q where 1: "mga_alloc_entry (g_streams st) (stream_indexes (g_shm st)) (shm_streams (g_shm st)) = Inr (p, es, q)"
    by (auto simp: shm_stream_alloc_def c_simps)
  let ?st1 = "st\<lparr>g_shm := (g_shm st)\<lparr>stream_indexes := p, shm_streams := es\<rparr>\<rparr>"
  have "seg_ok ?st1" if seg: "seg_ok st"
    using alloc_keeps [OF array_keeps(3) seg_entries(1) [OF seg]] 1 seg_arrays [OF seg] seg_entries [OF seg] seg_windows [OF seg]
    by (intro seg_okI [OF seg]) (auto simp: windows_ok_def all_entries_def intro: alloc_windows)
  then have s1: "safe_step st ?st1" by (simp add: safe_step_def)
  show "safe_step st st'"
  proof (cases q)
    case None
    then show ?thesis using run 1 s1 by (simp add: shm_stream_alloc_def)
  next
    case (Some idx)
    with run 1 obtain mem ht st3 where 2: "shm_stream_upd (?st1\<lparr>stream_key_mem := mem, ht_streams := ht\<rparr>) (unat idx) (\<lambda>val.
        val\<lparr>si_iid := gStreamCount st, flowflags := 0, si_tcpflags := 0, vlan := 0,
            packets := 0, bytes := 0, packets_rl := 0, bytes_rl := 0\<rparr>) = Inr st3"
      "st' = st3\<lparr>gStreamCount := gStreamCount st + 1\<rparr>"
      by (auto simp: shm_stream_alloc_def c_simps Let_def)
    have "safe_step ?st1 (?st1\<lparr>stream_key_mem := mem, ht_streams := ht\<rparr>)" by (rule safe_static) simp_all
    moreover have "safe_step (?st1\<lparr>stream_key_mem := mem, ht_streams := ht\<rparr>) st3"
      by (rule safe_stream_upd [OF 2(1)]) (simp add: entry_ok_def)
    moreover have "safe_step st3 st'" by (rule safe_static) (simp_all add: 2(2))
    ultimately show ?thesis using s1 by (meson safe_trans)
  qed
  show "r = Some ss \<Longrightarrow> flowflags (aget (shm_streams (g_shm st')) ss) = 0"
    using run by (auto simp: shm_stream_alloc_def c_simps Let_def split: option.splits dest!: stream_upd_shape)
qed

lemma safe_add_list [safe_intros]: "add_stream_to_cleanup_list sec ss st = Inr st' \<Longrightarrow> safe_step st st'"
  by (rule safe_static) (auto simp: add_stream_to_cleanup_list_def c_simps Let_def split: if_splits)

lemma safe_lookup_free [safe_intros]:
  "shm_stream_lookup_free (st\<lparr>stream_key_mem := m\<rparr>) kp = Inr st' \<Longrightarrow> safe_step st st'"
  by (rule safe_static) (auto simp: shm_stream_lookup_free_def c_simps)

lemma safe_free_idle [safe_intros]: "free_if_idle i st = Inr st' \<Longrightarrow> safe_step st st'"
  by (auto simp: free_if_idle_def c_simps split: if_splits intro: safe_addr_free)

lemma safe_release [safe_intros]:
  assumes "release_stream ck i st = Inr st'"
  shows "safe_step st st'"
proof -
  from assms [unfolded release_stream_def bind_r_Inr_iff] obtain s :: stream_info_t and key st1 li ri st2 st3 st4 st5 where
    1: "shm_stream_lookup_free (st\<lparr>stream_key_mem := (stream_key_mem st)(ck := key)\<rparr>) ck = Inr st1" and
    2: "shm_addr_upd st1 li (\<lambda>a. a\<lparr>nstreams_active := nstreams_active a - 1\<rparr>) = Inr st2" and
    3: "shm_addr_upd st2 ri (\<lambda>a. a\<lparr>nstreams_active := nstreams_active a - 1\<rparr>) = Inr st3" and
    4: "free_if_idle (idx_left s) st3 = Inr st4" "free_if_idle (idx_right s) st4 = Inr st5" and
    5: "set_stream_slot_empty st5 i = Inr st'"
    by blast
  note safe_lookup_free [OF 1] also note safe_addr_upd [OF 2] also note safe_addr_upd [OF 3]
  also note safe_free_idle [OF 4(1)] also note safe_free_idle [OF 4(2)] also note safe_slot_empty [OF 5]
  finally show ?thesis .
qed

lemma safe_fold:
  assumes "\<And>x s s'. f x s = Inr s' \<Longrightarrow> safe_step s s'" "fold_r f xs st = Inr st'"
  shows "safe_step st st'"
  using fold_r_keeps [of xs "safe_step st" f st st'] assms by (blast intro: safe_trans safe_refl)

lemma safe_check_expired [safe_intros]: "check_expired sec i st = Inr st' \<Longrightarrow> safe_step st st'"
  by (auto simp: check_expired_def c_simps split: if_splits intro: safe_add_list)

lemma safe_move_wait [safe_intros]: "move_wait i st = Inr st' \<Longrightarrow> safe_step st st'"
  by (rule safe_static) (auto simp: move_wait_def c_simps)

lemma safe_cleanup [safe_intros]:
  assumes "cleanup_expired_streams ck sec st = Inr st'"
  shows "safe_step st st'"
proof (cases "sec mod 60 < STAT_PROCESS_TIME_SEC \<or> alist_is_empty (cleanup_streams_list st)")
  case True
  then show ?thesis using assms by (simp add: cleanup_expired_streams_def)
next
  case False
  with assms obtain st1 st2 st4 where
    1: "find_expired_streams sec st = Inr st1" and
    2: "fold_r (release_stream ck) (alist_items (cleanup_streams_list st1)) st1 = Inr st2" and
    3: "fold_r move_wait (alist_items (cleanup_streams_wait st2)) (st2\<lparr>cleanup_streams_list := alist_clear (cleanup_streams_list st2)\<rparr>) = Inr st4" and
    4: "st' = st4\<lparr>cleanup_streams_wait := alist_clear (cleanup_streams_wait st4)\<rparr>"
    by (auto simp: cleanup_expired_streams_def c_simps Let_def)
  have "safe_step st st1" using 1 safe_fold [OF safe_check_expired] by (simp add: find_expired_streams_def Let_def)
  also have "safe_step st1 st2" by (rule safe_fold [of "release_stream ck", OF safe_release 2])
  also have "safe_step st2 (st2\<lparr>cleanup_streams_list := alist_clear (cleanup_streams_list st2)\<rparr>)" by (rule safe_static) simp_all
  also have "safe_step (st2\<lparr>cleanup_streams_list := alist_clear (cleanup_streams_list st2)\<rparr>) st4"
    by (rule safe_fold [of move_wait, OF safe_move_wait 3])
  also have "safe_step st4 st'" unfolding 4 by (rule safe_static) simp_all
  finally show ?thesis .
qed

subsection \<open>Packets and flow types\<close>

lemma safe_addr_entry [safe_intros]:
  assumes run: "addr_entry ip m ts st = Inr (r, idx, st')"
  shows "safe_step st st'" "shm_streams (g_shm st') = shm_streams (g_shm st)"
proof -
  obtain found j where 1: "shm_addr_lookup_v4 st ip = Inr (found, j)"
    using run by (auto simp: addr_entry_def bind_r_Inr_iff)
  have "safe_step st st' \<and> shm_streams (g_shm st') = shm_streams (g_shm st)"
  proof (cases found)
    case (Some i)
    then show ?thesis using run 1 by (simp add: addr_entry_def)
  next
    case None
    with run 1 obtain mm new idx1 st1 where 2: "shm_addr_alloc_v4 st ip mm = Inr (new, idx1, st1)"
      and 3: "(case new of None \<Rightarrow> Inr (None, idx1, st1)
        | Some i \<Rightarrow> bind_r (shm_addr_upd st1 i (\<lambda>a. a\<lparr>ai_tstart := ts\<rparr>)) (\<lambda>st2. Inr (Some i, idx1, st2))) = Inr (r, idx, st')"
      unfolding addr_entry_def by (auto simp: bind_r_Inr_iff)
    have "safe_step st1 st' \<and> shm_streams (g_shm st') = shm_streams (g_shm st1)"
    proof (cases new)
      case (Some i)
      with 3 have "shm_addr_upd st1 i (\<lambda>a. a\<lparr>ai_tstart := ts\<rparr>) = Inr st'" by (auto simp: bind_r_Inr_iff)
      from safe_addr_upd [OF this] addr_upd_shape [OF this] show ?thesis by auto
    qed (use 3 in simp)
    with safe_addr_alloc [OF 2] show ?thesis by (auto intro: safe_trans)
  qed
  then show "safe_step st st'" "shm_streams (g_shm st') = shm_streams (g_shm st)" by blast+
qed

lemma flow_flags_ok: "flowflags s = 0 \<Longrightarrow> entry_ok s \<Longrightarrow> entry_ok (flow_flags left right s)"
  by (simp add: flow_flags_def entry_ok_def flow_consts Let_def)

text \<open>An address entry that was found or allocated is one of the table; without one the index is 0.\<close>

lemma addr_entry_index:
  assumes run: "addr_entry ip m ts st = Inr (r, idx, st')" and seg: "seg_ok st"
  shows "unat idx < SI_NUM_ADDRS"
proof -
  obtain found j where 1: "shm_addr_lookup_v4 st ip = Inr (found, j)"
    using run by (auto simp: addr_entry_def bind_r_Inr_iff)
  show ?thesis
  proof (cases found)
    case (Some i)
    then have "i \<in> ht_vals (ht_v4addrs st)" "j = of_nat i"
      using 1 by (auto simp: shm_addr_lookup_v4_def bind_r_Inr_iff Let_def split: option.splits dest: Get_vals)
    then have "i < SI_NUM_ADDRS" "idx = of_nat i" using seg run 1 Some by (auto simp: seg_ok_def addr_entry_def)
    then show ?thesis by (simp add: SI_NUM_ADDRS_def unat_of_nat)
  next
    case None
    with run 1 obtain mm new st1 where 2: "shm_addr_alloc_v4 st ip mm = Inr (new, idx, st1)"
      by (auto simp: addr_entry_def bind_r_Inr_iff split: option.splits)
    show ?thesis
    proof (cases new)
      case None
      then show ?thesis using 2 by (auto simp: shm_addr_alloc_v4_def bind_r_Inr_iff Let_def SI_NUM_ADDRS_def split: option.splits if_splits)
    next
      case (Some i)
      with 2 obtain q st2 f st3 where "mga_alloc_addr st (ipaddr_is_lan ip) = Inr (q, st2)" "shm_addr_upd st2 (unat idx) f = Inr st3"
        by (auto simp: shm_addr_alloc_v4_def bind_r_Inr_iff Let_def split: option.splits if_splits)
      then show ?thesis using addr_upd_shape safe_alloc_addr(1) seg by (fastforce simp: safe_step_def seg_ok_def shm_layout_def)
    qed
  qed
qed

lemma cleanup_flag_class: "entry_ok (s\<lparr>flowflags := flowflags s OR FLOW_FLAG_CLEANUP\<rparr>) = entry_ok s"
proof -
  have "(flowflags s OR 0x80) AND 7 = flowflags s AND 7" by (simp add: bit.conj_disj_distrib2)
  then show ?thesis by (simp add: entry_ok_def flow_consts)
qed

lemma safe_open_stream [safe_intros]:
  assumes run: "open_stream buf pkt key fl ts ss st = Inr st'" and fresh: "flowflags (aget (shm_streams (g_shm st)) ss) = 0"
  shows "safe_step st st'"
proof -
  from run obtain l li st1 r ri st2 f st3 where
    1: "addr_entry (net_stream4_left key) (pkt_mac_left buf pkt fl) ts st = Inr (l, li, st1)" and
    2: "addr_entry (net_stream4_right key) (pkt_mac_right buf pkt fl) ts st1 = Inr (r, ri, st2)" and
    3: "shm_stream_upd st2 ss (\<lambda>s. s\<lparr>si_ipproto := ipproto (v4 key), si_lport := lport (v4 key), si_rport := rport (v4 key),
                 idx_left := ucast li, idx_right := ucast ri, si_tstart := ts\<rparr>) = Inr st3" and
    4: "set_stream_flow_flags ss l r st3 = Inr st'"
    by (auto simp: open_stream_def c_simps)
  from 4 obtain left right where 5: "shm_stream_upd st3 ss (flow_flags left right) = Inr st'"
    by (auto simp: set_stream_flow_flags_def c_simps)
  have fl0: "flowflags (aget (shm_streams (g_shm st3)) ss) = 0"
    using stream_upd_shape [OF 3] safe_addr_entry(2) [OF 1] safe_addr_entry(2) [OF 2] fresh by auto
  have s2: "safe_step st st2" using safe_addr_entry(1) [OF 1] safe_addr_entry(1) [OF 2] by (rule safe_trans)
  show ?thesis
  proof (cases "seg_ok st")
    case True
    then have "seg_ok st1" using safe_addr_entry(1) [OF 1] by (simp add: safe_step_def)
    from addr_entry_index [OF 1 True] addr_entry_index [OF 2 this]
    have "unat (ucast li :: u16) < SI_NUM_ADDRS" "unat (ucast ri :: u16) < SI_NUM_ADDRS"
      by (simp_all add: unsigned_ucast_eq le_less_trans [OF take_bit_nat_less_eq_self])
    then have "safe_step st2 st3" by (intro safe_stream_upd [OF 3]) (simp add: entry_ok_def)
    moreover have "safe_step st3 st'" using safe_stream_upd [OF 5] flow_flags_ok [OF fl0] by blast
    ultimately show ?thesis using s2 by (meson safe_trans)
  next
    case False
    then show ?thesis using s2 stream_upd_shape [OF 3] stream_upd_shape [OF 5] by (auto simp: safe_step_def)
  qed
qed

lemma safe_find_stream [safe_intros]:
  assumes "find_stream buf pkt hdr kp key fl st = Inr (r, st')"
  shows "safe_step st st'"
  using assms unfolding find_stream_def
  by (auto simp: c_simps split: option.splits dest: safe_stream_alloc)
     (meson safe_stream_alloc safe_open_stream safe_trans)

lemma safe_note_tcp [safe_intros]:
  assumes "note_tcp pkt ts ss st = Inr st'"
  shows "safe_step st st'"
proof (cases "istcp pkt = 0")
  case False
  with assms obtain st1 s where 1: "shm_stream_upd st ss (\<lambda>s. s\<lparr>si_tcpflags := si_tcpflags s OR tcpflags pkt\<rparr>) = Inr st1"
    and 2: "st' = st1 \<or> (\<exists>st2. add_stream_to_cleanup_list (tv_sec ts) ss st1 = Inr st2 \<and>
      shm_stream_upd st2 ss (\<lambda>s. s\<lparr>flowflags := flowflags s OR FLOW_FLAG_CLEANUP\<rparr>) = Inr st')"
    by (auto simp: note_tcp_def c_simps split: if_splits)
  have "safe_step st st1" by (rule safe_stream_upd [OF 1]) (simp add: entry_ok_def)
  moreover have "safe_step st2 st'" if "shm_stream_upd st2 ss (\<lambda>s. s\<lparr>flowflags := flowflags s OR FLOW_FLAG_CLEANUP\<rparr>) = Inr st'" for st2
    by (rule safe_stream_upd [OF that]) (simp add: cleanup_flag_class)
  ultimately show ?thesis using 2 by (meson safe_add_list safe_trans)
qed (use assms in \<open>simp add: note_tcp_def\<close>)

lemma safe_note_vlan [safe_intros]: "note_vlan buf pkt ss st = Inr st' \<Longrightarrow> safe_step st st'"
  by (auto simp: note_vlan_def c_simps entry_ok_def split: if_splits intro: safe_stream_upd)

lemma safe_inc_addr [safe_intros]: "inc_addr_ctrs l r dir len st = Inr st' \<Longrightarrow> safe_step st st'"
  by (auto simp: inc_addr_ctrs_def c_simps Let_def split: if_splits intro: safe_trans safe_addr_upd)

lemma safe_inc_stream [safe_intros]:
  assumes "inc_stream_counters si dir len st = Inr st'"
  shows "safe_step st st'"
proof -
  from assms [unfolded inc_stream_counters_def bind_r_Inr_iff] obtain st1 s l r st3 where
    1: "shm_stream_upd st si (\<lambda>s. s\<lparr>packets := packets s + 1, bytes := bytes s + len\<rparr>) = Inr st1" and
    2: "(if packets (s :: stream_info_t) = 1 then bind_r (shm_addr_upd st1 l count_stream) (\<lambda>st2. shm_addr_upd st2 r count_stream)
         else Inr st1) = Inr st3" and
    3: "inc_addr_ctrs l r dir len st3 = Inr st'"
    by (auto simp: bind_r_Inr_iff)
  from 2 have 2: "st3 = st1 \<or> (\<exists>st2. shm_addr_upd st1 l count_stream = Inr st2 \<and> shm_addr_upd st2 r count_stream = Inr st3)"
    by (auto simp: c_simps split: if_splits)
  have "safe_step st st1" by (rule safe_stream_upd [OF 1]) (simp add: entry_ok_def)
  then show ?thesis using 2 3 by (meson safe_addr_upd safe_inc_addr safe_trans)
qed

lemma safe_inc_proto [safe_intros]: "inc_protocol_counters p port dir len st = Inr st' \<Longrightarrow> safe_step st st'"
  by (auto simp: inc_protocol_counters_def c_simps safe_step_def seg_ok_def shm_layout_def Let_def arr_rd_def arr_wr_def
      split: option.splits if_splits)

lemma inc_flow_stats_ok:
  assumes "seg_ok st" "entry_ok s"
  shows "shm_inc_flow_stats st s len = Inr (st\<lparr>g_shm := (g_shm st)\<lparr>flow_stats :=
      inc_flow (flow_stats (g_shm st)) (unat (flowflags s AND 7)) len\<rparr>\<rparr>)"
    "unat (flowflags s AND 7) < 5"
    "seg_ok (st\<lparr>g_shm := (g_shm st)\<lparr>flow_stats := inc_flow (flow_stats (g_shm st)) (unat (flowflags s AND 7)) len\<rparr>\<rparr>)"
proof -
  have "unat (flowflags s AND 7) \<le> 4" using assms(2) by (simp add: entry_ok_def word_le_nat_alt)
  then show "shm_inc_flow_stats st s len = Inr (st\<lparr>g_shm := (g_shm st)\<lparr>flow_stats :=
      inc_flow (flow_stats (g_shm st)) (unat (flowflags s AND 7)) len\<rparr>\<rparr>)"
    "unat (flowflags s AND 7) < 5"
    by (simp_all add: shm_inc_flow_stats_def SI_NUM_FLOWTYPES_def Let_def)
  show "seg_ok (st\<lparr>g_shm := (g_shm st)\<lparr>flow_stats := inc_flow (flow_stats (g_shm st)) (unat (flowflags s AND 7)) len\<rparr>\<rparr>)"
    using assms(1) by (simp add: seg_ok_def shm_layout_def inc_flow_def)
qed

lemma count_packet_flow:
  assumes run: "count_packet buf pkt hdr dir ss st = Inr st'" and seg: "seg_ok st"
  shows "seg_ok st' \<and> (\<exists>k < 5. flow_stats (g_shm st') = inc_flow (flow_stats (g_shm st)) k (pkt_len hdr))"
proof -
  from run [unfolded count_packet_def bind_r_Inr_iff] obtain st1 st2 st3 st4 s st5 where
    1: "shm_stream_upd st ss (\<lambda>s. s\<lparr>si_tlast := hdr_ts hdr\<rparr>) = Inr st1" and
    2: "note_tcp pkt (hdr_ts hdr) ss st1 = Inr st2" and 3: "note_vlan buf pkt ss st2 = Inr st3" and
    4: "inc_stream_counters ss dir (pkt_len hdr) st3 = Inr st4" and 5: "shm_stream_rd st4 ss = Inr s" and
    6: "shm_inc_flow_stats st4 s (pkt_len hdr) = Inr st5" and
    7: "inc_protocol_counters (si_ipproto s) (si_rport s) dir (pkt_len hdr) st5 = Inr st'"
    by blast
  have "safe_step st st1" by (rule safe_stream_upd [OF 1]) (simp add: entry_ok_def)
  also note safe_note_tcp [OF 2] also note safe_note_vlan [OF 3] also note safe_inc_stream [OF 4]
  finally have a: "seg_ok st4" "flow_stats (g_shm st4) = flow_stats (g_shm st)" using seg by (simp_all add: safe_step_def)
  have cs: "entry_ok s" using 5 seg_okD(2) [OF a(1)] by (auto simp: shm_stream_rd_def arr_rd_def split: if_splits)
  note f = inc_flow_stats_ok [OF a(1) cs]
  have "seg_ok st5" "flow_stats (g_shm st5) = inc_flow (flow_stats (g_shm st)) (unat (flowflags s AND 7)) (pkt_len hdr)"
    using 6 f a(2) by auto
  with safe_inc_proto [OF 7] f(2) show ?thesis by (auto simp: safe_step_def)
qed

lemma inc_global_flow:
  "flow_stats (g_shm (shm_inc_global st ts len)) = inc_flow (flow_stats (g_shm st)) FLOW_TYPE_TOTAL len"
  "seg_ok st \<Longrightarrow> seg_ok (shm_inc_global st ts len)"
  by (simp_all add: shm_inc_global_def seg_ok_def shm_layout_def inc_flow_def Let_def)

lemma finish_flow:
  assumes "finish_packet file after ck ts c = Inr (ret, c')" "seg_ok (cap_shm c)"
  shows "ret = 0 \<and> seg_ok (cap_shm c') \<and> flow_stats (g_shm (cap_shm c')) = flow_stats (g_shm (cap_shm c))"
  using assms
  by (auto simp: finish_packet_def c_simps safe_step_def split: if_splits dest!: safe_cleanup)

lemma track_flow:
  assumes run: "track_packet file after kp ck hdr buf pkt key fl c = Inr (ret, c')" and seg: "seg_ok (cap_shm c)"
  defines "fs \<equiv> flow_stats (g_shm (cap_shm c))" and "fs' \<equiv> flow_stats (g_shm (cap_shm c'))"
  shows "ret = 0 \<and> seg_ok (cap_shm c') \<and> (fs' = fs \<or> (\<exists>k < 5. fs' = inc_flow fs k (pkt_len hdr)))"
proof -
  from run obtain found st where 1: "find_stream buf pkt hdr kp key fl (cap_shm c) = Inr (found, st)"
    by (auto simp: track_packet_def bind_r_Inr_iff)
  have st: "seg_ok st" "flow_stats (g_shm st) = fs"
    using safe_find_stream [OF 1] seg by (simp_all add: safe_step_def fs_def)
  show ?thesis
  proof (cases found)
    case None
    then show ?thesis using run 1 st by (auto simp: track_packet_def fs'_def)
  next
    case (Some ss)
    with run 1 obtain dir st1 where 2: "count_packet buf pkt hdr dir ss st = Inr st1"
      and 3: "finish_packet file after ck (hdr_ts hdr) (c\<lparr>cap_shm := st1\<rparr>) = Inr (ret, c')"
      by (auto simp: track_packet_def bind_r_Inr_iff)
    from count_packet_flow [OF 2 st(1)] finish_flow [OF 3] st(2) show ?thesis by (auto simp: fs'_def)
  qed
qed

lemma parsed_flow:
  assumes run: "parsed_packet file after kp ck hdr buf pkt c = Inr (ret, c')" and seg: "seg_ok (cap_shm c)"
  defines "fs \<equiv> flow_stats (g_shm (cap_shm c))" and "fs' \<equiv> flow_stats (g_shm (cap_shm c'))"
  shows "ret = 0 \<and> seg_ok (cap_shm c') \<and>
    (fs' = fs \<or> fs' = inc_flow fs FLOW_TYPE_TOTAL (pkt_len hdr) \<or>
     (\<exists>k < 5. fs' = inc_flow (inc_flow fs FLOW_TYPE_TOTAL (pkt_len hdr)) k (pkt_len hdr)))"
proof -
  from run obtain key fl where key: "pkt_init_key buf pkt = Inr (key, fl)" by (auto simp: parsed_packet_def bind_r_Inr_iff)
  let ?st1 = "(cap_shm c)\<lparr>stream_key_mem := (stream_key_mem (cap_shm c))(kp := key)\<rparr>"
  let ?c2 = "c\<lparr>cap_shm := shm_inc_global ?st1 (hdr_ts hdr) (pkt_len hdr)\<rparr>"
  have s1: "seg_ok ?st1" using seg by (simp add: seg_ok_def shm_layout_def)
  have s2: "seg_ok (cap_shm ?c2)" "flow_stats (g_shm (cap_shm ?c2)) = inc_flow fs FLOW_TYPE_TOTAL (pkt_len hdr)"
    using inc_global_flow(2) [OF s1] by (simp_all add: inc_global_flow(1) fs_def)
  have main: "(if net_stream4_left key = 0 \<or> net_stream4_right key = 0 then Inr (0, c\<lparr>cap_shm := ?st1\<rparr>)
     else if pkt_is_v6 pkt then Inr (0, ?c2)
     else track_packet file after kp ck hdr buf pkt key (fl \<noteq> 0) ?c2) = Inr (ret, c')"
    using run unfolding parsed_packet_def key bind_r_simps prod.case Let_def .
  show ?thesis
  proof (cases "net_stream4_left key = 0 \<or> net_stream4_right key = 0")
    case True
    with main have "c' = c\<lparr>cap_shm := ?st1\<rparr>" "ret = 0" by simp_all
    then show ?thesis using s1 by (simp add: fs'_def fs_def)
  next
    case nonzero: False
    show ?thesis
    proof (cases "pkt_is_v6 pkt")
      case True
      with nonzero main have "c' = ?c2" "ret = 0" by simp_all
      then show ?thesis using s2 by (simp add: fs'_def)
    next
      case False
      with nonzero main have "track_packet file after kp ck hdr buf pkt key (fl \<noteq> 0) ?c2 = Inr (ret, c')" by simp
      from track_flow [OF this s2(1)] s2(2) show ?thesis by (simp add: fs'_def)
    qed
  qed
qed

lemma packet_flow:
  assumes run: "on_packet file before after kp ck hdr buf c = Inr (ret, c')" and seg: "seg_ok (cap_shm c)"
  defines "fs \<equiv> flow_stats (g_shm (cap_shm c))" and "fs' \<equiv> flow_stats (g_shm (cap_shm c'))"
  shows "ret = 0 \<and> seg_ok (cap_shm c') \<and>
    (fs' = fs \<or> fs' = inc_flow fs FLOW_TYPE_TOTAL (pkt_len hdr) \<or>
     (\<exists>k < 5. fs' = inc_flow (inc_flow fs FLOW_TYPE_TOTAL (pkt_len hdr)) k (pkt_len hdr)))"
proof -
  from run obtain c1 where 1: "(if file
       then bind_r (before (hdr_ts hdr) (g_shm (cap_shm c)) (cap_sim c)) (\<lambda>s. Inr (c\<lparr>cap_sim := s\<rparr>)) else Inr c) = Inr c1"
    and 2: "bind_r (net_parse hdr buf pkt_init) (\<lambda>(status, pkt).
       if status \<noteq> PARSE_ERR_OK then Inr (0, c1) else parsed_packet file after kp ck hdr buf pkt c1) = Inr (ret, c')"
    unfolding on_packet_def bind_r_Inr_iff by blast
  have c1: "cap_shm c1 = cap_shm c" using 1 by (auto simp: bind_r_Inr_iff split: if_splits)
  from 2 consider "ret = 0" "c' = c1" | pkt where "parsed_packet file after kp ck hdr buf pkt c1 = Inr (ret, c')"
    by (auto simp: bind_r_Inr_iff split: if_splits)
  then show ?thesis
  proof cases
    case 1
    then show ?thesis using seg c1 by (simp add: fs_def fs'_def)
  next
    case 2
    from parsed_flow [OF 2] seg c1 show ?thesis by (simp add: fs_def fs'_def)
  qed
qed

subsection \<open>Runs\<close>

text \<open>
  The states that the capture reaches from its start-up, and the number of packets it has been given:
  the segment is initialised, then packets are handled one after the other.
\<close>

inductive cap_run ::
  "bool \<Rightarrow> 's sim_hook \<Rightarrow> 's sim_hook \<Rightarrow> nat \<Rightarrow> nat \<Rightarrow> nat \<Rightarrow> 's cap_state \<Rightarrow> bool"
  for from_file :: bool and before after :: "'s sim_hook" and kp ck :: nat
where
  start: "shm_data_init skaddr akaddr True st0 = Inr (True, st) \<Longrightarrow>
    cap_run from_file before after kp ck 0 \<lparr>cap_shm = cleanup_init st, last_sec = 0, cap_sim = s\<rparr>"
| packet: "cap_run from_file before after kp ck n c \<Longrightarrow> on_packet from_file before after kp ck hdr buf c = Inr (ret, c') \<Longrightarrow>
    cap_run from_file before after kp ck (Suc n) c'"

definition flow_pkts :: "flow_stats_t list \<Rightarrow> nat \<Rightarrow> nat" where
  "flow_pkts fs k = unat (fs_packets (fs ! k))"

lemma init_segment:
  assumes "shm_data_init skaddr akaddr True st0 = Inr (True, st)"
  shows "seg_ok (cleanup_init st)" "flow_stats (g_shm (cleanup_init st)) = replicate 6 \<lparr>fs_packets = 0, fs_bytes = 0\<rparr>"
proof -
  have heap: "heap_ok st0"
    using assms by (rule contrapos_pp) (simp add: shm_data_init_def HashTableCreate_def SI_NUM_STREAMS_def)
  obtain st' where st': "shm_data_init skaddr akaddr True st0 = Inr (True, st')" "shm_layout st'"
      "g_shm st' = zero_sharedif\<lparr>magic := SHAREDIF_MAGIC, addr_lan_indexes := mga_start lan_array,
       addr_wan_indexes := mga_start wan_array, stream_indexes := mga_start stream_array\<rparr>" "ht_vals (ht_v4addrs st') = {}"
    by (rule shm_init_ok [OF heap])
  then have eq: "st' = st" using assms by simp
  have "shm_layout (cleanup_init st)" using st'(2) by (simp add: eq shm_layout_def cleanup_init_def)
  moreover have "windows_ok (g_shm st)"
    by (simp add: windows_ok_def win_ok_def st'(3) [unfolded eq] mga_start_def)
      (simp add: mga_mid_def lan_array_def wan_array_def stream_array_def SI_NUM_ADDRS_def SI_NUM_STREAMS_def)
  moreover have "entry_ok (aget (shm_streams (g_shm st)) i)" for i
    by (simp add: st'(3) [unfolded eq] entry_ok_def) (simp add: zero_sharedif_def zero_stream_info_def SI_NUM_ADDRS_def)
  ultimately show "seg_ok (cleanup_init st)" using st'(4) by (simp add: eq seg_ok_def cleanup_init_def)
  show "flow_stats (g_shm (cleanup_init st)) = replicate 6 \<lparr>fs_packets = 0, fs_bytes = 0\<rparr>"
    using st'(3) by (simp add: eq cleanup_init_def zero_sharedif_def SI_NUM_FLOWTYPES_def)
qed

lemma length_inc_flow [simp]: "length (inc_flow fs k len) = length fs"
  by (simp add: inc_flow_def)

lemma flow_pkts_inc:
  assumes "k < length fs" "flow_pkts fs k < 2 ^ 32 - 1"
  shows "flow_pkts (inc_flow fs k len) j = flow_pkts fs j + (if j = k then 1 else 0)"
proof -
  have "unat (fs_packets (fs ! k) + 1) = unat (fs_packets (fs ! k)) + 1"
    using assms(2) by (intro unat_plus1) (simp add: flow_pkts_def)
  then show ?thesis using assms(1) by (auto simp: flow_pkts_def inc_flow_def)
qed

lemma run_totals:
  assumes "cap_run from_file before after kp ck n c" "n < 2 ^ 32"
  defines "fs \<equiv> \<lambda>c. flow_stats (g_shm (cap_shm c))"
  shows "seg_ok (cap_shm c) \<and> (\<Sum>k < 5. flow_pkts (fs c) k) \<le> flow_pkts (fs c) 5 \<and> flow_pkts (fs c) 5 \<le> n"
  using assms(1,2)
proof (induction rule: cap_run.induct)
  case (start skaddr akaddr st0 st s)
  from init_segment [OF start(1)] show ?case by (simp add: fs_def flow_pkts_def eval_nat_numeral)
next
  case (packet n c hdr buf ret c')
  let ?len = "pkt_len hdr"
  from packet have IH: "seg_ok (cap_shm c)" "(\<Sum>k < 5. flow_pkts (fs c) k) \<le> flow_pkts (fs c) 5" "flow_pkts (fs c) 5 \<le> n" by simp_all
  have len: "length (fs c) = 6" using IH(1) by (simp add: fs_def seg_ok_def shm_layout_def SI_NUM_FLOWTYPES_def)
  have n: "n < 2 ^ 32 - 1" using packet.prems by simp
  have one: "flow_pkts (inc_flow (fs c) 5 ?len) j = flow_pkts (fs c) j + (if j = 5 then 1 else 0)" for j
    using flow_pkts_inc [of 5 "fs c" ?len j] len IH(3) n by simp
  have two: "flow_pkts (inc_flow (inc_flow (fs c) 5 ?len) k ?len) j = flow_pkts (fs c) j + (if j = 5 then 1 else 0) + (if j = k then 1 else 0)"
    if "k < 5" for j k
  proof -
    have "flow_pkts (fs c) k \<le> (\<Sum>k < 5. flow_pkts (fs c) k)" using that by (intro member_le_sum) auto
    then have "flow_pkts (inc_flow (fs c) 5 ?len) k < 2 ^ 32 - 1" using IH(2,3) n that by (simp add: one)
    then show ?thesis using flow_pkts_inc [of k "inc_flow (fs c) 5 ?len" ?len j] len that by (simp add: one)
  qed
  from packet_flow [OF packet.hyps(2) IH(1)] consider
    "seg_ok (cap_shm c')" "fs c' = fs c" | "seg_ok (cap_shm c')" "fs c' = inc_flow (fs c) 5 ?len"
    | k where "k < 5" "seg_ok (cap_shm c')" "fs c' = inc_flow (inc_flow (fs c) 5 ?len) k ?len"
    by (auto simp: fs_def FLOW_TYPE_TOTAL_def)
  then show ?case
  proof cases
    case 3
    have "(\<Sum>j < 5. flow_pkts (fs c') j) = (\<Sum>j < 5. flow_pkts (fs c) j + (if j = k then 1 else 0))"
      unfolding 3(3) using two [OF 3(1)] by (intro sum.cong) auto
    also have "\<dots> = (\<Sum>j < 5. flow_pkts (fs c) j) + 1" using 3(1) by (simp add: sum.distrib)
    finally show ?thesis using IH 3 two [OF 3(1), of 5] by simp
  qed (use IH one in simp_all)
qed

subsection \<open>Properties\<close>

text \<open>
  C8: Every packet that is handled keeps the segment in order and is counted at most once per level: the
  flow counters are unchanged (the packet was rejected), or only the total counts it (no stream slot was
  free), or the total and exactly one of the five flow types count it.
\<close>

theorem on_packet_flows:
  assumes "on_packet from_file before after kp ck hdr buf c = Inr (ret, c')" and "seg_ok (cap_shm c)"
  defines "fs \<equiv> flow_stats (g_shm (cap_shm c))" and "fs' \<equiv> flow_stats (g_shm (cap_shm c'))"
  shows "ret = 0 \<and> seg_ok (cap_shm c') \<and>
    (fs' = fs \<or> fs' = inc_flow fs FLOW_TYPE_TOTAL (pkt_len hdr) \<or>
     (\<exists>k < 5. fs' = inc_flow (inc_flow fs FLOW_TYPE_TOTAL (pkt_len hdr)) k (pkt_len hdr)))"
  using packet_flow [OF assms(1,2)] by (simp add: fs_def fs'_def)

text \<open>The capture process after its start-up, and a frame that is cut off in its Ethernet header.\<close>

definition fresh_capture :: "shm_state \<Rightarrow> unit cap_state" where
  "fresh_capture st = \<lparr>cap_shm = cleanup_init st, last_sec = 0, cap_sim = ()\<rparr>"

definition cut_hdr :: pcap_pkthdr32_t where
  "cut_hdr = \<lparr>hdr_ts = \<lparr>tv_sec = 5, tv_usec = 0\<rparr>, caplen = 10, pkt_len = 60\<rparr>"

lemma cut_packet:
  "on_packet False (\<lambda>_ _ _. Inr ()) (\<lambda>_ _ _. Inr ()) 7 8 cut_hdr (replicate 10 0) c = Inr (0, c)"
proof -
  have "(case net_parse cut_hdr (replicate 10 0) pkt_init of Inl _ \<Rightarrow> False | Inr (s, _) \<Rightarrow> s \<noteq> PARSE_ERR_OK)" by code_simp
  then show ?thesis by (auto simp: on_packet_def split: sum.splits)
qed

theorem on_packet_flows_witness:
  "\<exists>st. shm_data_init (\<lambda>_. 0) (\<lambda>_. 0) True (shm_statics True) = Inr (True, st) \<and> seg_ok (cap_shm (fresh_capture st)) \<and>
     on_packet False (\<lambda>_ _ _. Inr ()) (\<lambda>_ _ _. Inr ()) 7 8 cut_hdr (replicate 10 0) (fresh_capture st) = Inr (0, fresh_capture st)"
proof -
  have heap: "heap_ok (shm_statics True)" by (simp add: shm_statics_def)
  obtain st where st: "shm_data_init (\<lambda>_. 0) (\<lambda>_. 0) True (shm_statics True) = Inr (True, st)"
    by (rule shm_init_ok [OF heap, of "\<lambda>_. 0" "\<lambda>_. 0"])
  have "seg_ok (cap_shm (fresh_capture st))" using init_segment(1) [OF st] by (simp add: fresh_capture_def)
  from on_packet_flows [OF cut_packet this] st show ?thesis using cut_packet [of "fresh_capture st"] by blast
qed

text \<open>
  C9: The counters of a run add up: after fewer than \<open>2 ^ 32\<close> packets the five flow types together count no
  more packets than the total, and the total no more than were handed over. Every state of the run is
  in order.
\<close>

theorem capture_run_totals:
  assumes "cap_run from_file before after kp ck n c" "n < 2 ^ 32"
  defines "fs \<equiv> flow_stats (g_shm (cap_shm c))"
  shows "seg_ok (cap_shm c) \<and> (\<Sum>k < 5. flow_pkts fs k) \<le> flow_pkts fs FLOW_TYPE_TOTAL \<and> flow_pkts fs FLOW_TYPE_TOTAL \<le> n"
  using run_totals [OF assms(1,2)] by (simp add: fs_def FLOW_TYPE_TOTAL_def)

theorem capture_run_totals_witness:
  "\<exists>st. shm_data_init (\<lambda>_. 0) (\<lambda>_. 0) True (shm_statics True) = Inr (True, st) \<and>
     cap_run False (\<lambda>_ _ _. Inr ()) (\<lambda>_ _ _. Inr ()) 7 8 1 (fresh_capture st) \<and>
     flow_pkts (flow_stats (g_shm (cap_shm (fresh_capture st)))) FLOW_TYPE_TOTAL \<le> 1"
proof -
  have heap: "heap_ok (shm_statics True)" by (simp add: shm_statics_def)
  obtain st where st: "shm_data_init (\<lambda>_. 0) (\<lambda>_. 0) True (shm_statics True) = Inr (True, st)"
    by (rule shm_init_ok [OF heap, of "\<lambda>_. 0" "\<lambda>_. 0"])
  have "cap_run False (\<lambda>_ _ _. Inr ()) (\<lambda>_ _ _. Inr ()) 7 8 0 (fresh_capture st)"
    unfolding fresh_capture_def by (rule cap_run.start [OF st])
  from cap_run.packet [OF this cut_packet]
  have run: "cap_run False (\<lambda>_ _ _. Inr ()) (\<lambda>_ _ _. Inr ()) 7 8 1 (fresh_capture st)" by simp
  from capture_run_totals [OF this] st run show ?thesis by auto
qed

end
