(* ===== verification/StreamTable.thy ===== *)
theory StreamTable
  imports CaptureRun
begin

text \<open>
  The hash table of the streams as the capture process uses it (\<^verbatim>\<open>capture/main.c\<close>, \<^verbatim>\<open>common/shmdata.c\<close>): all its keys are
  the address of one local variable. In every run it has one entry per bucket and is never rehashed, a lookup answers by
  the bucket of the key, and a stream that is released while another key is in the variable stays in it. On a table of this form the release
  of one stream and a whole cleanup pass are characterised, with the slots, the addresses and the lists they change.
\<close>

subsection \<open>The table of the streams\<close>

text \<open>
  Every entry of the table is made with the same pointer: the address \<open>kp\<close> of a local variable of \<^verbatim>\<open>on_packet\<close>, which holds
  the key of the packet that is being handled. So a bucket never has more than one entry: once it has one, every
  key of the bucket finds it. \<open>T\<close> gives the entry of each bucket.
\<close>

definition NUM_BUCKETS :: nat where "NUM_BUCKETS = 6553"

definition bucket :: "stream_key_t \<Rightarrow> nat" where
  "bucket k = unat (hash_stream_key k mod 6553)"

definition kp_buckets :: "nat \<Rightarrow> (nat \<rightharpoonup> nat) \<Rightarrow> (nat \<times> nat) list list" where
  "kp_buckets kp T = map (\<lambda>i. case T i of None \<Rightarrow> [] | Some v \<Rightarrow> [(kp, v)]) [0 ..< NUM_BUCKETS]"

definition kp_table :: "nat \<Rightarrow> (nat \<rightharpoonup> nat) \<Rightarrow> stream_table \<Rightarrow> bool" where
  "kp_table kp T ht \<longleftrightarrow>
     keycmp ht = (\<lambda>mem p q. hcmp_stream_key (mem p) (mem q)) \<and> hashFunction ht = (\<lambda>mem p. hash_stream_key (mem p)) \<and>
     keyDeallocator ht = None \<and> valueDeallocator ht = None \<and> lowerRehashThreshold ht = 0 \<and> upperRehashThreshold ht = 15 \<and>
     numOfBuckets ht = 6553 \<and> bucketArray ht = kp_buckets kp T \<and> dom T \<subseteq> {..<NUM_BUCKETS} \<and>
     numOfElements ht = of_nat (card (dom T))"

lemma bucket_less: "bucket k < NUM_BUCKETS"
  by (simp add: bucket_def NUM_BUCKETS_def unat_mod)

lemma kp_bucket:
  "length (kp_buckets kp T) = NUM_BUCKETS" "i < NUM_BUCKETS \<Longrightarrow> kp_buckets kp T ! i = (case T i of None \<Rightarrow> [] | Some v \<Rightarrow> [(kp, v)])"
  by (simp_all add: kp_buckets_def)

lemma kp_upd:
  assumes "i < NUM_BUCKETS"
  shows "(kp_buckets kp T)[i := [(kp, v)]] = kp_buckets kp (T(i \<mapsto> v))" "(kp_buckets kp T)[i := []] = kp_buckets kp (T(i := None))"
  using assms by (auto simp: kp_bucket nth_list_update intro!: nth_equalityI)

lemma kp_index: "kp_table kp T ht \<Longrightarrow> bucket_index mem ht p = Inr (bucket (mem p))"
  using bucket_less [of "mem p"] by (simp add: bucket_index_def kp_table_def kp_bucket bucket_def Let_def)

lemma kp_card: "kp_table kp T ht \<Longrightarrow> finite (dom T) \<and> card (dom T) \<le> NUM_BUCKETS"
  using card_mono [of "{..<NUM_BUCKETS}" "dom T"] finite_subset [of "dom T" "{..<NUM_BUCKETS}"] by (simp add: kp_table_def)

lemma kp_get: "kp_table kp T ht \<Longrightarrow> HashTableGet mem ht kp = Inr (T (bucket (mem kp)))"
  using bucket_less [of "mem kp"]
  by (simp add: HashTableGet_def kp_index Let_def) (auto simp: kp_table_def kp_bucket hcmp_zero split: option.split)

lemma kp_put:
  assumes tab: "kp_table kp T ht" and new: "T (bucket (mem kp)) = None"
  shows "\<exists>ht'. HashTablePut mem True True ht kp v = Inr (0, mem, ht') \<and> kp_table kp (T(bucket (mem kp) \<mapsto> v)) ht'"
proof -
  let ?b = "bucket (mem kp)" and ?T = "T(bucket (mem kp) \<mapsto> v)"
  let ?ht = "ht\<lparr>bucketArray := (bucketArray ht)[?b := [(kp, v)]], numOfElements := numOfElements ht + 1\<rparr>"
  have b: "bucketArray ht ! ?b = []" using tab new bucket_less by (simp add: kp_table_def kp_bucket)
  have "card (dom ?T) = Suc (card (dom T))" using new kp_card [OF tab] by (simp add: domIff)
  then have t: "kp_table kp ?T ?ht" using tab bucket_less [of "mem kp"] by (auto simp: kp_table_def kp_upd bucket_less)
  then have "card (dom ?T) \<le> 6553" using kp_card [OF t] by (simp add: NUM_BUCKETS_def)
  then have "(of_nat (card (dom ?T)) :: u32) \<le> 6553" by (simp add: word_le_nat_alt unat_of_nat)
  then have "elementToBucketRatio ?ht \<le> 15"
    using t by (intro ratio_small) (simp_all add: kp_table_def)
  then have "HashTablePut mem True True ht kp v = Inr (0, mem, ?ht)"
    using tab b by (simp add: HashTablePut_def kp_index Let_def) (simp add: kp_table_def)
  with t show ?thesis by blast
qed

lemma kp_remove:
  assumes tab: "kp_table kp T ht"
  shows "\<exists>ht'. HashTableRemove mem ok ht p = Inr (mem, ht') \<and>
    kp_table kp (if mem p = mem kp then T(bucket (mem p) := None) else T) ht'"
proof -
  let ?b = "bucket (mem p)"
  have bk: "bucketArray ht ! ?b = (case T ?b of None \<Rightarrow> [] | Some v \<Rightarrow> [(kp, v)])" using tab bucket_less by (simp add: kp_table_def kp_bucket)
  have funs: "keycmp ht = (\<lambda>mem p q. hcmp_stream_key (mem p) (mem q))" "keyDeallocator ht = None" "valueDeallocator ht = None"
    "lowerRehashThreshold ht = 0" using tab by (simp_all add: kp_table_def)
  show ?thesis
  proof (cases "mem p = mem kp \<and> T ?b \<noteq> None")
    case True
    then obtain v where v: "T ?b = Some v" by auto
    let ?ht = "ht\<lparr>bucketArray := (bucketArray ht)[?b := []], numOfElements := numOfElements ht - 1\<rparr>"
    have "card (dom T) = Suc (card (dom (T(?b := None))))"
      using v kp_card [OF tab] card_Suc_Diff1 [of "dom T" ?b] by (auto simp: domIff simp del: card_Diff_insert)
    then have "kp_table kp (T(?b := None)) ?ht" using tab by (auto simp: kp_table_def kp_upd bucket_less)
    moreover have "HashTableRemove mem ok ht p = Inr (mem, ?ht)"
      using funs tab True v bk by (simp add: HashTableRemove_def kp_index Let_def hcmp_zero dealloc_pair_def dealloc_def)
    ultimately show ?thesis using True by auto
  next
    case False
    have "T(?b := None) = T" if "T ?b = None" using that by auto
    moreover have "HashTableRemove mem ok ht p = Inr (mem, ht)"
      using funs tab False bk by (auto simp: HashTableRemove_def kp_index Let_def hcmp_zero split: option.split)
    ultimately show ?thesis using False tab by auto
  qed
qed

subsection \<open>What touches the streams\<close>

text \<open>
  The part of the state that the handling of streams depends on. Operations on addresses, protocols and flows leave
  it alone; an update of stream \<open>i\<close> changes that entry only.
\<close>

definition sview :: "shm_state \<Rightarrow> stream_table \<times> (nat \<Rightarrow> stream_key_t) \<times> bool \<times> stream_info_t carray \<times> mga_info_t \<times> alist_t \<times> stream_info_t mgarray_t" where
  "sview st = (ht_streams st, stream_key_mem st, heap_ok st, shm_streams (g_shm st), stream_indexes (g_shm st), cleanup_streams_list st, g_streams st)"

definition set_entry :: "nat \<Rightarrow> stream_info_t \<Rightarrow> shm_state \<Rightarrow> shm_state" where
  "set_entry i s st = st\<lparr>g_shm := (g_shm st)\<lparr>shm_streams := (shm_streams (g_shm st))\<lparr>aget := (aget (shm_streams (g_shm st)))(i := s)\<rparr>\<rparr>\<rparr>"

abbreviation entry_at :: "shm_state \<Rightarrow> nat \<Rightarrow> stream_info_t" where
  "entry_at st i \<equiv> aget (shm_streams (g_shm st)) i"

lemma sview_cong:
  "sview st = sview st' \<Longrightarrow> entry_at st i = entry_at st' i"
  "sview st = sview st' \<Longrightarrow> sview (set_entry i s st) = sview (set_entry i s st')"
  by (simp_all add: sview_def set_entry_def)

lemma set_entry_simps [simp]:
  "entry_at (set_entry i s st) j = (if j = i then s else entry_at st j)" "set_entry i s' (set_entry i s st) = set_entry i s' st"
  by (simp_all add: set_entry_def)

lemma stream_upd_view: "shm_stream_upd st i f = Inr st' \<Longrightarrow> st' = set_entry i (f (entry_at st i)) st"
  by (drule stream_upd_shape) (simp add: set_entry_def)

lemma stream_rd_view: "shm_stream_rd st i = Inr s \<Longrightarrow> s = entry_at st i"
  by (auto simp: shm_stream_rd_def arr_rd_def split: if_splits)

lemma addr_upd_view: "shm_addr_upd st i f = Inr st' \<Longrightarrow> sview st' = sview st"
  by (drule addr_upd_shape) (simp add: sview_def)

lemma addr_alloc_view:
  assumes "shm_addr_alloc_v4 st ip m = Inr (r, idx, st')"
  shows "sview st' = sview st"
proof -
  from assms obtain q st1 where 1: "mga_alloc_addr st (ipaddr_is_lan ip) = Inr (q, st1)"
    by (auto simp: shm_addr_alloc_v4_def c_simps)
  have "sview st' = sview st1"
  proof (cases q)
    case None
    then show ?thesis using assms 1 by (simp add: shm_addr_alloc_v4_def)
  next
    case (Some pidx)
    with assms 1 obtain f st2 where 2: "shm_addr_upd st1 (unat pidx) f = Inr st2" and "sview st' = sview st2"
      unfolding shm_addr_alloc_v4_def 1 bind_r_simps by (auto simp: bind_r_Inr_iff Let_def sview_def split: if_splits)
    then show ?thesis using addr_upd_view [OF 2] by simp
  qed
  also have "sview st1 = sview st" using 1 by (auto simp: mga_alloc_addr_def bind_r_Inr_iff sview_def split: if_splits)
  finally show ?thesis .
qed

lemma addr_entry_view: "addr_entry ip m ts st = Inr (r, idx, st') \<Longrightarrow> sview st' = sview st"
  by (auto simp: addr_entry_def bind_r_Inr_iff split: option.splits dest!: addr_alloc_view addr_upd_view)

lemma inc_addr_view: "inc_addr_ctrs l r dir len st = Inr st' \<Longrightarrow> sview st' = sview st"
  by (auto simp: inc_addr_ctrs_def bind_r_Inr_iff Let_def split: if_splits dest!: addr_upd_view)

lemma inc_proto_view: "inc_protocol_counters p port dir len st = Inr st' \<Longrightarrow> sview st' = sview st"
  by (auto simp: inc_protocol_counters_def bind_r_Inr_iff Let_def sview_def split: option.splits)

lemma inc_flow_view: "shm_inc_flow_stats st s len = Inr st' \<Longrightarrow> sview st' = sview st"
  by (auto simp: shm_inc_flow_stats_def bind_r_Inr_iff Let_def sview_def)

lemma inc_global_view: "sview (shm_inc_global st ts len) = sview st"
  by (simp add: shm_inc_global_def sview_def Let_def)

text \<open>What counting a packet changes of the entry of its stream.\<close>

definition counted :: "u32 \<Rightarrow> stream_info_t \<Rightarrow> stream_info_t \<Rightarrow> bool" where
  "counted len s s' \<longleftrightarrow> packets s' = packets s + 1 \<and> bytes s' = bytes s + len \<and> si_tstart s' = si_tstart s \<and>
     si_ipproto s' = si_ipproto s \<and> si_lport s' = si_lport s \<and> si_rport s' = si_rport s"

definition same_counts :: "stream_info_t \<Rightarrow> stream_info_t \<Rightarrow> bool" where
  "same_counts s s' \<longleftrightarrow> packets s' = packets s \<and> bytes s' = bytes s \<and> si_tstart s' = si_tstart s \<and>
     si_ipproto s' = si_ipproto s \<and> si_lport s' = si_lport s \<and> si_rport s' = si_rport s"

lemma note_tcp_view:
  assumes "note_tcp pkt ts ss st = Inr st'" "isfin pkt = 0"
  shows "\<exists>s'. sview st' = sview (set_entry ss s' st) \<and> same_counts (entry_at st ss) s'"
proof (cases "istcp pkt = 0")
  case True
  moreover have "set_entry ss (entry_at st ss) st = st" by (simp add: set_entry_def)
  ultimately show ?thesis using assms by (intro exI [of _ "entry_at st ss"]) (simp add: note_tcp_def same_counts_def)
next
  case False
  with assms have "shm_stream_upd st ss (\<lambda>s. s\<lparr>si_tcpflags := si_tcpflags s OR tcpflags pkt\<rparr>) = Inr st'"
    by (auto simp: note_tcp_def bind_r_Inr_iff)
  from stream_upd_view [OF this] show ?thesis by (auto simp: same_counts_def)
qed

lemma note_vlan_view:
  assumes "note_vlan buf pkt ss st = Inr st'"
  shows "\<exists>s'. sview st' = sview (set_entry ss s' st) \<and> same_counts (entry_at st ss) s'"
proof -
  have id: "set_entry ss (entry_at st ss) st = st" by (simp add: set_entry_def)
  from assms consider "st' = st" | v where "shm_stream_upd st ss (\<lambda>s. s\<lparr>vlan := v\<rparr>) = Inr st'"
    by (auto simp: note_vlan_def bind_r_Inr_iff split: if_splits)
  then show ?thesis
  proof cases
    case 1
    with id show ?thesis by (intro exI [of _ "entry_at st ss"]) (simp add: same_counts_def)
  next
    case 2
    from stream_upd_view [OF 2] show ?thesis by (auto simp: same_counts_def)
  qed
qed

lemma inc_stream_view:
  assumes "inc_stream_counters ss dir len st = Inr st'"
  shows "sview st' = sview (set_entry ss ((entry_at st ss)\<lparr>packets := packets (entry_at st ss) + 1, bytes := bytes (entry_at st ss) + len\<rparr>) st)"
proof -
  from assms [unfolded inc_stream_counters_def bind_r_Inr_iff] obtain st1 s l r st3 where
    1: "shm_stream_upd st ss (\<lambda>s. s\<lparr>packets := packets s + 1, bytes := bytes s + len\<rparr>) = Inr st1" and
    2: "(if packets (s :: stream_info_t) = 1 then bind_r (shm_addr_upd st1 l count_stream) (\<lambda>st2. shm_addr_upd st2 r count_stream)
         else Inr st1) = Inr st3" and
    3: "inc_addr_ctrs l r dir len st3 = Inr st'"
    by (auto simp: bind_r_Inr_iff)
  have "sview st3 = sview st1" using 2 by (auto simp: bind_r_Inr_iff split: if_splits dest!: addr_upd_view)
  then show ?thesis using inc_addr_view [OF 3] stream_upd_view [OF 1] by simp
qed

lemma count_packet_view:
  assumes run: "count_packet buf pkt hdr dir ss st = Inr st'" and "isfin pkt = 0"
  shows "\<exists>s'. sview st' = sview (set_entry ss s' st) \<and> counted (pkt_len hdr) (entry_at st ss) s'"
proof -
  from run [unfolded count_packet_def bind_r_Inr_iff] obtain st1 st2 st3 st4 s st5 where
    1: "shm_stream_upd st ss (\<lambda>s. s\<lparr>si_tlast := hdr_ts hdr\<rparr>) = Inr st1" and
    2: "note_tcp pkt (hdr_ts hdr) ss st1 = Inr st2" and 3: "note_vlan buf pkt ss st2 = Inr st3" and
    4: "inc_stream_counters ss dir (pkt_len hdr) st3 = Inr st4" and
    6: "shm_inc_flow_stats st4 s (pkt_len hdr) = Inr st5" and
    7: "inc_protocol_counters (si_ipproto s) (si_rport s) dir (pkt_len hdr) st5 = Inr st'"
    by blast
  define s1 where "s1 = (entry_at st ss)\<lparr>si_tlast := hdr_ts hdr\<rparr>"
  have v1: "st1 = set_entry ss s1 st" using stream_upd_view [OF 1] by (simp add: s1_def)
  obtain s2 where v2: "sview st2 = sview (set_entry ss s2 st)" "same_counts s1 s2"
    using note_tcp_view [OF 2 assms(2)] by (auto simp: v1)
  obtain s3 where v3: "sview st3 = sview (set_entry ss s3 st2)" "same_counts (entry_at st2 ss) s3"
    using note_vlan_view [OF 3] by auto
  have e2: "entry_at st2 ss = s2" using sview_cong(1) [OF v2(1), of ss] by simp
  have v3': "sview st3 = sview (set_entry ss s3 st)" using v3(1) sview_cong(2) [OF v2(1), of ss s3] by simp
  have e3: "entry_at st3 ss = s3" using sview_cong(1) [OF v3', of ss] by simp
  let ?s4 = "s3\<lparr>packets := packets s3 + 1, bytes := bytes s3 + pkt_len hdr\<rparr>"
  have "sview st4 = sview (set_entry ss ?s4 st3)" using inc_stream_view [OF 4] by (simp add: e3)
  also have "\<dots> = sview (set_entry ss ?s4 st)" using sview_cong(2) [OF v3', of ss ?s4] by simp
  finally have "sview st' = sview (set_entry ss ?s4 st)" using inc_flow_view [OF 6] inc_proto_view [OF 7] by simp
  moreover have "counted (pkt_len hdr) (entry_at st ss) ?s4"
    using v2(2) v3(2) by (simp add: counted_def same_counts_def e2 s1_def)
  ultimately show ?thesis by blast
qed

lemma open_stream_view:
  assumes run: "open_stream buf pkt key fl ts ss st = Inr st'"
  shows "\<exists>s'. sview st' = sview (set_entry ss s' st) \<and> packets s' = packets (entry_at st ss) \<and> bytes s' = bytes (entry_at st ss) \<and>
    si_tstart s' = ts \<and> si_ipproto s' = ipproto (v4 key) \<and> si_lport s' = lport (v4 key) \<and> si_rport s' = rport (v4 key)"
proof -
  from run obtain l li st1 r ri st2 f st3 where
    1: "addr_entry (net_stream4_left key) (pkt_mac_left buf pkt fl) ts st = Inr (l, li, st1)" and
    2: "addr_entry (net_stream4_right key) (pkt_mac_right buf pkt fl) ts st1 = Inr (r, ri, st2)" and
    3: "shm_stream_upd st2 ss (\<lambda>s. s\<lparr>si_ipproto := ipproto (v4 key), si_lport := lport (v4 key), si_rport := rport (v4 key),
                 idx_left := ucast li, idx_right := ucast ri, si_tstart := ts\<rparr>) = Inr st3" and
    4: "set_stream_flow_flags ss l r st3 = Inr st'"
    by (auto simp: open_stream_def c_simps)
  from 4 obtain left right where 5: "shm_stream_upd st3 ss (flow_flags left right) = Inr st'"
    by (auto simp: set_stream_flow_flags_def c_simps)
  have v2: "sview st2 = sview st" using addr_entry_view [OF 1] addr_entry_view [OF 2] by simp
  note v3 = stream_upd_view [OF 3] and v5 = stream_upd_view [OF 5]
  have "sview st' = sview (set_entry ss (flow_flags left right (entry_at st3 ss)) st)"
    using sview_cong(2) [OF v2] by (simp add: v5 v3)
  then show ?thesis using sview_cong(1) [OF v2, of ss]
    by (intro exI [of _ "flow_flags left right (entry_at st3 ss)"]) (simp add: v3 flow_flags_def Let_def)
qed

subsection \<open>The table in every run\<close>

text \<open>The table of the streams keeps its shape whatever the packets are, ends of connections and cleanups included.\<close>

definition table_ok :: "nat \<Rightarrow> shm_state \<Rightarrow> bool" where
  "table_ok kp st \<longleftrightarrow> heap_ok st \<and> (\<exists>T. kp_table kp T (ht_streams st))"

definition same_table :: "shm_state \<Rightarrow> shm_state \<Rightarrow> bool" where
  "same_table st st' \<longleftrightarrow> ht_streams st' = ht_streams st \<and> heap_ok st' = heap_ok st"

lemma same_table_ok: "same_table st st' \<Longrightarrow> table_ok kp st' = table_ok kp st"
  by (simp add: same_table_def table_ok_def)

lemma same_table_refl [simp]: "same_table st st"
  by (simp add: same_table_def)

lemma same_table_trans [trans]: "same_table a b \<Longrightarrow> same_table b c \<Longrightarrow> same_table a c"
  by (simp add: same_table_def)

lemma same_view: "sview st' = sview st \<Longrightarrow> same_table st st'"
  by (simp add: same_table_def sview_def)

lemma stream_upd_table: "shm_stream_upd st i f = Inr st' \<Longrightarrow> same_table st st'"
  by (drule stream_upd_shape) (simp add: same_table_def)

lemma addr_upd_table: "shm_addr_upd st i f = Inr st' \<Longrightarrow> same_table st st'"
  by (drule addr_upd_view) (rule same_view)

lemma add_list_table: "add_stream_to_cleanup_list sec ss st = Inr st' \<Longrightarrow> same_table st st'"
  by (auto simp: same_table_def add_stream_to_cleanup_list_def bind_r_Inr_iff Let_def split: if_splits)

lemma addr_free_table: "shm_addr_free st idx = Inr st' \<Longrightarrow> same_table st st'"
  by (auto simp: same_table_def shm_addr_free_def bind_r_Inr_iff split: if_splits)

lemma free_idle_table: "free_if_idle i st = Inr st' \<Longrightarrow> same_table st st'"
  by (auto simp: free_if_idle_def bind_r_Inr_iff split: if_splits dest: addr_free_table)

lemma slot_empty_table: "set_stream_slot_empty st i = Inr st' \<Longrightarrow> same_table st st'"
  by (auto simp: same_table_def set_stream_slot_empty_def bind_r_Inr_iff)

lemma move_wait_table: "move_wait i st = Inr st' \<Longrightarrow> same_table st st'"
  by (auto simp: same_table_def move_wait_def bind_r_Inr_iff)

lemma check_expired_table: "check_expired sec i st = Inr st' \<Longrightarrow> same_table st st'"
  by (auto simp: check_expired_def bind_r_Inr_iff split: if_splits dest: add_list_table)

lemma note_tcp_table:
  assumes "note_tcp pkt ts ss st = Inr st'"
  shows "same_table st st'"
proof (cases "istcp pkt = 0")
  case False
  with assms obtain st1 s where 1: "shm_stream_upd st ss (\<lambda>s. s\<lparr>si_tcpflags := si_tcpflags s OR tcpflags pkt\<rparr>) = Inr st1"
    and 2: "st' = st1 \<or> (\<exists>st2. add_stream_to_cleanup_list (tv_sec ts) ss st1 = Inr st2 \<and>
      shm_stream_upd st2 ss (\<lambda>s. s\<lparr>flowflags := flowflags s OR FLOW_FLAG_CLEANUP\<rparr>) = Inr st')"
    by (auto simp: note_tcp_def bind_r_Inr_iff split: if_splits)
  then show ?thesis by (meson stream_upd_table add_list_table same_table_trans)
qed (use assms in \<open>simp add: note_tcp_def\<close>)

lemma count_packet_table:
  assumes run: "count_packet buf pkt hdr dir ss st = Inr st'"
  shows "same_table st st'"
proof -
  from run [unfolded count_packet_def bind_r_Inr_iff] obtain st1 st2 st3 st4 s st5 where
    1: "shm_stream_upd st ss (\<lambda>s. s\<lparr>si_tlast := hdr_ts hdr\<rparr>) = Inr st1" and
    2: "note_tcp pkt (hdr_ts hdr) ss st1 = Inr st2" and 3: "note_vlan buf pkt ss st2 = Inr st3" and
    4: "inc_stream_counters ss dir (pkt_len hdr) st3 = Inr st4" and
    6: "shm_inc_flow_stats st4 s (pkt_len hdr) = Inr st5" and
    7: "inc_protocol_counters (si_ipproto s) (si_rport s) dir (pkt_len hdr) st5 = Inr st'"
    by blast
  have set: "same_table st (set_entry i s st)" for i s st by (simp add: same_table_def set_entry_def)
  note stream_upd_table [OF 1] also note note_tcp_table [OF 2]
  also have "same_table st2 st3" using note_vlan_view [OF 3] set by (auto simp: same_table_def sview_def)
  also have "same_table st3 st4" using inc_stream_view [OF 4] set by (auto simp: same_table_def sview_def)
  also note same_view [OF inc_flow_view [OF 6]] also note same_view [OF inc_proto_view [OF 7]]
  finally show ?thesis .
qed

lemma open_stream_table: "open_stream buf pkt key fl ts ss st = Inr st' \<Longrightarrow> same_table st st'"
  by (drule open_stream_view) (auto simp: same_table_def sview_def set_entry_def)

lemma find_stream_table:
  assumes ok: "table_ok kp st" and run: "find_stream buf pkt hdr kp key fl st = Inr (r, st')"
  shows "table_ok kp st'"
proof -
  from ok obtain T where heap: "heap_ok st" and tab: "kp_table kp T (ht_streams st)" by (auto simp: table_ok_def)
  have look: "shm_stream_lookup st kp = Inr (T (bucket (stream_key_mem st kp)))"
    using kp_get [OF tab, of "stream_key_mem st"] by (simp add: shm_stream_lookup_def)
  show ?thesis
  proof (cases "T (bucket (stream_key_mem st kp))")
    case (Some ss)
    then show ?thesis using run look ok by (simp add: find_stream_def)
  next
    case None
    with run look obtain new st1 where 1: "shm_stream_alloc st kp = Inr (new, st1)"
      and 2: "st' = st1 \<or> (\<exists>ss. open_stream buf pkt key fl (hdr_ts hdr) ss st1 = Inr st')"
      by (auto simp: find_stream_def bind_r_Inr_iff split: option.splits)
    have "table_ok kp st1"
    proof (cases new)
      case new: None
      then have "same_table st st1" using 1 by (auto simp: shm_stream_alloc_def bind_r_Inr_iff Let_def same_table_def split: option.splits)
      then show ?thesis using ok same_table_ok by blast
    next
      case (Some ss)
      with 1 heap obtain r mem ht i where put: "HashTablePut (stream_key_mem st) True True (ht_streams st) kp i = Inr (r, mem, ht)"
        and st1: "ht_streams st1 = ht" "heap_ok st1 = heap_ok st"
        by (auto simp: shm_stream_alloc_def bind_r_Inr_iff Let_def split: option.splits dest!: stream_upd_shape)
      from kp_put [of kp T "ht_streams st" "stream_key_mem st", OF tab None, of i] put have "\<exists>T. kp_table kp T ht" by auto
      then show ?thesis using st1 heap by (simp add: table_ok_def)
    qed
    then show ?thesis using 2 open_stream_table same_table_ok by blast
  qed
qed

lemma lookup_free_table:
  assumes ok: "table_ok kp st" and run: "shm_stream_lookup_free (st\<lparr>stream_key_mem := m\<rparr>) p = Inr st'"
  shows "table_ok kp st'"
proof -
  from ok obtain T where heap: "heap_ok st" and tab: "kp_table kp T (ht_streams st)" by (auto simp: table_ok_def)
  from kp_remove [OF tab, of m "heap_ok st" p] obtain ht where "HashTableRemove m (heap_ok st) (ht_streams st) p = Inr (m, ht)" "\<exists>T. kp_table kp T ht"
    by blast
  then show ?thesis using run heap by (auto simp: shm_stream_lookup_free_def table_ok_def)
qed

lemma release_table:
  assumes ok: "table_ok kp st" and run: "release_stream ck i st = Inr st'"
  shows "table_ok kp st'"
proof -
  from run [unfolded release_stream_def bind_r_Inr_iff] obtain s :: stream_info_t and key st1 li ri st2 st3 st4 st5 where
    1: "shm_stream_lookup_free (st\<lparr>stream_key_mem := (stream_key_mem st)(ck := key)\<rparr>) ck = Inr st1" and
    2: "shm_addr_upd st1 li (\<lambda>a. a\<lparr>nstreams_active := nstreams_active a - 1\<rparr>) = Inr st2" and
    3: "shm_addr_upd st2 ri (\<lambda>a. a\<lparr>nstreams_active := nstreams_active a - 1\<rparr>) = Inr st3" and
    4: "free_if_idle (idx_left s) st3 = Inr st4" "free_if_idle (idx_right s) st4 = Inr st5" and
    5: "set_stream_slot_empty st5 i = Inr st'"
    by blast
  note addr_upd_table [OF 2] also note addr_upd_table [OF 3]
  also note free_idle_table [OF 4(1)] also note free_idle_table [OF 4(2)] also note slot_empty_table [OF 5]
  finally show ?thesis using lookup_free_table [OF ok 1] same_table_ok by blast
qed

lemma table_fold:
  assumes "\<And>x s s'. table_ok kp s \<Longrightarrow> f x s = Inr s' \<Longrightarrow> table_ok kp s'" "table_ok kp st" "fold_r f xs st = Inr st'"
  shows "table_ok kp st'"
  using fold_r_keeps [of xs "table_ok kp" f st st'] assms by blast

lemma cleanup_table:
  assumes ok: "table_ok kp st" and run: "cleanup_expired_streams ck sec st = Inr st'"
  shows "table_ok kp st'"
proof (cases "sec mod 60 < STAT_PROCESS_TIME_SEC \<or> alist_is_empty (cleanup_streams_list st)")
  case True
  then show ?thesis using ok run by (simp add: cleanup_expired_streams_def)
next
  case False
  with run obtain st1 st2 st4 where
    1: "find_expired_streams sec st = Inr st1" and
    2: "fold_r (release_stream ck) (alist_items (cleanup_streams_list st1)) st1 = Inr st2" and
    3: "fold_r move_wait (alist_items (cleanup_streams_wait st2)) (st2\<lparr>cleanup_streams_list := alist_clear (cleanup_streams_list st2)\<rparr>) = Inr st4" and
    4: "st' = st4\<lparr>cleanup_streams_wait := alist_clear (cleanup_streams_wait st4)\<rparr>"
    by (auto simp: cleanup_expired_streams_def bind_r_Inr_iff Let_def)
  have "table_ok kp st1" using 1 ok check_expired_table same_table_ok table_fold [of kp "check_expired sec"]
    by (simp add: find_expired_streams_def Let_def) blast
  then have "table_ok kp st2" using table_fold [of kp "release_stream ck"] 2 release_table by blast
  then have "table_ok kp (st2\<lparr>cleanup_streams_list := alist_clear (cleanup_streams_list st2)\<rparr>)" by (simp add: table_ok_def)
  then have "table_ok kp st4" using table_fold [of kp move_wait] 3 move_wait_table same_table_ok by blast
  then show ?thesis by (simp add: 4 table_ok_def)
qed

lemma packet_table:
  assumes run: "on_packet file before after kp ck hdr buf c = Inr (ret, c')" and ok: "table_ok kp (cap_shm c)"
  shows "table_ok kp (cap_shm c')"
proof -
  have finish: "table_ok kp (cap_shm c'')" if "finish_packet file after ck ts c1 = Inr (r, c'')" "table_ok kp (cap_shm c1)" for ts c1 r c''
    using that by (auto simp: finish_packet_def bind_r_Inr_iff split: if_splits dest: cleanup_table)
  have track: "table_ok kp (cap_shm c'')" if run: "track_packet file after kp ck hdr buf pkt key fl c1 = Inr (r, c'')" and ok: "table_ok kp (cap_shm c1)" for pkt key fl c1 r c''
  proof -
    from run obtain found st where 1: "find_stream buf pkt hdr kp key fl (cap_shm c1) = Inr (found, st)"
      by (auto simp: track_packet_def bind_r_Inr_iff)
    have st: "table_ok kp st" by (rule find_stream_table [OF ok 1])
    show ?thesis
    proof (cases found)
      case None
      then show ?thesis using run 1 st by (auto simp: track_packet_def)
    next
      case (Some ss)
      with run 1 obtain dir st1 where 2: "count_packet buf pkt hdr dir ss st = Inr st1"
        and 3: "finish_packet file after ck (hdr_ts hdr) (c1\<lparr>cap_shm := st1\<rparr>) = Inr (r, c'')"
        by (auto simp: track_packet_def bind_r_Inr_iff)
      show ?thesis using finish [OF 3] same_table_ok [OF count_packet_table [OF 2]] st by simp
    qed
  qed
  have glob: "table_ok kp (shm_inc_global (st\<lparr>stream_key_mem := m\<rparr>) ts len) = table_ok kp st" "table_ok kp (st\<lparr>stream_key_mem := m\<rparr>) = table_ok kp st" for st m ts len
    by (simp_all add: table_ok_def shm_inc_global_def Let_def)
  from run obtain c1 where 1: "(if file
       then bind_r (before (hdr_ts hdr) (g_shm (cap_shm c)) (cap_sim c)) (\<lambda>s. Inr (c\<lparr>cap_sim := s\<rparr>)) else Inr c) = Inr c1"
    and 2: "bind_r (net_parse hdr buf pkt_init) (\<lambda>(status, pkt).
       if status \<noteq> PARSE_ERR_OK then Inr (0, c1) else parsed_packet file after kp ck hdr buf pkt c1) = Inr (ret, c')"
    unfolding on_packet_def bind_r_Inr_iff by blast
  have c1: "cap_shm c1 = cap_shm c" using 1 by (auto simp: bind_r_Inr_iff split: if_splits)
  from 2 consider "c' = c1" | pkt where "parsed_packet file after kp ck hdr buf pkt c1 = Inr (ret, c')"
    by (auto simp: bind_r_Inr_iff split: if_splits)
  then show ?thesis
  proof cases
    case 1
    then show ?thesis using ok c1 by simp
  next
    case 2
    then show ?thesis using ok c1 glob
      by (auto simp: parsed_packet_def bind_r_Inr_iff Let_def split: if_splits intro: track)
  qed
qed

lemma init_table:
  assumes "shm_data_init skaddr akaddr True st0 = Inr (True, st)"
  shows "kp_table kp Map.empty (ht_streams st)"
proof -
  have "bucketArray ht = kp_buckets kp Map.empty \<and> numOfBuckets ht = 6553 \<and> numOfElements ht = 0 \<and> lowerRehashThreshold ht = 0 \<and>
      upperRehashThreshold ht = 15 \<and> keyDeallocator ht = None \<and> valueDeallocator ht = None"
    if "HashTableCreate skaddr b b 6553 = Inr (Some ht)" for b and ht :: stream_table
    using that by (auto simp: HashTableCreate_def kp_buckets_def NUM_BUCKETS_def map_replicate_const split: if_splits)
  then show ?thesis using assms
    by (auto simp: shm_data_init_def bind_r_Inr_iff Let_def split_beta kp_table_def SI_NUM_STREAMS_def
        HashTableSetHashFunction_def HashTableSetKeyComparisonFunction_def split: option.splits)
qed

lemma run_table:
  assumes "cap_run from_file before after kp ck n c"
  shows "table_ok kp (cap_shm c)"
  using assms
proof (induction rule: cap_run.induct)
  case (start skaddr akaddr st0 st s)
  have heap: "heap_ok st0"
    using start by (rule contrapos_pp) (simp add: shm_data_init_def HashTableCreate_def SI_NUM_STREAMS_def)
  obtain st' where "shm_data_init skaddr akaddr True st0 = Inr (True, st')" "heap_ok st'" by (rule shm_init_ok [OF heap])
  then show ?case using init_table [OF start] start by (auto simp: table_ok_def cleanup_init_def)
next
  case (packet n c hdr buf ret c')
  then show ?case using packet_table by blast
qed

subsection \<open>Releasing streams\<close>

text \<open>
  What a release needs in order not to fault: the arrays have their sizes, their windows cover the entries in use, the table has its
  form, all addresses are IPv4, and the streams refer to slots of the address array. Every release keeps it.
\<close>

definition clean_ok :: "nat \<Rightarrow> shm_state \<Rightarrow> bool" where
  "clean_ok kp st \<longleftrightarrow> shm_layout st \<and> covers stream_array (stream_indexes (g_shm st)) (shm_streams (g_shm st)) \<and>
     (\<forall>b. covers (part_array b) (part_info st b) (shm_addrs (g_shm st))) \<and> (\<exists>T. kp_table kp T (ht_streams st)) \<and>
     (\<forall>j. ai_isv6 (aget (shm_addrs (g_shm st)) j) = 0) \<and> (\<forall>j. refs_ok (entry_at st j))"

abbreviation active_at :: "shm_state \<Rightarrow> nat \<Rightarrow> u16" where
  "active_at st j \<equiv> nstreams_active (aget (shm_addrs (g_shm st)) j)"

text \<open>What a step on the table or on an address keeps.\<close>

definition step_keeps :: "nat \<Rightarrow> shm_state \<Rightarrow> shm_state \<Rightarrow> bool" where
  "step_keeps kp st st' \<longleftrightarrow> clean_ok kp st' \<and> shm_streams (g_shm st') = shm_streams (g_shm st) \<and> lists_of st' = lists_of st"

lemma covers_addrs:
  assumes "\<And>j. tv_sec (ai_tstart (A j)) = tv_sec (ai_tstart (aget es j))"
  shows "covers (part_array b) p (es\<lparr>aget := A\<rparr>) = covers (part_array b) p es"
  by (rule covers_cong) (simp add: taken_addr assms)

lemma drop_step:
  assumes ok: "clean_ok kp st" and j: "j < SI_NUM_ADDRS"
  shows "\<exists>st'. shm_addr_upd st j (\<lambda>a. a\<lparr>nstreams_active := nstreams_active a - 1\<rparr>) = Inr st' \<and> step_keeps kp st st' \<and>
    (\<forall>k. active_at st' k = active_at st k - (if k = j then 1 else 0))"
proof -
  let ?A = "(aget (shm_addrs (g_shm st)))(j := drop_stream (aget (shm_addrs (g_shm st)) j))"
  let ?st = "st\<lparr>g_shm := (g_shm st)\<lparr>shm_addrs := (shm_addrs (g_shm st))\<lparr>aget := ?A\<rparr>\<rparr>\<rparr>"
  have "alen (shm_addrs (g_shm st)) = SI_NUM_ADDRS" using ok by (simp add: clean_ok_def shm_layout_def)
  then have "shm_addr_upd st j (\<lambda>a. a\<lparr>nstreams_active := nstreams_active a - 1\<rparr>) = Inr ?st"
    using j by (simp add: shm_addr_upd_def drop_stream_def)
  moreover have "covers (part_array b) (part_info ?st b) (shm_addrs (g_shm ?st))" for b
  proof -
    have "tv_sec (ai_tstart (?A i)) = tv_sec (ai_tstart (aget (shm_addrs (g_shm st)) i))" for i by simp
    from covers_addrs [of ?A "shm_addrs (g_shm st)", OF this] show ?thesis using ok by (cases b) (simp_all add: clean_ok_def part_info_def all_bool_eq)
  qed
  then have "step_keeps kp st ?st"
    using ok by (simp add: step_keeps_def clean_ok_def shm_layout_def lists_of_def drop_stream_def)
  ultimately show ?thesis by (intro exI [of _ ?st]) (simp add: fun_eq_iff)
qed

lemma cleared_addrs:
  assumes "es' \<in> {es, managed_array.clr_slot (part_array b) es x}"
  shows "alen es' = alen es" "nstreams_active (aget es' j) = nstreams_active (aget es j)" "ai_isv6 (aget es' j) = ai_isv6 (aget es j)"
    "tv_sec (ai_tstart (aget es' j)) = (if j = x \<and> es' \<noteq> es then 0 else tv_sec (ai_tstart (aget es j)))"
  using assms by (auto simp: managed_array.clr_slot_def [OF part_managed] part_func addr_isempty_func_def)

lemma covers_less:
  assumes "covers (part_array b) p es" "es' \<in> {es, managed_array.clr_slot (part_array b') es x}"
  shows "covers (part_array b) p es'"
  using assms(1) cleared_addrs(4) [OF assms(2)] by (auto simp: covers_def taken_addr split: if_splits)

lemma free_step:
  assumes ok: "clean_ok kp st" and x: "unat idx < SI_NUM_ADDRS"
  shows "\<exists>st'. shm_addr_free st idx = Inr st' \<and> step_keeps kp st st' \<and> (\<forall>j. active_at st' j = active_at st j)"
proof -
  let ?b = "unat idx < 256" and ?es = "shm_addrs (g_shm st)"
  have cov: "covers (part_array b) (part_info st b) ?es" for b using ok by (simp add: clean_ok_def)
  have len: "alen ?es = SI_NUM_ADDRS" and lay: "shm_layout st" using ok by (simp_all add: clean_ok_def shm_layout_def)
  from managed_array.free_total [OF part_managed cov len x, of ?b] obtain p es where
    run: "mga_free_entry (part_array ?b) (part_info st ?b) ?es idx = Inr (p, es)" and
    es: "covers (part_array ?b) p es" "es \<in> {?es, managed_array.clr_slot (part_array ?b) ?es (unat idx)}"
    by blast
  have other: "covers (part_array b) (part_info st b) es" for b by (rule covers_less [OF cov es(2)])
  let ?st = "st\<lparr>g_shm := (if ?b then (g_shm st)\<lparr>addr_lan_indexes := p, shm_addrs := es\<rparr>
      else (g_shm st)\<lparr>addr_wan_indexes := p, shm_addrs := es\<rparr>)\<rparr>"
  have side: "(total_entries lan_array \<le> idx) = (\<not> ?b)" by (auto simp: lan_array_def word_nat)
  have "shm_addr_free st idx = Inr ?st"
    using run side lay by (cases ?b) (simp_all add: shm_addr_free_def shm_layout_def part_array_def part_info_def)
  moreover have "covers (part_array b) (part_info ?st b) (shm_addrs (g_shm ?st))" for b
    using es(1) other [of b] by (cases ?b; cases b) (simp_all add: part_info_def)
  then have "step_keeps kp st ?st" using ok cleared_addrs(1,3) [OF es(2)]
    by (cases ?b) (simp_all add: step_keeps_def clean_ok_def shm_layout_def lists_of_def)
  moreover have "(\<forall>j. active_at ?st j = active_at st j)" using cleared_addrs(2) [OF es(2)] by (auto simp: fun_eq_iff)
  ultimately show ?thesis by blast
qed

lemma free_idle_step:
  assumes ok: "clean_ok kp st" and x: "unat idx < SI_NUM_ADDRS"
  shows "\<exists>st'. free_if_idle idx st = Inr st' \<and> step_keeps kp st st' \<and> (\<forall>j. active_at st' j = active_at st j)"
proof (cases "active_at st (unat idx) = 0")
  case True
  have "unat (ucast idx :: u32) < SI_NUM_ADDRS" using x by simp
  with free_step [OF ok this] True ok x show ?thesis by (simp add: free_if_idle_def shm_addr_rd_def clean_ok_def shm_layout_def)
next
  case False
  then show ?thesis using ok x
    by (simp add: free_if_idle_def shm_addr_rd_def clean_ok_def shm_layout_def step_keeps_def)
qed

definition clear_entry :: "stream_info_t \<Rightarrow> stream_info_t" where
  "clear_entry s = s\<lparr>si_tstart := (si_tstart s)\<lparr>tv_sec := 0\<rparr>\<rparr>"

lemma slot_step:
  assumes ok: "clean_ok kp st" and i: "i < SI_NUM_STREAMS"
  shows "\<exists>st'. set_stream_slot_empty st i = Inr st' \<and> clean_ok kp st' \<and> lists_of st' = lists_of st \<and>
    (\<forall>j. entry_at st' j = (if j = i then clear_entry (entry_at st j) else entry_at st j)) \<and> (\<forall>j. active_at st' j = active_at st j)"
proof -
  let ?es = "shm_streams (g_shm st)"
  have un: "unat (of_nat i :: u32) = i" using i by (simp add: SI_NUM_STREAMS_def unat_of_nat)
  have lay: "shm_layout st" "alen ?es = SI_NUM_STREAMS" and cov: "covers stream_array (stream_indexes (g_shm st)) ?es"
    using ok by (simp_all add: clean_ok_def shm_layout_def)
  from strm.free_total [OF cov lay(2), of "of_nat i"] i obtain p es where
    run: "mga_free_entry stream_array (stream_indexes (g_shm st)) ?es (of_nat i) = Inr (p, es)" and
    es: "covers stream_array p es" "es \<in> {?es, strm.clr_slot ?es i}" "\<not> taken stream_array es i"
    unfolding un by (auto simp: stream_array_def SI_NUM_STREAMS_def)
  let ?st = "st\<lparr>g_shm := (g_shm st)\<lparr>stream_indexes := p, shm_streams := es\<rparr>\<rparr>"
  have "set_stream_slot_empty st i = Inr ?st" using run lay(1) by (simp add: set_stream_slot_empty_def shm_layout_def)
  moreover have ent: "aget es = (aget ?es)(i := clear_entry (aget ?es i))"
  proof (cases "es = ?es")
    case True
    with es(3) have "tv_sec (si_tstart (aget ?es i)) = 0"
      by (auto simp: taken_def stream_array_def stream_isempty_func_def Let_def split: if_splits)
    then show ?thesis by (simp add: True fun_eq_iff clear_entry_def)
  next
    case False
    then show ?thesis using es(2)
      by (auto simp: fun_eq_iff strm.aget_slot) (simp_all add: stream_array_def stream_isempty_func_def Let_def clear_entry_def)
  qed
  moreover have "clean_ok kp ?st" using ok es(1,2) ent
    by (auto simp: clean_ok_def shm_layout_def part_info_def all_bool_eq refs_ok_def clear_entry_def)
  ultimately show ?thesis by (intro exI [of _ ?st]) (simp add: lists_of_def)
qed

lemma remove_step:
  assumes ok: "clean_ok kp st"
  shows "\<exists>st'. shm_stream_lookup_free (st\<lparr>stream_key_mem := m\<rparr>) p = Inr st' \<and> step_keeps kp st st' \<and> (\<forall>j. active_at st' j = active_at st j)"
proof -
  from ok obtain T where "kp_table kp T (ht_streams st)" by (auto simp: clean_ok_def)
  from kp_remove [OF this, of m "heap_ok st" p] obtain ht where
    run: "HashTableRemove m (heap_ok st) (ht_streams st) p = Inr (m, ht)" and "\<exists>T. kp_table kp T ht" by blast
  then have "step_keeps kp st (st\<lparr>stream_key_mem := m, ht_streams := ht\<rparr>)" using ok
    by (simp add: step_keeps_def clean_ok_def shm_layout_def part_info_def lists_of_def all_bool_eq)
  then show ?thesis using run by (simp add: shm_stream_lookup_free_def)
qed

lemma release_total:
  assumes ok: "clean_ok kp st" and i: "i < SI_NUM_STREAMS"
  defines "s \<equiv> entry_at st i"
  shows "\<exists>st'. release_stream ck i st = Inr st' \<and> clean_ok kp st' \<and> lists_of st' = lists_of st \<and>
    (\<forall>j. entry_at st' j = (if j = i then clear_entry (entry_at st j) else entry_at st j)) \<and>
    (\<forall>j. active_at st' j = active_at st j - of_nat (count_list [unat (idx_left s), unat (idx_right s)] j))"
proof -
  let ?l = "unat (idx_left s)" and ?r = "unat (idx_right s)"
  have lr: "?l < SI_NUM_ADDRS" "?r < SI_NUM_ADDRS" using ok by (simp_all add: clean_ok_def refs_ok_def s_def)
  have rd: "shm_stream_rd st i = Inr s" "stream_init_key_from_stream st s = Inr (key_of_stream st s)"
    using ok i lr by (simp_all add: shm_stream_rd_def clean_ok_def shm_layout_def s_def stream_init_key_from_stream_def addr_get_u16
        shm_addr_rd_def key_of_stream_def Let_def)
  obtain st1 where 1: "shm_stream_lookup_free (st\<lparr>stream_key_mem := (stream_key_mem st)(ck := key_of_stream st s)\<rparr>) ck = Inr st1"
      "step_keeps kp st st1" "(\<forall>j. active_at st1 j = active_at st j)" using remove_step [OF ok] by blast
  have ok1: "clean_ok kp st1" using 1 by (simp add: step_keeps_def)
  obtain st2 where 2: "shm_addr_upd st1 ?l (\<lambda>a. a\<lparr>nstreams_active := nstreams_active a - 1\<rparr>) = Inr st2" "step_keeps kp st1 st2"
      "\<forall>k. active_at st2 k = active_at st1 k - (if k = ?l then 1 else 0)" using drop_step [OF ok1 lr(1)] by blast
  have ok2: "clean_ok kp st2" using 2 by (simp add: step_keeps_def)
  obtain st3 where 3: "shm_addr_upd st2 ?r (\<lambda>a. a\<lparr>nstreams_active := nstreams_active a - 1\<rparr>) = Inr st3" "step_keeps kp st2 st3"
      "\<forall>k. active_at st3 k = active_at st2 k - (if k = ?r then 1 else 0)" using drop_step [OF ok2 lr(2)] by blast
  have ok3: "clean_ok kp st3" using 3 by (simp add: step_keeps_def)
  obtain st4 where 4: "free_if_idle (idx_left s) st3 = Inr st4" "step_keeps kp st3 st4" "(\<forall>j. active_at st4 j = active_at st3 j)"
    using free_idle_step [OF ok3 lr(1)] by blast
  have ok4: "clean_ok kp st4" using 4 by (simp add: step_keeps_def)
  obtain st5 where 5: "free_if_idle (idx_right s) st4 = Inr st5" "step_keeps kp st4 st5" "(\<forall>j. active_at st5 j = active_at st4 j)"
    using free_idle_step [OF ok4 lr(2)] by blast
  have ok5: "clean_ok kp st5" using 5 by (simp add: step_keeps_def)
  obtain st' where 6: "set_stream_slot_empty st5 i = Inr st'" "clean_ok kp st'" "lists_of st' = lists_of st5"
      "\<forall>j. entry_at st' j = (if j = i then clear_entry (entry_at st5 j) else entry_at st5 j)" "(\<forall>j. active_at st' j = active_at st5 j)"
    using slot_step [OF ok5 i] by blast
  have "release_stream ck i st = Inr st'"
    using rd lr 1(1) 2(1) 3(1) 4(1) 5(1) 6(1) by (simp add: release_stream_def addr_get_u16)
  moreover have "\<forall>j. entry_at st5 j = entry_at st j" "lists_of st5 = lists_of st" using 1(2) 2(2) 3(2) 4(2) 5(2) by (simp_all add: step_keeps_def)
  moreover have "active_at st' j = active_at st j - of_nat (count_list [?l, ?r] j)" for j
    using 1(3) 2(3) 3(3) 4(3) 5(3) 6(5) by simp
  ultimately show ?thesis using 6(2-4) by (auto simp: s_def)
qed

text \<open>The addresses of a stream.\<close>

definition ends :: "shm_state \<Rightarrow> nat \<Rightarrow> nat list" where
  "ends st i = [unat (idx_left (entry_at st i)), unat (idx_right (entry_at st i))]"

lemma releases_total:
  assumes "clean_ok kp st" "\<forall>i \<in> set is. i < SI_NUM_STREAMS"
  shows "\<exists>st'. fold_r (release_stream ck) is st = Inr st' \<and> clean_ok kp st' \<and> lists_of st' = lists_of st \<and>
    (\<forall>j. entry_at st' j = (if j \<in> set is then clear_entry (entry_at st j) else entry_at st j)) \<and>
    (\<forall>j. active_at st' j = active_at st j - of_nat (count_list (concat (map (ends st) is)) j))"
  using assms
proof (induction "is" arbitrary: st)
  case (Cons i "is")
  then obtain st1 where 1: "release_stream ck i st = Inr st1" "clean_ok kp st1" "lists_of st1 = lists_of st"
      "\<forall>j. entry_at st1 j = (if j = i then clear_entry (entry_at st j) else entry_at st j)"
      "\<forall>j. active_at st1 j = active_at st j - of_nat (count_list (ends st i) j)"
    using release_total [of kp st i ck] by (auto simp: ends_def)
  from Cons.IH [OF 1(2)] Cons.prems(2) obtain st' where 2: "fold_r (release_stream ck) is st1 = Inr st'" "clean_ok kp st'"
      "lists_of st' = lists_of st1"
      "\<forall>j. entry_at st' j = (if j \<in> set is then clear_entry (entry_at st1 j) else entry_at st1 j)"
      "\<forall>j. active_at st' j = active_at st1 j - of_nat (count_list (concat (map (ends st1) is)) j)" by auto
  have "ends st1 = ends st" using 1(4) by (auto simp: ends_def fun_eq_iff clear_entry_def)
  then have "active_at st' j = active_at st j - of_nat (count_list (concat (map (ends st) (i # is))) j)" for j
    using 1(5) 2(5) by (simp add: diff_diff_add)
  moreover have "entry_at st' j = (if j \<in> set (i # is) then clear_entry (entry_at st j) else entry_at st j)" for j
    using 1(4) 2(4) by (simp add: clear_entry_def)
  ultimately show ?case using 1(1,3) 2(1-3) by simp
qed simp

text \<open>
  The release of one stream on the table as it is: the entry of its bucket goes when the variable of the caller holds the key of the
  stream, and otherwise the table stays as it is.
\<close>

lemma release_kp:
  fixes st :: shm_state and i :: nat
  defines "s \<equiv> aget (shm_streams (g_shm st)) i" and "A \<equiv> aget (shm_addrs (g_shm st))"
  assumes lay: "shm_layout st" and tab: "kp_table kp T (ht_streams st)" and ck: "ck \<noteq> kp"
    and inv: "mga_inv stream_array (stream_indexes (g_shm st)) (shm_streams (g_shm st))" and parts: "addr_parts st"
    and i: "i \<in> taken_slots stream_array (shm_streams (g_shm st))"
    and room: "free_room stream_array (stream_indexes (g_shm st)) (shm_streams (g_shm st)) i"
    and drop: "can_drop st s" "idx_left s \<noteq> idx_right s" "ai_isv6 (A (unat (idx_left s))) = 0"
  obtains st' where "release_stream ck i st = Inr st'" "shm_layout st'" "addr_parts st'"
    "mga_inv stream_array (stream_indexes (g_shm st')) (shm_streams (g_shm st'))"
    "is_stream_slot_empty (entry_at st' i)" "\<forall>j. j \<noteq> i \<longrightarrow> entry_at st' j = entry_at st j"
    "aget (shm_addrs (g_shm st')) = dropped s A"
    "kp_table kp (if key_of_stream st s = stream_key_mem st kp then T(bucket (key_of_stream st s) := None) else T) (ht_streams st')"
proof -
  let ?es = "shm_streams (g_shm st)" and ?mem = "(stream_key_mem st)(ck := key_of_stream st s)"
  have ic: "i < SI_NUM_STREAMS" using i by (simp add: taken_slots_def stream_array_def SI_NUM_STREAMS_def)
  from kp_remove [OF tab, of ?mem "heap_ok st" ck] obtain ht where
    rem0: "HashTableRemove ?mem (heap_ok st) (ht_streams st) ck = Inr (?mem, ht)"
    and "kp_table kp (if ?mem ck = ?mem kp then T(bucket (?mem ck) := None) else T) ht"
    by blast
  then have tab': "kp_table kp (if key_of_stream st s = stream_key_mem st kp then T(bucket (key_of_stream st s) := None) else T) ht"
    using ck by (simp split: if_splits)
  from rem0 have rem: "shm_stream_lookup_free (st\<lparr>stream_key_mem := ?mem\<rparr>) ck = Inr (st\<lparr>stream_key_mem := ?mem, ht_streams := ht\<rparr>)"
    by (simp add: shm_stream_lookup_free_def)
  obtain p q where run: "release_stream ck i st = set_stream_slot_empty (with_addrs p q (dropped s A) (st\<lparr>stream_key_mem := ?mem, ht_streams := ht\<rparr>)) i"
    and parts': "addr_parts (with_addrs p q (dropped s A) st)"
    unfolding s_def A_def by (rule release_after_remove [OF lay parts ic drop [unfolded s_def A_def] rem [unfolded s_def]])
  obtain w where inv': "mga_inv stream_array w (strm.clr_slot ?es i)"
    and slot: "\<forall>p q A' mem ht. set_stream_slot_empty (with_addrs p q A' (st\<lparr>stream_key_mem := mem, ht_streams := ht\<rparr>)) i =
      Inr ((with_addrs p q A' (st\<lparr>stream_key_mem := mem, ht_streams := ht\<rparr>))\<lparr>g_shm := (g_shm (with_addrs p q A' st))
        \<lparr>stream_indexes := w, shm_streams := strm.clr_slot ?es i\<rparr>\<rparr>)"
    by (rule slot_emptied [OF lay inv i room])
  define st' where "st' = (with_addrs p q (dropped s A) (st\<lparr>stream_key_mem := ?mem, ht_streams := ht\<rparr>))\<lparr>g_shm := (g_shm (with_addrs p q (dropped s A) st))
    \<lparr>stream_indexes := w, shm_streams := strm.clr_slot ?es i\<rparr>\<rparr>"
  show ?thesis
  proof (rule that [of st'])
    show "release_stream ck i st = Inr st'" using run slot by (simp add: st'_def)
    show "shm_layout st'" using lay by (simp add: shm_layout_def st'_def with_addrs_def)
    show "addr_parts st'" using parts' by (simp add: addr_parts_def part_info_def st'_def with_addrs_def all_bool_eq)
    show "mga_inv stream_array (stream_indexes (g_shm st')) (shm_streams (g_shm st'))" using inv' by (simp add: st'_def)
    show "is_stream_slot_empty (entry_at st' i)" using cleared_slot [of ?es i] by (simp add: st'_def)
    show "\<forall>j. j \<noteq> i \<longrightarrow> entry_at st' j = entry_at st j" by (simp add: st'_def strm.aget_slot)
    show "aget (shm_addrs (g_shm st')) = dropped s A" by (simp add: st'_def with_addrs_def)
    show "kp_table kp (if key_of_stream st s = stream_key_mem st kp then T(bucket (key_of_stream st s) := None) else T) (ht_streams st')"
      using tab' by (simp add: st'_def with_addrs_def)
  qed
qed

subsection \<open>Properties\<close>

text \<open>
  C10: The table of the streams keeps its form in every run: it has the 6553 buckets it was created with, every bucket has
  at most one entry, and its key is the pointer to the variable of the caller. A lookup
  therefore answers by the bucket of the key alone, and no more than 6553 conversations are told apart.
\<close>

theorem stream_table_form:
  assumes "cap_run from_file before after kp ck n c"
  shows "\<exists>T. numOfBuckets (ht_streams (cap_shm c)) = 6553 \<and> card (dom T) \<le> 6553 \<and>
    bucketArray (ht_streams (cap_shm c)) = map (\<lambda>b. case T b of None \<Rightarrow> [] | Some i \<Rightarrow> [(kp, i)]) [0 ..< 6553] \<and>
    (\<forall>k. shm_stream_lookup ((cap_shm c)\<lparr>stream_key_mem := (stream_key_mem (cap_shm c))(kp := k)\<rparr>) kp =
      Inr (T (unat (hash_stream_key k mod 6553))))"
proof -
  from run_table [OF assms] obtain T where T: "kp_table kp T (ht_streams (cap_shm c))" by (auto simp: table_ok_def)
  have "shm_stream_lookup ((cap_shm c)\<lparr>stream_key_mem := (stream_key_mem (cap_shm c))(kp := k)\<rparr>) kp = Inr (T (bucket k))" for k
    using kp_get [OF T, of "(stream_key_mem (cap_shm c))(kp := k)"] by (simp add: shm_stream_lookup_def)
  moreover have "card (dom T) \<le> 6553" using kp_card [OF T] by (simp add: NUM_BUCKETS_def)
  moreover have "numOfBuckets (ht_streams (cap_shm c)) = 6553 \<and> bucketArray (ht_streams (cap_shm c)) = kp_buckets kp T"
    using T by (simp add: kp_table_def)
  ultimately show ?thesis unfolding kp_buckets_def NUM_BUCKETS_def bucket_def by blast
qed

theorem stream_table_form_witness:
  "\<exists>st. shm_data_init (\<lambda>_. 0) (\<lambda>_. 0) True (shm_statics True) = Inr (True, st) \<and>
     cap_run False (\<lambda>_ _ _. Inr ()) (\<lambda>_ _ _. Inr ()) 7 8 1 (fresh_capture st) \<and>
     numOfBuckets (ht_streams (cap_shm (fresh_capture st))) = 6553"
proof -
  have heap: "heap_ok (shm_statics True)" by (simp add: shm_statics_def)
  obtain st where st: "shm_data_init (\<lambda>_. 0) (\<lambda>_. 0) True (shm_statics True) = Inr (True, st)"
    by (rule shm_init_ok [OF heap, of "\<lambda>_. 0" "\<lambda>_. 0"])
  have "cap_run False (\<lambda>_ _ _. Inr ()) (\<lambda>_ _ _. Inr ()) 7 8 0 (fresh_capture st)"
    unfolding fresh_capture_def by (rule cap_run.start [OF st])
  from cap_run.packet [OF this cut_packet]
  have run: "cap_run False (\<lambda>_ _ _. Inr ()) (\<lambda>_ _ _. Inr ()) 7 8 1 (fresh_capture st)" by simp
  from stream_table_form [OF run] st run show ?thesis by blast
qed

text \<open>
  C32: A stream that is released while the caller's variable holds another key stays in the table. The release compares its
  key with the key in the variable, finds them different and leaves the entry; the slot is freed all the same, and the next
  packet of the conversation finds the free slot.
\<close>

theorem released_stream_still_found:
  fixes st :: shm_state and i :: nat
  defines "s \<equiv> aget (shm_streams (g_shm st)) i" and "A \<equiv> aget (shm_addrs (g_shm st))"
  assumes lay: "shm_layout st" and tab: "kp_table kp T (ht_streams st)" and ck: "ck \<noteq> kp"
    and inv: "mga_inv stream_array (stream_indexes (g_shm st)) (shm_streams (g_shm st))" and parts: "addr_parts st"
    and i: "i \<in> taken_slots stream_array (shm_streams (g_shm st))" "T (bucket (key_of_stream st s)) = Some i"
    and room: "free_room stream_array (stream_indexes (g_shm st)) (shm_streams (g_shm st)) i"
    and drop: "can_drop st s" "idx_left s \<noteq> idx_right s" "ai_isv6 (A (unat (idx_left s))) = 0"
    and other: "key_of_stream st s \<noteq> stream_key_mem st kp"
  shows "\<exists>st'. release_stream ck i st = Inr st' \<and> is_stream_slot_empty (aget (shm_streams (g_shm st')) i) \<and>
    shm_stream_lookup (st'\<lparr>stream_key_mem := (stream_key_mem st')(kp := key_of_stream st s)\<rparr>) kp = Inr (Some i)"
proof -
  obtain st' where run: "release_stream ck i st = Inr st'" "is_stream_slot_empty (entry_at st' i)"
    and "kp_table kp (if key_of_stream st s = stream_key_mem st kp then T(bucket (key_of_stream st s) := None) else T) (ht_streams st')"
    unfolding s_def by (rule release_kp [OF lay tab ck inv parts i(1) room drop [unfolded s_def A_def]])
  then have tab': "kp_table kp T (ht_streams st')" using other by simp
  show ?thesis using run i(2) kp_get [OF tab', of "(stream_key_mem st')(kp := key_of_stream st s)"]
    by (intro exI [of _ st']) (simp add: shm_stream_lookup_def)
qed

text \<open>The stream of \<^term>\<open>pair_shm\<close>, entered in the table, and a packet of another conversation.\<close>

definition pair_key :: stream_key_t where
  "pair_key = fst (net_stream_init_v4 0 0 0 0 0)"

definition packet_of_other :: stream_key_t where
  "packet_of_other = fst (net_stream_init_v4 6 0x0201A8C0 0x0101A8C0 4321 80)"

lemma other_bucket: "bucket pair_key \<noteq> bucket packet_of_other" "bucket packet_of_other \<noteq> bucket pair_key"
  by code_simp+

lemma pair_key_of: "key_of_stream (st\<lparr>g_shm := pair_shm\<rparr>) (aget (shm_streams pair_shm) 16384) = pair_key"
  by (simp add: key_of_stream_def pair_stream pair_key_def Let_def) (simp add: pair_addrs_def zero_addr_info_def zero_stream_info_def)

lemma pair_refs: "ai_isv6 (aget (shm_addrs pair_shm) j) = 0" "refs_ok (aget (shm_streams pair_shm) j)"
  by (simp add: pair_stream, simp add: pair_addrs_def zero_addr_info_def)
    (simp add: pair_shm_def one_stream_shm_def refs_ok_def SI_NUM_ADDRS_def, simp add: zero_stream_info_def)

lemma two_streams:
  obtains st0 ht where "shm_layout st0" "kp_table 7 [bucket pair_key \<mapsto> 16384, bucket packet_of_other \<mapsto> 5] ht"
proof -
  have heap: "heap_ok (shm_statics True)" by (simp add: shm_statics_def)
  obtain st0 where st0: "shm_data_init (\<lambda>_. 0) (\<lambda>_. 0) True (shm_statics True) = Inr (True, st0)" "shm_layout st0"
    by (rule shm_init_ok [OF heap, of "\<lambda>_. 0" "\<lambda>_. 0"])
  obtain ht1 where tab: "kp_table 7 [bucket pair_key \<mapsto> 16384] ht1"
    using kp_put [OF init_table [OF st0(1), of 7], of "\<lambda>_. pair_key" 16384] by auto
  then obtain ht where "kp_table 7 [bucket pair_key \<mapsto> 16384, bucket packet_of_other \<mapsto> 5] ht"
    using kp_put [OF tab, of "\<lambda>_. packet_of_other" 5] other_bucket by auto
  with st0(2) that show ?thesis by blast
qed

theorem released_stream_still_found_witness:
  "\<exists>st st'. stream_key_mem st 7 = packet_of_other \<and> release_stream 8 16384 st = Inr st' \<and>
     is_stream_slot_empty (aget (shm_streams (g_shm st')) 16384) \<and>
     shm_stream_lookup (st'\<lparr>stream_key_mem := (stream_key_mem st')(7 := pair_key)\<rparr>) 7 = Inr (Some 16384)"
proof -
  have heap: "heap_ok (shm_statics True)" by (simp add: shm_statics_def)
  obtain st0 where st0: "shm_data_init (\<lambda>_. 0) (\<lambda>_. 0) True (shm_statics True) = Inr (True, st0)" "shm_layout st0"
    by (rule shm_init_ok [OF heap, of "\<lambda>_. 0" "\<lambda>_. 0"])
  obtain ht where tab: "kp_table 7 [bucket pair_key \<mapsto> 16384] ht"
    using kp_put [OF init_table [OF st0(1), of 7], of "\<lambda>_. pair_key" 16384] by auto
  let ?st = "(st0\<lparr>ht_streams := ht, stream_key_mem := (\<lambda>_. packet_of_other)\<rparr>)\<lparr>g_shm := pair_shm\<rparr>"
  have lay: "shm_layout ?st" by (rule pair_ready(4)) (use st0(2) in \<open>simp add: shm_layout_def\<close>)
  have key: "key_of_stream ?st (aget (shm_streams (g_shm ?st)) 16384) = pair_key"
    by (simp add: key_of_stream_def pair_stream pair_key_def Let_def) (simp add: pair_addrs_def zero_addr_info_def zero_stream_info_def)
  have ne: "pair_key \<noteq> packet_of_other" by code_simp
  have "\<exists>st'. release_stream 8 16384 ?st = Inr st' \<and> is_stream_slot_empty (aget (shm_streams (g_shm st')) 16384) \<and>
     shm_stream_lookup (st'\<lparr>stream_key_mem := (stream_key_mem st')(7 := pair_key)\<rparr>) 7 = Inr (Some 16384)"
    using released_stream_still_found [OF lay, of 7 "[bucket pair_key \<mapsto> 16384]" 8 16384] tab pair_ready(1-3)
      pair_ready(5) [of "st0\<lparr>ht_streams := ht, stream_key_mem := (\<lambda>_. packet_of_other)\<rparr>"]
      pair_parts [of "st0\<lparr>ht_streams := ht, stream_key_mem := (\<lambda>_. packet_of_other)\<rparr>"] key ne
    by (simp add: pair_stream)
  moreover have "stream_key_mem ?st 7 = packet_of_other" by simp
  ultimately show ?thesis by blast
qed

text \<open>
  C21: Releasing a stream, on the table as the capture uses it, where every key is the variable \<open>kp\<close> of the caller: the slot is
  free and no other slot changes, each of its two addresses has one active stream less, and an address that has none left is freed, as
  long as its part of the array keeps an entry. The invariants of all three arrays hold again. The bucket of the stream is emptied, and no other,
  when the variable, which has the key of the packet that is being handled, holds the key of the stream; when it holds another key the
  release leaves the table as it is.
\<close>

theorem release_stream_correct:
  fixes st :: shm_state and i :: nat
  defines "s \<equiv> aget (shm_streams (g_shm st)) i" and "A \<equiv> aget (shm_addrs (g_shm st))"
  assumes lay: "shm_layout st" and tab: "kp_table kp T (ht_streams st)" and ck: "ck \<noteq> kp"
    and inv: "mga_inv stream_array (stream_indexes (g_shm st)) (shm_streams (g_shm st))" and parts: "addr_parts st"
    and i: "i \<in> taken_slots stream_array (shm_streams (g_shm st))"
    and room: "free_room stream_array (stream_indexes (g_shm st)) (shm_streams (g_shm st)) i"
    and drop: "can_drop st s" "idx_left s \<noteq> idx_right s" "ai_isv6 (A (unat (idx_left s))) = 0"
  shows "\<exists>st'. release_stream ck i st = Inr st' \<and> shm_layout st' \<and> addr_parts st' \<and>
    mga_inv stream_array (stream_indexes (g_shm st')) (shm_streams (g_shm st')) \<and>
    is_stream_slot_empty (aget (shm_streams (g_shm st')) i) \<and>
    (\<forall>j. j \<noteq> i \<longrightarrow> aget (shm_streams (g_shm st')) j = aget (shm_streams (g_shm st)) j) \<and>
    aget (shm_addrs (g_shm st')) = dropped s A \<and>
    (\<forall>k. shm_stream_lookup (st'\<lparr>stream_key_mem := (stream_key_mem st')(kp := k)\<rparr>) kp =
      Inr (if key_of_stream st s = stream_key_mem st kp \<and> bucket k = bucket (key_of_stream st s) then None else T (bucket k)))"
proof -
  let ?T = "if key_of_stream st s = stream_key_mem st kp then T(bucket (key_of_stream st s) := None) else T"
  obtain st' where run: "release_stream ck i st = Inr st'" "shm_layout st'" "addr_parts st'"
    "mga_inv stream_array (stream_indexes (g_shm st')) (shm_streams (g_shm st'))"
    "is_stream_slot_empty (entry_at st' i)" "\<forall>j. j \<noteq> i \<longrightarrow> entry_at st' j = entry_at st j"
    "aget (shm_addrs (g_shm st')) = dropped s A" and tab': "kp_table kp ?T (ht_streams st')"
    unfolding s_def A_def by (rule release_kp [OF lay tab ck inv parts i room drop [unfolded s_def A_def]])
  have "shm_stream_lookup (st'\<lparr>stream_key_mem := (stream_key_mem st')(kp := k)\<rparr>) kp = Inr (?T (bucket k))" for k
    using kp_get [OF tab', of "(stream_key_mem st')(kp := k)"] by (simp add: shm_stream_lookup_def)
  with run show ?thesis by (intro exI [of _ st']) auto
qed

text \<open>Two streams are in the table. The packet is of the first, which is released; the second is found as before.\<close>

theorem release_stream_correct_witness:
  "\<exists>st st'. shm_stream_lookup st 7 = Inr (Some 16384) \<and> release_stream 8 16384 st = Inr st' \<and>
     is_stream_slot_empty (aget (shm_streams (g_shm st')) 16384) \<and>
     is_addr_slot_empty (aget (shm_addrs (g_shm st')) 127) \<and> nstreams_active (aget (shm_addrs (g_shm st')) 128) = 1 \<and>
     shm_stream_lookup (st'\<lparr>stream_key_mem := (stream_key_mem st')(7 := pair_key)\<rparr>) 7 = Inr None \<and>
     shm_stream_lookup (st'\<lparr>stream_key_mem := (stream_key_mem st')(7 := packet_of_other)\<rparr>) 7 = Inr (Some 5)"
proof -
  obtain st0 ht where st0: "shm_layout st0" and tab: "kp_table 7 [bucket pair_key \<mapsto> 16384, bucket packet_of_other \<mapsto> 5] ht"
    by (rule two_streams)
  let ?st0 = "st0\<lparr>ht_streams := ht, stream_key_mem := (\<lambda>_. pair_key)\<rparr>"
  let ?st = "?st0\<lparr>g_shm := pair_shm\<rparr>" and ?s = "aget (shm_streams pair_shm) 16384"
  have lay: "shm_layout ?st" by (rule pair_ready(4)) (use st0 in \<open>simp add: shm_layout_def\<close>)
  have key: "key_of_stream ?st ?s = pair_key" by (rule pair_key_of)
  obtain st' where run: "release_stream 8 16384 ?st = Inr st'" "is_stream_slot_empty (aget (shm_streams (g_shm st')) 16384)"
    "aget (shm_addrs (g_shm st')) = dropped ?s pair_addrs"
    and look: "\<forall>k. shm_stream_lookup (st'\<lparr>stream_key_mem := (stream_key_mem st')(7 := k)\<rparr>) 7 =
      Inr (if bucket k = bucket pair_key then None else [bucket pair_key \<mapsto> 16384, bucket packet_of_other \<mapsto> 5] (bucket k))"
    using release_stream_correct [OF lay, of 7 "[bucket pair_key \<mapsto> 16384, bucket packet_of_other \<mapsto> 5]" 8 16384] tab pair_ready(1-3)
      pair_ready(5) [of ?st0] pair_parts [of ?st0] key
    by (auto simp: pair_stream)
  have "is_addr_slot_empty (dropped ?s pair_addrs 127)" "nstreams_active (dropped ?s pair_addrs 128) = 1"
    by (simp_all add: dropped_def pair_stream idle_clear_def pair_addrs_def is_addr_slot_empty_def drop_stream_def)
  moreover have "shm_stream_lookup ?st 7 = Inr (Some 16384)"
    using kp_get [OF tab, of "\<lambda>_. pair_key"] other_bucket by (simp add: shm_stream_lookup_def)
  ultimately show ?thesis using run look other_bucket by (intro exI [of _ ?st] exI [of _ st']) simp
qed

text \<open>
  C22: One cleanup pass, on a state in which the table has the form it has in every run, the windows cover the entries in use, the addresses
  are IPv4 and the streams refer to slots of the address array (\<^term>\<open>clean_ok\<close>): it returns, and such a state is left. Outside the first quarter of a minute, with something on
  the main list, the pass first queues every stream of the window that has been idle for more than 30 seconds, on the
  main list in the last five seconds of a minute and on the wait list otherwise. (The comment at the head of
  \<^verbatim>\<open>cleanup.c\<close> says the opposite: the wait list in the first 15 seconds and the main list from then on.) It then releases
  every stream of the main list: their slots are free and no other stream changes, and the number of active streams of
  every address goes down by its ends among them, counted twice where a stream is on the list twice. At last the wait list becomes the main list, as far as it
  has room, so that what waits is released by the next pass.
\<close>

theorem cleanup_pass:
  assumes ok: "clean_ok kp st" and wf: "lists_wf st" "cleanup_room st"
    and slots: "\<forall>i \<in> set (alist_items (cleanup_streams_list st)). i < SI_NUM_STREAMS"
    and due: "15 \<le> sec mod 60" "alist_items (cleanup_streams_list st) \<noteq> []"
  defines "found \<equiv> filter (idle sec st) (stream_window st)"
    and "main \<equiv> cleanup_streams_list st" and "wait \<equiv> cleanup_streams_wait st"
  defines "released \<equiv> (if 55 \<le> sec mod 60 then take (unat (al_num_entries main)) (alist_items main @ found) else alist_items main)"
  shows "\<exists>st'. cleanup_expired_streams ck sec st = Inr st' \<and> clean_ok kp st' \<and>
    alist_items (cleanup_streams_list st') =
      (if 55 \<le> sec mod 60 then alist_items wait else take (unat (al_num_entries wait)) (alist_items wait @ found)) \<and>
    alist_items (cleanup_streams_wait st') = [] \<and>
    (\<forall>j. entry_at st' j = (if j \<in> set released then (entry_at st j)\<lparr>si_tstart := (si_tstart (entry_at st j))\<lparr>tv_sec := 0\<rparr>\<rparr> else entry_at st j)) \<and>
    (\<forall>j. active_at st' j = active_at st j - of_nat (count_list (concat (map (ends st) released)) j))"
proof -
  let ?st1 = "if sec mod 60 \<ge> 55 then st\<lparr>cleanup_streams_list := list_extend (cleanup_streams_list st) found\<rparr>
     else st\<lparr>cleanup_streams_wait := list_extend (cleanup_streams_wait st) found\<rparr>"
  have lay: "shm_layout st" and cov: "covers stream_array (stream_indexes (g_shm st)) (shm_streams (g_shm st))"
    using ok by (simp_all add: clean_ok_def)
  have rel: "alist_items (cleanup_streams_list ?st1) = released" by (simp add: released_def main_def)
  have ends: "ends ?st1 = ends st" by (simp add: ends_def fun_eq_iff)
  have "clean_ok kp ?st1" using ok by (simp add: clean_ok_def shm_layout_def part_info_def all_bool_eq)
  moreover have "\<forall>i \<in> set released. i < SI_NUM_STREAMS"
    using slots stream_window_range [OF cov] by (auto simp: released_def main_def found_def dest!: in_set_takeD)
  ultimately obtain st2 where st2: "fold_r (release_stream ck) released ?st1 = Inr st2" "clean_ok kp st2" "lists_of st2 = lists_of ?st1"
      "\<forall>j. entry_at st2 j = (if j \<in> set released then clear_entry (entry_at ?st1 j) else entry_at ?st1 j)"
      "\<forall>j. active_at st2 j = active_at ?st1 j - of_nat (count_list (concat (map (ends ?st1) released)) j)"
    using releases_total [of kp ?st1 released ck] by blast
  have "cleanup_expired_streams ck sec st = Inr (cycled st2)"
    using cleanup_eq [OF lay wf cov _ due(2), of sec ck] due(1) st2(1) unfolding found_def [symmetric] rel by simp
  moreover have "clean_ok kp (cycled st2)" using st2(2) by (simp add: clean_ok_def shm_layout_def part_info_def all_bool_eq cycled_def)
  moreover have "alist_items (cleanup_streams_list (cycled st2)) = alist_items (cleanup_streams_wait st2)"
    "alist_items (cleanup_streams_wait (cycled st2)) = []" by (simp_all add: cycled_def alist_items_def)
  moreover have "cleanup_streams_wait st2 = cleanup_streams_wait ?st1" using st2(3) by (simp add: lists_of_def)
  moreover have "g_shm (cycled st2) = g_shm st2" by (simp add: cycled_def)
  ultimately show ?thesis using st2(4,5) unfolding ends by (intro exI [of _ "cycled st2"]) (simp add: wait_def clear_entry_def)
qed

text \<open>
  At second 50 of a minute the stream of \<^term>\<open>pair_shm\<close> is on the main list and has been idle for long; slot 5 waits. The pass
  releases the stream, and both slots are on the main list for the next pass.
\<close>

theorem cleanup_pass_witness:
  "\<exists>st st'. alist_items (cleanup_streams_list st) = [16384] \<and> alist_items (cleanup_streams_wait st) = [5] \<and>
     \<not> is_stream_slot_empty (entry_at st 16384) \<and> active_at st 127 = 1 \<and> active_at st 128 = 2 \<and>
     cleanup_expired_streams 8 170 st = Inr st' \<and> alist_items (cleanup_streams_list st') = [5, 16384] \<and>
     alist_items (cleanup_streams_wait st') = [] \<and> is_stream_slot_empty (entry_at st' 16384) \<and> active_at st' 127 = 0 \<and> active_at st' 128 = 1"
proof -
  obtain st0 ht where st0: "shm_layout st0" and tab: "kp_table 7 [bucket pair_key \<mapsto> 16384, bucket packet_of_other \<mapsto> 5] ht"
    by (rule two_streams)
  let ?st0 = "st0\<lparr>ht_streams := ht, cleanup_streams_list := \<lparr>entries = Some [16384], al_num_entries = 3276\<rparr>,
    cleanup_streams_wait := \<lparr>entries = Some [5], al_num_entries = 1638\<rparr>\<rparr>"
  let ?st = "?st0\<lparr>g_shm := pair_shm\<rparr>"
  have items: "alist_items (cleanup_streams_list ?st) = [16384]" "alist_items (cleanup_streams_wait ?st) = [5]"
    by (simp_all add: alist_items_def)
  have "shm_layout ?st" by (rule pair_ready(4)) (use st0 in \<open>simp add: shm_layout_def\<close>)
  then have ok: "clean_ok 7 ?st"
    using tab pair_parts [of ?st0] pair_ready(1) pair_refs by (auto simp: clean_ok_def addr_parts_def intro: inv_covers)
  have wf: "lists_wf ?st" "cleanup_room ?st" by (simp_all add: lists_wf_def cleanup_room_def alist_wf_def alist_items_def)
  have "idle 170 ?st 16384" by (simp add: idle_def is_stream_slot_empty_def pair_stream STREAM_EXPIRED_SEC_def)
  moreover have "stream_window ?st = [16384]" by (simp add: stream_window_def pair_shm_def one_stream_shm_def upt_rec [of 16384])
  ultimately have found: "filter (idle 170 ?st) (stream_window ?st) = [16384]" by simp
  have ends: "ends ?st 16384 = [127, 128]" by (simp add: ends_def pair_stream)
  obtain st' where "cleanup_expired_streams 8 170 ?st = Inr st'" "alist_items (cleanup_streams_list st') = [5, 16384]"
      "alist_items (cleanup_streams_wait st') = []" "is_stream_slot_empty (entry_at st' 16384)"
      "active_at st' 127 = active_at ?st 127 - 1" "active_at st' 128 = active_at ?st 128 - 1"
    using cleanup_pass [OF ok wf, of 170 8] items found ends by (auto simp: SI_NUM_STREAMS_def is_stream_slot_empty_def)
  moreover have "active_at ?st 127 = 1" "active_at ?st 128 = 2" by (simp_all add: pair_stream) (simp_all add: pair_addrs_def)
  moreover have "\<not> is_stream_slot_empty (entry_at ?st 16384)" by (simp add: pair_stream is_stream_slot_empty_def)
  ultimately show ?thesis using items by (intro exI [of _ ?st] exI [of _ st']) simp
qed

end
