(* ===== verification/Conversations.thy ===== *)
theory Conversations
  imports StreamTable
begin

text \<open>
  The capture counts conversations: from the start-up on, for every list of packets that close no connection and whose
  addresses fit the address table, no packet faults and the entry of a bucket counts exactly the packets of the
  conversations of that bucket.
\<close>

subsection \<open>Addresses\<close>

text \<open>
  The address table while no address is released: it knows addresses of \<open>A\<close>, and each part of the array has as many entries
  as it knows addresses of that part. There is room as long as \<open>A\<close> has fewer addresses of a part than the part has slots.
\<close>

definition of_part :: "bool \<Rightarrow> u32 set \<Rightarrow> u32 set" where
  "of_part b A = {ip \<in> A. ipaddr_is_lan ip = b}"

definition addrs_fit :: "u32 set \<Rightarrow> bool" where
  "addrs_fit A \<longleftrightarrow> finite A \<and> (\<forall>b. card (of_part b A) < unat (total_entries (part_array b)))"

definition addr_ok :: "u32 set \<Rightarrow> shm_state \<Rightarrow> bool" where
  "addr_ok A st \<longleftrightarrow> heap_ok st \<and> addr_dir st \<and> addr_parts st \<and>
     (\<forall>b. grown (part_array b) (part_info st b) \<and> unat (num_entries (part_info st b)) = card (of_part b (dom (addr_map st)))) \<and>
     dom (addr_map st) \<subseteq> A \<and> ran (addr_map st) \<subseteq> {..<SI_NUM_ADDRS}"

text \<open>What the invariant depends on; the counters of an address entry are not part of it.\<close>

definition aview :: "shm_state \<Rightarrow> addr_table \<times> (akptr \<Rightarrow> addr_key_t) \<times> nat \<times> bool \<times> mga_info_t \<times> mga_info_t \<times> (nat \<Rightarrow> bool)" where
  "aview st = (ht_v4addrs st, addr_key_mem st, next_addr_key st, heap_ok st, addr_lan_indexes (g_shm st), addr_wan_indexes (g_shm st),
     \<lambda>i. tv_sec (ai_tstart (aget (shm_addrs (g_shm st)) i)) \<noteq> 0)"

lemma addr_ok_cong: "aview st = aview st' \<Longrightarrow> addr_ok A st = addr_ok A st'"
proof -
  assume v: "aview st = aview st'"
  then have f: "ht_v4addrs st = ht_v4addrs st'" "addr_key_mem st = addr_key_mem st'" "next_addr_key st = next_addr_key st'"
    "heap_ok st = heap_ok st'" "addr_lan_indexes (g_shm st) = addr_lan_indexes (g_shm st')" "addr_wan_indexes (g_shm st) = addr_wan_indexes (g_shm st')"
    by (simp_all add: aview_def)
  have p: "part_info st b = part_info st' b" for b using f by (simp add: part_info_def)
  have "taken (part_array b) (shm_addrs (g_shm st)) i = taken (part_array b) (shm_addrs (g_shm st')) i" for b i
    using v by (simp add: aview_def taken_addr fun_eq_iff)
  from mga_inv_cong [OF this] have "addr_parts st = addr_parts st'" by (simp add: addr_parts_def p)
  then show ?thesis using f by (simp add: addr_ok_def p addr_map_cong [OF f(1,2)] addr_map_cong(2) [OF f(1,2,3)])
qed

lemma addr_upd_aview:
  assumes "shm_addr_upd st i f = Inr st'" "tv_sec (ai_tstart (f (aget (shm_addrs (g_shm st)) i))) \<noteq> 0 \<longleftrightarrow> tv_sec (ai_tstart (aget (shm_addrs (g_shm st)) i)) \<noteq> 0"
  shows "aview st' = aview st"
  using addr_upd_shape [OF assms(1)] assms(2) by (auto simp: aview_def)

lemma stream_upd_aview: "shm_stream_upd st i f = Inr st' \<Longrightarrow> aview st' = aview st"
  by (drule stream_upd_shape) (simp add: aview_def)

lemma part_even: "even (unat (total_entries (part_array b)))" "even (unat (total_entries stream_array))"
  by (simp_all add: part_array_def lan_array_def wan_array_def stream_array_def)

lemma other_part:
  assumes "shm_addr_alloc_v4 st ip m = Inr (r, i, st')"
  shows "part_info st' (\<not> ipaddr_is_lan ip) = part_info st (\<not> ipaddr_is_lan ip)"
proof -
  from assms obtain q st1 where 1: "mga_alloc_addr st (ipaddr_is_lan ip) = Inr (q, st1)"
    by (auto simp: shm_addr_alloc_v4_def c_simps)
  have "part_info st' (\<not> ipaddr_is_lan ip) = part_info st1 (\<not> ipaddr_is_lan ip)"
  proof (cases q)
    case None
    then show ?thesis using assms 1 by (simp add: shm_addr_alloc_v4_def)
  next
    case (Some pidx)
    with assms 1 obtain f st2 where 2: "shm_addr_upd st1 (unat pidx) f = Inr st2" and "g_shm st' = g_shm st2"
      unfolding shm_addr_alloc_v4_def 1 bind_r_simps by (auto simp: bind_r_Inr_iff Let_def split: if_splits)
    then show ?thesis using addr_upd_shape [OF 2] by (simp add: part_info_def)
  qed
  also have "\<dots> = part_info st (\<not> ipaddr_is_lan ip)"
    using 1 by (auto simp: mga_alloc_addr_def bind_r_Inr_iff part_info_def split: if_splits)
  finally show ?thesis .
qed

lemma of_part_insert:
  "of_part b (insert ip A) = (if ipaddr_is_lan ip = b then insert ip (of_part b A) else of_part b A)"
  by (auto simp: of_part_def)

lemma addr_alloc_total:
  assumes ok: "addr_ok A st" and lay: "shm_layout st" and fit: "addrs_fit A" "ip \<in> A" and new: "addr_map st ip = None" and ts: "tv_sec ts \<noteq> 0"
  obtains i st1 st2 where "shm_addr_alloc_v4 st ip m = Inr (Some (unat i), i, st1)"
    "shm_addr_upd st1 (unat i) (\<lambda>a. a\<lparr>ai_tstart := ts\<rparr>) = Inr st2" "addr_ok A st2" "unat i < SI_NUM_ADDRS"
proof -
  let ?l = "ipaddr_is_lan ip" and ?es = "shm_addrs (g_shm st)" and ?D = "dom (addr_map st)"
  have st: "heap_ok st" "addr_dir st" "\<And>b. mga_inv (part_array b) (part_info st b) ?es" "\<And>b. grown (part_array b) (part_info st b)"
    "\<And>b. unat (num_entries (part_info st b)) = card (of_part b ?D)" "?D \<subseteq> A" "ran (addr_map st) \<subseteq> {..<SI_NUM_ADDRS}"
    using ok by (simp_all add: addr_ok_def addr_parts_def)
  have len: "alen ?es = SI_NUM_ADDRS" using lay by (simp add: shm_layout_def)
  have fin: "finite ?D" using st(6) fit(1) finite_subset by (auto simp: addrs_fit_def)
  have "of_part ?l ?D \<subset> of_part ?l A" using st(6) new fit(2) by (auto simp: of_part_def)
  moreover have "finite (of_part ?l A)" using fit(1) by (simp add: addrs_fit_def of_part_def)
  ultimately have "card (of_part ?l ?D) < card (of_part ?l A)" by (rule psubset_card_mono [rotated])
  then have few: "Suc (unat (num_entries (part_info st ?l))) < unat (total_entries (part_array ?l))"
    using fit(1) [unfolded addrs_fit_def, THEN conjunct2, rule_format, of ?l] st(5) [of ?l] by simp
  obtain p' j where al: "mga_alloc_entry (part_array ?l) (part_info st ?l) ?es = Inr (p', managed_array.set_slot (part_array ?l) ?es (unat j), Some j)"
    "grown (part_array ?l) p'" "unat (num_entries p') = Suc (unat (num_entries (part_info st ?l)))"
    "num_entries (part_info st ?l) < total_entries (part_array ?l)" "alloc_room (part_array ?l) (part_info st ?l)"
    by (rule grown_alloc [OF part_managed st(3) len st(4) part_even(1) few])
  have room: "addr_room st ?l" using st(1,3) al(4,5) by (simp add: addr_room_def)
  obtain i st1 where run: "shm_addr_alloc_v4 st ip m = Inr (Some (unat i), i, st1)"
    and rng: "(if ?l then 0 else 256) \<le> unat i" "unat i \<le> (if ?l then 255 else 16383)"
    and keep: "shm_layout st1" "addr_dir st1" "addr_map st1 = (addr_map st)(ip \<mapsto> unat i)"
    and others: "\<forall>j. j \<noteq> unat i \<longrightarrow> aget (shm_addrs (g_shm st1)) j = aget ?es j"
    and mine: "tv_sec (ai_tstart (aget (shm_addrs (g_shm st1)) (unat i))) = 1"
    and inv1: "mga_inv (part_array ?l) (part_info st1 ?l) (shm_addrs (g_shm st1))"
    and p1: "\<exists>es. mga_alloc_entry (part_array ?l) (part_info st ?l) ?es = Inr (part_info st1 ?l, es, Some i)" and heap1: "heap_ok st1"
    by (rule addr_alloc_ok [OF lay st(2) room, of m]) simp
  have i: "unat i < SI_NUM_ADDRS" using rng by (simp add: SI_NUM_ADDRS_def split: if_splits)
  have pl: "part_info st1 ?l = p'" using p1 al(1) by auto
  have po: "part_info st1 (\<not> ?l) = part_info st (\<not> ?l)" by (rule other_part [OF run])
  have dom1: "dom (addr_map st1) = insert ip ?D" by (simp add: keep(3))
  have "mga_inv (part_array (\<not> ?l)) (part_info st1 (\<not> ?l)) (shm_addrs (g_shm st1))"
    unfolding po by (rule mga_inv_range [OF st(3)]) (use rng others in \<open>auto simp: taken_addr part_range split: if_splits\<close>)
  then have "mga_inv (part_array b) (part_info st1 b) (shm_addrs (g_shm st1))" for b using inv1 by (cases "b = ?l") auto
  moreover have "grown (part_array b) (part_info st1 b)" for b using al(2) pl po st(4) [of "\<not> ?l"] by (cases "b = ?l") auto
  moreover have "unat (num_entries (part_info st1 b)) = card (of_part b (dom (addr_map st1)))" for b
  proof (cases "b = ?l")
    case True
    have "ip \<notin> of_part ?l ?D" "finite (of_part ?l ?D)" using new fin by (auto simp: of_part_def)
    then show ?thesis using True al(3) pl st(5) [of ?l] by (simp add: dom1 of_part_insert)
  next
    case False
    then have "b = (\<not> ?l)" by simp
    then show ?thesis using po st(5) [of b] by (simp add: dom1 of_part_insert)
  qed
  ultimately have ok1: "addr_ok A st1"
    using keep heap1 dom1 st(6,7) fit(2) i by (auto simp: addr_ok_def addr_parts_def ran_def split: if_splits)
  have "i' < alen (shm_addrs (g_shm st1))" if "i' = unat i" for i' using keep(1) i that by (simp add: shm_layout_def)
  then obtain st2 where upd: "shm_addr_upd st1 (unat i) (\<lambda>a. a\<lparr>ai_tstart := ts\<rparr>) = Inr st2" by (simp add: shm_addr_upd_def)
  have "addr_ok A st2" using addr_ok_cong [OF addr_upd_aview [OF upd]] ok1 mine ts by simp
  then show ?thesis using that run upd i by blast
qed

lemma addr_entry_total:
  assumes ok: "addr_ok A st" and lay: "shm_layout st" and fit: "addrs_fit A" "ip \<in> A" and ts: "tv_sec ts \<noteq> 0" and mac: "pkt_mac = Inr m"
  obtains i li st' where "addr_entry ip pkt_mac ts st = Inr (Some i, li, st')" "addr_ok A st'" "i < SI_NUM_ADDRS"
proof (cases "addr_map st ip")
  case None
  obtain i st1 st2 where "shm_addr_alloc_v4 st ip m = Inr (Some (unat i), i, st1)"
    "shm_addr_upd st1 (unat i) (\<lambda>a. a\<lparr>ai_tstart := ts\<rparr>) = Inr st2" "addr_ok A st2" "unat i < SI_NUM_ADDRS"
    by (rule addr_alloc_total [OF ok lay fit None ts])
  moreover have "shm_addr_lookup_v4 st ip = Inr (None, 0)" using ok None by (simp add: addr_ok_def addr_lookup_eq)
  ultimately show ?thesis using that mac by (simp add: addr_entry_def)
next
  case (Some i)
  have "i < SI_NUM_ADDRS" using ok Some by (auto simp: addr_ok_def ran_def)
  moreover have "shm_addr_lookup_v4 st ip = Inr (Some i, of_nat i)" using ok Some by (simp add: addr_ok_def addr_lookup_eq)
  ultimately show ?thesis using that ok by (simp add: addr_entry_def)
qed

subsection \<open>Captures without the end of a connection\<close>

text \<open>
  As long as no connection is closed, nothing is on the cleanup list, no stream is released, and the window of the
  stream array is full and grows around the middle.
\<close>

definition quiet_streams :: "nat \<Rightarrow> (nat \<rightharpoonup> nat) \<Rightarrow> shm_state \<Rightarrow> bool" where
  "quiet_streams kp T st \<longleftrightarrow>
     heap_ok st \<and> kp_table kp T (ht_streams st) \<and> alist_is_empty (cleanup_streams_list st) \<and> g_streams st = stream_array \<and>
     alen (shm_streams (g_shm st)) = SI_NUM_STREAMS \<and> mga_inv stream_array (stream_indexes (g_shm st)) (shm_streams (g_shm st)) \<and>
     grown stream_array (stream_indexes (g_shm st)) \<and> inj_on T (dom T) \<and> ran T = taken_slots stream_array (shm_streams (g_shm st))"

lemma quiet_cong: "sview st = sview st' \<Longrightarrow> quiet_streams kp T st = quiet_streams kp T st'"
  by (simp add: quiet_streams_def sview_def)

lemma taken_stream: "taken stream_array es i \<longleftrightarrow> tv_sec (si_tstart (aget es i)) \<noteq> 0"
  by (simp add: taken_def stream_array_def stream_isempty_func_def Let_def)

lemma quiet_set_entry:
  assumes "quiet_streams kp T st" "i \<in> ran T" "tv_sec (si_tstart s) \<noteq> 0"
  shows "quiet_streams kp T (set_entry i s st)"
proof -
  have "taken stream_array (shm_streams (g_shm (set_entry i s st))) j = taken stream_array (shm_streams (g_shm st)) j" for j
    using assms by (auto simp: taken_stream quiet_streams_def taken_slots_def)
  with mga_inv_cong [OF this] assms(1) show ?thesis
    by (simp add: quiet_streams_def taken_slots_def) (simp add: set_entry_def)
qed

lemma quiet_few:
  assumes "quiet_streams kp T st"
  shows "unat (num_entries (stream_indexes (g_shm st))) = card (dom T)" "card (dom T) \<le> 6553"
proof -
  have inv: "mga_inv stream_array (stream_indexes (g_shm st)) (shm_streams (g_shm st))" and tab: "kp_table kp T (ht_streams st)"
    using assms by (simp_all add: quiet_streams_def)
  have "unat (num_entries (stream_indexes (g_shm st))) = card (taken_slots stream_array (shm_streams (g_shm st)))"
    using inv strm.taken_slots_window [OF inv] by (simp add: mga_inv_def)
  also have "\<dots> = card (ran T)" using assms by (simp add: quiet_streams_def)
  also have "ran T = (the \<circ> T) ` dom T" by (force simp: ran_def dom_def)
  also have "card \<dots> = card (dom T)"
    using assms by (intro card_image) (auto simp: quiet_streams_def inj_on_def dom_def)
  finally show "unat (num_entries (stream_indexes (g_shm st))) = card (dom T)" .
  show "card (dom T) \<le> 6553" using kp_card [OF tab] by (simp add: NUM_BUCKETS_def)
qed

text \<open>A stream for a packet: the one of its bucket, whatever its key, or else a new one.\<close>

lemma alloc_quiet:
  assumes q: "quiet_streams kp T st" and new: "T (bucket (stream_key_mem st kp)) = None"
  obtains ss st' s where "shm_stream_alloc st kp = Inr (Some ss, st')" "quiet_streams kp (T(bucket (stream_key_mem st kp) \<mapsto> ss)) st'"
    "packets (entry_at st' ss) = 0" "bytes (entry_at st' ss) = 0" "\<And>j. j \<noteq> ss \<Longrightarrow> entry_at st' j = entry_at st j"
    "stream_key_mem st' = stream_key_mem st" "ss \<notin> ran T"
proof -
  let ?es = "shm_streams (g_shm st)" and ?p = "stream_indexes (g_shm st)" and ?mem = "stream_key_mem st" and ?b = "bucket (stream_key_mem st kp)"
  have st: "heap_ok st" "kp_table kp T (ht_streams st)" "g_streams st = stream_array" "alen ?es = SI_NUM_STREAMS"
    "mga_inv stream_array ?p ?es" "grown stream_array ?p" "inj_on T (dom T)" "ran T = taken_slots stream_array ?es"
    "alist_is_empty (cleanup_streams_list st)"
    using q by (simp_all add: quiet_streams_def)
  obtain p' i where run: "mga_alloc_entry stream_array ?p ?es = Inr (p', strm.set_slot ?es (unat i), Some i)"
    and inv: "mga_inv stream_array p' (strm.set_slot ?es (unat i))" "grown stream_array p'" "\<not> taken stream_array ?es (unat i)" "unat i < SI_NUM_STREAMS"
    by (rule grown_alloc [OF strm.managed_array_axioms st(5,4,6) part_even(2)]) (use quiet_few [OF q] in \<open>simp_all add: stream_array_def\<close>)
  obtain ht where put: "HashTablePut ?mem True True (ht_streams st) kp (unat i) = Inr (0, ?mem, ht)" "kp_table kp (T(?b \<mapsto> unat i)) ht"
    using kp_put [of kp T "ht_streams st" ?mem, OF st(2) new] by blast
  define fill where "fill = (\<lambda>val. val\<lparr>si_iid := gStreamCount st, flowflags := 0, si_tcpflags := 0, vlan := 0,
      packets := 0, bytes := 0, packets_rl := 0, bytes_rl := 0\<rparr> :: stream_info_t)"
  define e where "e = aget (strm.set_slot ?es (unat i)) (unat i)"
  define es' where "es' = (strm.set_slot ?es (unat i))\<lparr>aget := (aget (strm.set_slot ?es (unat i)))(unat i := fill e)\<rparr>"
  define st' where "st' = st\<lparr>g_shm := (g_shm st)\<lparr>stream_indexes := p', shm_streams := es'\<rparr>, ht_streams := ht, gStreamCount := gStreamCount st + 1\<rparr>"
  have al: "shm_stream_alloc st kp = Inr (Some (unat i), st')"
    using run put(1) st(1,3,4) inv(4)
    by (simp add: shm_stream_alloc_def Let_def shm_stream_upd_def st'_def es'_def e_def fill_def)
  have fresh: "unat i \<notin> ran T" using inv(3) st(8) by (simp add: taken_slots_def)
  have tk: "taken stream_array es' j = taken stream_array (strm.set_slot ?es (unat i)) j" for j
    by (simp add: taken_stream es'_def e_def fill_def)
  have "mga_inv stream_array p' es'" using mga_inv_cong [OF tk] inv(1) by blast
  moreover have "taken_slots stream_array es' = insert (unat i) (ran T)"
    using inv(4) unfolding st(8) by (auto simp: taken_slots_def tk) (simp_all add: stream_array_def SI_NUM_STREAMS_def)
  moreover have "ran (T(?b \<mapsto> unat i)) = insert (unat i) (ran T)" using new by simp
  moreover have "inj_on (T(?b \<mapsto> unat i)) (dom (T(?b \<mapsto> unat i)))"
    using st(7) new fresh by (auto simp: inj_on_def ran_def dom_def)
  ultimately have "quiet_streams kp (T(?b \<mapsto> unat i)) st'"
    using st put(2) inv(2) by (simp add: quiet_streams_def st'_def) (simp add: es'_def)
  then show ?thesis
    using that [OF al] fresh by (simp add: st'_def es'_def fill_def strm.aget_slot)
qed

text \<open>
  The packets that have been tracked, with their keys and lengths; those of a bucket; and what the table and the entries
  have to do with them: the entry of a bucket has the key of the first packet and counts all of them.
\<close>

type_synonym trace = "(stream_key_t \<times> u32) list"

definition of_bucket :: "nat \<Rightarrow> trace \<Rightarrow> trace" where
  "of_bucket b tr = filter (\<lambda>p. bucket (fst p) = b) tr"

definition counts :: "trace \<Rightarrow> stream_info_t \<Rightarrow> bool" where
  "counts tr s \<longleftrightarrow> tr \<noteq> [] \<and> packets s = of_nat (length tr) \<and> bytes s = sum_list (map snd tr) \<and> tv_sec (si_tstart s) \<noteq> 0 \<and>
     si_ipproto s = ipproto (v4 (fst (hd tr))) \<and> si_lport s = lport (v4 (fst (hd tr))) \<and> si_rport s = rport (v4 (fst (hd tr)))"

definition tracks :: "trace \<Rightarrow> (nat \<rightharpoonup> nat) \<Rightarrow> shm_state \<Rightarrow> bool" where
  "tracks tr T st \<longleftrightarrow> (\<forall>b. case T b of None \<Rightarrow> of_bucket b tr = [] | Some ss \<Rightarrow> counts (of_bucket b tr) (entry_at st ss))"

lemma of_bucket_snoc: "of_bucket b (tr @ [(k, len)]) = of_bucket b tr @ (if bucket k = b then [(k, len)] else [])"
  by (simp add: of_bucket_def)

lemma tracks_cong: "sview st = sview st' \<Longrightarrow> tracks tr T st = tracks tr T st'"
  by (simp add: tracks_def sview_def cong: option.case_cong)

lemma counts_snoc: "counts tr s \<Longrightarrow> counted len s s' \<Longrightarrow> counts (tr @ [(k, len)]) s'"
  by (simp add: counts_def counted_def add.commute)

lemma counts_first:
  assumes "counted len s s'" "packets s = 0" "bytes s = 0" "tv_sec (si_tstart s) \<noteq> 0"
    "si_ipproto s = ipproto (v4 k)" "si_lport s = lport (v4 k)" "si_rport s = rport (v4 k)"
  shows "counts [(k, len)] s'"
  using assms by (simp add: counts_def counted_def)

lemma tracks_step:
  assumes tr: "tracks tr T st" and inj: "inj_on T' (dom T')" and T': "T' = T(b \<mapsto> ss)" and b: "b = bucket k"
    and others: "\<And>j. j \<noteq> ss \<Longrightarrow> entry_at st' j = entry_at st j" and mine: "counts (of_bucket b tr @ [(k, len)]) (entry_at st' ss)"
  shows "tracks (tr @ [(k, len)]) T' st'"
  unfolding tracks_def
proof
  fix c
  show "case T' c of None \<Rightarrow> of_bucket c (tr @ [(k, len)]) = [] | Some ss' \<Rightarrow> counts (of_bucket c (tr @ [(k, len)])) (entry_at st' ss')"
  proof (cases "c = b")
    case True
    then show ?thesis using mine by (simp add: T' of_bucket_snoc b)
  next
    case False
    have same: "of_bucket c (tr @ [(k, len)]) = of_bucket c tr" using False b by (simp add: of_bucket_snoc)
    have "ss' \<noteq> ss" if "T c = Some ss'" for ss'
      using inj_onD [OF inj, of c b] False that by (auto simp: T')
    moreover have "case T c of None \<Rightarrow> of_bucket c tr = [] | Some ss' \<Rightarrow> counts (of_bucket c tr) (entry_at st ss')"
      using tr by (simp add: tracks_def)
    ultimately show ?thesis using False same others by (auto simp: T' split: option.splits)
  qed
qed

lemma find_stream_quiet:
  assumes q: "quiet_streams kp T st" and key: "stream_key_mem st kp = key" and ts: "tv_sec (hdr_ts hdr) \<noteq> 0"
    and run: "find_stream buf pkt hdr kp key fl st = Inr (r, st')"
  obtains ss where "r = Some ss" "T (bucket key) = Some ss" "st' = st"
  | ss where "r = Some ss" "T (bucket key) = None" "quiet_streams kp (T(bucket key \<mapsto> ss)) st'"
    "packets (entry_at st' ss) = 0" "bytes (entry_at st' ss) = 0" "si_tstart (entry_at st' ss) = hdr_ts hdr"
    "si_ipproto (entry_at st' ss) = ipproto (v4 key)" "si_lport (entry_at st' ss) = lport (v4 key)" "si_rport (entry_at st' ss) = rport (v4 key)"
    "\<And>j. j \<noteq> ss \<Longrightarrow> entry_at st' j = entry_at st j"
proof (cases "T (bucket key)")
  case (Some ss)
  have "shm_stream_lookup st kp = Inr (Some ss)"
    using kp_get [of kp T "ht_streams st" "stream_key_mem st"] q key Some by (simp add: shm_stream_lookup_def quiet_streams_def)
  then show ?thesis using that(1) [of ss] run Some by (simp add: find_stream_def)
next
  case None
  have "shm_stream_lookup st kp = Inr None"
    using kp_get [of kp T "ht_streams st" "stream_key_mem st"] q key None by (simp add: shm_stream_lookup_def quiet_streams_def)
  moreover obtain ss st1 where al: "shm_stream_alloc st kp = Inr (Some ss, st1)" "quiet_streams kp (T(bucket key \<mapsto> ss)) st1"
    "packets (entry_at st1 ss) = 0" "bytes (entry_at st1 ss) = 0" "\<And>j. j \<noteq> ss \<Longrightarrow> entry_at st1 j = entry_at st j"
    using alloc_quiet [OF q] None key by metis
  ultimately have r: "r = Some ss" and op: "open_stream buf pkt key fl (hdr_ts hdr) ss st1 = Inr st'"
    using run by (auto simp: find_stream_def bind_r_Inr_iff)
  from open_stream_view [OF op] obtain s' where s': "sview st' = sview (set_entry ss s' st1)"
    "packets s' = 0" "bytes s' = 0" "si_tstart s' = hdr_ts hdr" "si_ipproto s' = ipproto (v4 key)" "si_lport s' = lport (v4 key)" "si_rport s' = rport (v4 key)"
    using al(3,4) by auto
  have "quiet_streams kp (T(bucket key \<mapsto> ss)) (set_entry ss s' st1)"
    by (rule quiet_set_entry [OF al(2)]) (use ts s'(4) None in simp_all)
  then have "quiet_streams kp (T(bucket key \<mapsto> ss)) st'" using quiet_cong [OF s'(1)] by simp
  then show ?thesis using that(2) r None sview_cong(1) [OF s'(1)] s' al(5) by simp
qed

lemma count_quiet:
  assumes q: "quiet_streams kp T st0" and tr: "tracks tr T st0" and key: "stream_key_mem st0 kp = key"
    and ts: "tv_sec (hdr_ts hdr) \<noteq> 0" and fin: "isfin pkt = 0"
    and find: "find_stream buf pkt hdr kp key fl st0 = Inr (Some ss, st)" and run: "count_packet buf pkt hdr dir ss st = Inr st1"
  shows "\<exists>T'. quiet_streams kp T' st1 \<and> tracks (tr @ [(key, pkt_len hdr)]) T' st1"
proof -
  let ?b = "bucket key" and ?len = "pkt_len hdr"
  have qt: "quiet_streams kp (T(?b \<mapsto> ss)) st"
    and mine: "\<And>s'. counted ?len (entry_at st ss) s' \<Longrightarrow> counts (of_bucket ?b tr @ [(key, ?len)]) s'"
    and others: "\<And>j. j \<noteq> ss \<Longrightarrow> entry_at st j = entry_at st0 j"
  proof (atomize (full), cases rule: find_stream_quiet [OF q key ts find])
    case (1 ss')
    have "counts (of_bucket ?b tr) (entry_at st0 ss)" using tr 1 by (auto simp: tracks_def split: option.splits)
    moreover have "T(?b \<mapsto> ss) = T" using 1 by auto
    ultimately show "quiet_streams kp (T(?b \<mapsto> ss)) st \<and> (\<forall>s'. counted ?len (entry_at st ss) s' \<longrightarrow> counts (of_bucket ?b tr @ [(key, ?len)]) s') \<and>
      (\<forall>j. j \<noteq> ss \<longrightarrow> entry_at st j = entry_at st0 j)" using 1 q counts_snoc by simp
  next
    case (2 ss')
    have "of_bucket ?b tr = []" using tr [unfolded tracks_def, rule_format, of ?b] 2(2) by simp
    then show "quiet_streams kp (T(?b \<mapsto> ss)) st \<and> (\<forall>s'. counted ?len (entry_at st ss) s' \<longrightarrow> counts (of_bucket ?b tr @ [(key, ?len)]) s') \<and>
      (\<forall>j. j \<noteq> ss \<longrightarrow> entry_at st j = entry_at st0 j)" using 2 ts counts_first by simp
  qed
  obtain s' where s': "sview st1 = sview (set_entry ss s' st)" "counted ?len (entry_at st ss) s'"
    using count_packet_view [OF run fin] by blast
  have "tv_sec (si_tstart s') \<noteq> 0" using mine [OF s'(2)] by (simp add: counts_def)
  then have q1: "quiet_streams kp (T(?b \<mapsto> ss)) st1"
    using quiet_set_entry [OF qt, of ss s'] quiet_cong [OF s'(1)] by (simp add: ranI [of _ ?b])
  have "tracks (tr @ [(key, ?len)]) (T(?b \<mapsto> ss)) (set_entry ss s' st)"
    by (rule tracks_step [OF tr _ refl refl]) (use q1 mine [OF s'(2)] others in \<open>simp_all add: quiet_streams_def\<close>)
  then have "tracks (tr @ [(key, ?len)]) (T(?b \<mapsto> ss)) st1" using tracks_cong [OF s'(1)] by simp
  with q1 show ?thesis by blast
qed

subsection \<open>Nothing faults\<close>

lemma upd_total:
  "seg_ok st \<Longrightarrow> i < SI_NUM_STREAMS \<Longrightarrow> \<exists>st'. shm_stream_upd st i f = Inr st'"
  "seg_ok st \<Longrightarrow> j < SI_NUM_ADDRS \<Longrightarrow> \<exists>st'. shm_addr_upd st j g = Inr st'"
  "seg_ok st \<Longrightarrow> i < SI_NUM_STREAMS \<Longrightarrow> shm_stream_rd st i = Inr (entry_at st i)"
  "seg_ok st \<Longrightarrow> j < SI_NUM_ADDRS \<Longrightarrow> \<exists>a. shm_addr_rd st j = Inr a"
  by (simp_all add: seg_ok_def shm_layout_def shm_stream_upd_def shm_addr_upd_def shm_stream_rd_def shm_addr_rd_def)

text \<open>Counting keeps the address table as it is.\<close>

lemma inc_addr_aview: "inc_addr_ctrs l r dir len st = Inr st' \<Longrightarrow> aview st' = aview st"
  by (auto simp: inc_addr_ctrs_def bind_r_Inr_iff Let_def split: if_splits dest!: addr_upd_aview)

lemma inc_stream_aview: "inc_stream_counters ss dir len st = Inr st' \<Longrightarrow> aview st' = aview st"
  by (auto simp: inc_stream_counters_def bind_r_Inr_iff count_stream_def split: if_splits
      dest!: stream_upd_aview inc_addr_aview addr_upd_aview)

lemma count_packet_aview:
  assumes run: "count_packet buf pkt hdr dir ss st = Inr st'" and fin: "isfin pkt = 0"
  shows "aview st' = aview st"
proof -
  from run [unfolded count_packet_def bind_r_Inr_iff] obtain st1 st2 st3 st4 s st5 where
    1: "shm_stream_upd st ss (\<lambda>s. s\<lparr>si_tlast := hdr_ts hdr\<rparr>) = Inr st1" and
    2: "note_tcp pkt (hdr_ts hdr) ss st1 = Inr st2" and 3: "note_vlan buf pkt ss st2 = Inr st3" and
    4: "inc_stream_counters ss dir (pkt_len hdr) st3 = Inr st4" and
    6: "shm_inc_flow_stats st4 s (pkt_len hdr) = Inr st5" and
    7: "inc_protocol_counters (si_ipproto s) (si_rport s) dir (pkt_len hdr) st5 = Inr st'"
    by blast
  have "aview st1 = aview st" by (rule stream_upd_aview [OF 1])
  moreover have "aview st2 = aview st1"
    using 2 fin by (auto simp: note_tcp_def bind_r_Inr_iff split: if_splits dest!: stream_upd_aview)
  moreover have "aview st3 = aview st2" using 3 by (auto simp: note_vlan_def bind_r_Inr_iff split: if_splits dest!: stream_upd_aview)
  moreover have "aview st5 = aview st4" using 6 by (auto simp: shm_inc_flow_stats_def bind_r_Inr_iff Let_def aview_def)
  moreover have "aview st' = aview st5" using 7 by (auto simp: inc_protocol_counters_def bind_r_Inr_iff Let_def aview_def split: option.splits)
  ultimately show ?thesis using inc_stream_aview [OF 4] by simp
qed

lemma inc_proto_total:
  assumes seg: "seg_ok st"
  shows "\<exists>st'. inc_protocol_counters p port dir len st = Inr st'"
proof -
  have "i < SI_NUM_PROTOS" if "shm_get_protocol p port = Some i" for i
  proof -
    have "unat port < 9110" using that by (simp add: shm_get_protocol_def SI_NUM_TCP_PROTOS_def split: if_splits)
    then have "unat (port + 9110) = unat port + 9110" by (simp add: unat_word_ariths)
    then show ?thesis
      using that by (auto simp: shm_get_protocol_def SI_NUM_TCP_PROTOS_def SI_NUM_PROTOS_def split: if_splits)
  qed
  then show ?thesis using seg
    by (simp add: inc_protocol_counters_def seg_ok_def shm_layout_def Let_def split: option.split)
qed

lemma inc_addr_total:
  assumes seg: "seg_ok st" and lr: "l < SI_NUM_ADDRS" "r < SI_NUM_ADDRS"
  shows "\<exists>st'. inc_addr_ctrs l r dir len st = Inr st'"
proof -
  obtain tx rx where d: "(if dir = LEFT_TO_RIGHT then (l, r) else (r, l)) = (tx, rx)" "tx < SI_NUM_ADDRS" "rx < SI_NUM_ADDRS"
    using lr by (cases "dir = LEFT_TO_RIGHT") auto
  obtain st1 where 1: "shm_addr_upd st tx (\<lambda>a. a\<lparr>txpackets := txpackets a + 1, txbytes := txbytes a + len\<rparr>) = Inr st1"
    using upd_total(2) [OF seg d(2)] by blast
  have "seg_ok st1" using safe_addr_upd [OF 1] seg by (simp add: safe_step_def)
  from upd_total(2) [OF this d(3)] 1 d(1) show ?thesis by (simp add: inc_addr_ctrs_def)
qed

lemma inc_stream_total:
  assumes seg: "seg_ok st" and ss: "ss < SI_NUM_STREAMS"
  shows "\<exists>st'. inc_stream_counters ss dir len st = Inr st'"
proof -
  obtain st1 where 1: "shm_stream_upd st ss (\<lambda>s. s\<lparr>packets := packets s + 1, bytes := bytes s + len\<rparr>) = Inr st1"
    using upd_total(1) [OF seg ss] by blast
  have "safe_step st st1" by (rule safe_stream_upd [OF 1]) (simp add: entry_ok_def)
  then have seg1: "seg_ok st1" using seg by (simp add: safe_step_def)
  define s where "s = entry_at st1 ss"
  have rd: "shm_stream_rd st1 ss = Inr s" using upd_total(3) [OF seg1 ss] by (simp add: s_def)
  have lr: "unat (idx_left s) < SI_NUM_ADDRS" "unat (idx_right s) < SI_NUM_ADDRS"
    using seg_okD(2) [OF seg1, of ss] by (simp_all add: entry_ok_def s_def)
  have "\<exists>st3. (if packets s = 1 then bind_r (shm_addr_upd st1 (unat (idx_left s)) count_stream) (\<lambda>st2. shm_addr_upd st2 (unat (idx_right s)) count_stream)
      else Inr st1) = Inr st3 \<and> seg_ok st3"
  proof -
    obtain st2 where 2: "shm_addr_upd st1 (unat (idx_left s)) count_stream = Inr st2" using upd_total(2) [OF seg1 lr(1)] by blast
    then have seg2: "seg_ok st2" using safe_addr_upd [OF 2] seg1 by (simp add: safe_step_def)
    obtain st3 where 3: "shm_addr_upd st2 (unat (idx_right s)) count_stream = Inr st3" using upd_total(2) [OF seg2 lr(2)] by blast
    then have "seg_ok st3" using safe_addr_upd [OF 3] seg2 by (simp add: safe_step_def)
    then show ?thesis using 2 3 seg1 by simp
  qed
  then obtain st3 where 3: "(if packets s = 1 then bind_r (shm_addr_upd st1 (unat (idx_left s)) count_stream) (\<lambda>st2. shm_addr_upd st2 (unat (idx_right s)) count_stream)
      else Inr st1) = Inr st3" and seg3: "seg_ok st3" by blast
  show ?thesis using inc_addr_total [OF seg3 lr] 1 rd 3 by (simp add: inc_stream_counters_def addr_get_u16 [OF lr(1)] addr_get_u16 [OF lr(2)])
qed

lemma count_packet_total:
  assumes seg: "seg_ok st" and ss: "ss < SI_NUM_STREAMS" and pkt: "isfin pkt = 0" "ether pkt = Some 0" "20 \<le> length buf"
  shows "\<exists>st'. count_packet buf pkt hdr dir ss st = Inr st'"
proof -
  obtain st1 where 1: "shm_stream_upd st ss (\<lambda>s. s\<lparr>si_tlast := hdr_ts hdr\<rparr>) = Inr st1" using upd_total(1) [OF seg ss] by blast
  have "safe_step st st1" by (rule safe_stream_upd [OF 1]) (simp add: entry_ok_def)
  then have seg1: "seg_ok st1" using seg by (simp add: safe_step_def)
  obtain st2 where 2: "note_tcp pkt (hdr_ts hdr) ss st1 = Inr st2"
  proof -
    obtain st2 where u: "shm_stream_upd st1 ss (\<lambda>s. s\<lparr>si_tcpflags := si_tcpflags s OR tcpflags pkt\<rparr>) = Inr st2"
      using upd_total(1) [OF seg1 ss] by blast
    have "safe_step st1 st2" by (rule safe_stream_upd [OF u]) (simp add: entry_ok_def)
    then have "shm_stream_rd st2 ss = Inr (entry_at st2 ss)" using seg1 ss by (intro upd_total(3)) (simp_all add: safe_step_def)
    then show ?thesis using that u pkt(1) by (cases "istcp pkt = 0") (simp_all add: note_tcp_def)
  qed
  have seg2: "seg_ok st2" using safe_note_tcp [OF 2] seg1 by (simp add: safe_step_def)
  obtain v where v: "pkt_get_vlan buf pkt = Inr v" using vlan_fits [OF pkt(2,3)] by blast
  obtain st3 where 3: "note_vlan buf pkt ss st2 = Inr st3"
    using upd_total(1) [OF seg2 ss, of "\<lambda>s. s\<lparr>vlan := of_int v\<rparr>"] upd_total(3) [OF seg2 ss] v that
    by (cases "packets (entry_at st2 ss) = 1") (auto simp: note_vlan_def)
  have seg3: "seg_ok st3" using safe_note_vlan [OF 3] seg2 by (simp add: safe_step_def)
  obtain st4 where 4: "inc_stream_counters ss dir (pkt_len hdr) st3 = Inr st4" using inc_stream_total [OF seg3 ss] by blast
  have seg4: "seg_ok st4" using safe_inc_stream [OF 4] seg3 by (simp add: safe_step_def)
  have rd: "shm_stream_rd st4 ss = Inr (entry_at st4 ss)" by (rule upd_total(3) [OF seg4 ss])
  note f = inc_flow_stats_ok [OF seg4 seg_okD(2) [OF seg4, of ss]]
  show ?thesis using inc_proto_total [OF f(3), where len = "pkt_len hdr"] 1 2 3 4 rd f(1) by (simp add: count_packet_def)
qed

lemma open_stream_total:
  assumes seg: "seg_ok st" and ok: "addr_ok A st" and ss: "ss < SI_NUM_STREAMS" and fit: "addrs_fit A"
    and key: "net_stream4_left key \<in> A" "net_stream4_right key \<in> A" and ts: "tv_sec ts \<noteq> 0" and pkt: "ether pkt = Some 0" "12 \<le> length buf"
  obtains st' where "open_stream buf pkt key fl ts ss st = Inr st'" "addr_ok A st'"
proof -
  obtain ml mr where m: "pkt_mac_left buf pkt fl = Inr ml" "pkt_mac_right buf pkt fl = Inr mr"
    using rd_fits(4) [of 0 buf] rd_fits(4) [of 6 buf] pkt
    by (cases fl) (auto simp: pkt_mac_left_def pkt_mac_right_def pkt_src_mac_def pkt_dst_mac_def deref_def)
  obtain i li st1 where 1: "addr_entry (net_stream4_left key) (pkt_mac_left buf pkt fl) ts st = Inr (Some i, li, st1)" "addr_ok A st1" "i < SI_NUM_ADDRS"
    by (rule addr_entry_total [OF ok seg_okD(1) [OF seg] fit key(1) ts m(1)])
  have seg1: "seg_ok st1" using safe_addr_entry(1) [OF 1(1)] seg by (simp add: safe_step_def)
  obtain j ri st2 where 2: "addr_entry (net_stream4_right key) (pkt_mac_right buf pkt fl) ts st1 = Inr (Some j, ri, st2)" "addr_ok A st2" "j < SI_NUM_ADDRS"
    by (rule addr_entry_total [OF 1(2) seg_okD(1) [OF seg1] fit key(2) ts m(2)])
  have seg2: "seg_ok st2" using safe_addr_entry(1) [OF 2(1)] seg1 by (simp add: safe_step_def)
  obtain st3 where 3: "shm_stream_upd st2 ss (\<lambda>s. s\<lparr>si_ipproto := ipproto (v4 key), si_lport := lport (v4 key), si_rport := rport (v4 key),
                 idx_left := ucast li, idx_right := ucast ri, si_tstart := ts\<rparr>) = Inr st3" using upd_total(1) [OF seg2 ss] by blast
  have lay3: "shm_layout st3" using stream_upd_shape [OF 3] seg_okD(1) [OF seg2] by (simp add: shm_layout_def)
  then obtain left right where rd: "shm_addr_rd st3 i = Inr left" "shm_addr_rd st3 j = Inr right"
    using 1(3) 2(3) by (simp add: shm_layout_def shm_addr_rd_def)
  obtain st' where 4: "shm_stream_upd st3 ss (flow_flags left right) = Inr st'"
    using lay3 ss by (simp add: shm_layout_def shm_stream_upd_def)
  have "open_stream buf pkt key fl ts ss st = Inr st'"
    using 1(1) 2(1) 3 4 rd by (simp add: open_stream_def set_stream_flow_flags_def deref_def)
  moreover have "addr_ok A st'"
    using addr_ok_cong [OF stream_upd_aview [OF 4]] addr_ok_cong [OF stream_upd_aview [OF 3]] 2(2) by simp
  ultimately show ?thesis using that by blast
qed

lemma stream_alloc_aview: "shm_stream_alloc st kp = Inr (r, st') \<Longrightarrow> aview st' = aview st"
  by (auto simp: shm_stream_alloc_def bind_r_Inr_iff Let_def aview_def split: option.splits dest!: stream_upd_aview)

lemma quiet_slot: "quiet_streams kp T st \<Longrightarrow> T b = Some ss \<Longrightarrow> ss < SI_NUM_STREAMS"
proof -
  assume q: "quiet_streams kp T st" and "T b = Some ss"
  then have "ss \<in> ran T" by (auto simp: ran_def)
  also have "ran T = taken_slots stream_array (shm_streams (g_shm st))" using q by (simp add: quiet_streams_def)
  finally show ?thesis by (simp add: taken_slots_def stream_array_def SI_NUM_STREAMS_def)
qed

lemma find_stream_total:
  assumes seg: "seg_ok st" and ok: "addr_ok A st" and q: "quiet_streams kp T st" and mem: "stream_key_mem st kp = key" and fit: "addrs_fit A"
    and key: "net_stream4_left key \<in> A" "net_stream4_right key \<in> A" and ts: "tv_sec (hdr_ts hdr) \<noteq> 0" and pkt: "ether pkt = Some 0" "12 \<le> length buf"
  obtains ss st' where "find_stream buf pkt hdr kp key fl st = Inr (Some ss, st')" "addr_ok A st'" "ss < SI_NUM_STREAMS"
proof (cases "T (bucket key)")
  case (Some ss)
  have "shm_stream_lookup st kp = Inr (Some ss)"
    using kp_get [of kp T "ht_streams st" "stream_key_mem st"] q mem Some by (simp add: shm_stream_lookup_def quiet_streams_def)
  then show ?thesis using that [of ss st] ok quiet_slot [OF q Some] by (simp add: find_stream_def)
next
  case None
  have look: "shm_stream_lookup st kp = Inr None"
    using kp_get [of kp T "ht_streams st" "stream_key_mem st"] q mem None by (simp add: shm_stream_lookup_def quiet_streams_def)
  obtain ss st1 where al: "shm_stream_alloc st kp = Inr (Some ss, st1)" "quiet_streams kp (T(bucket key \<mapsto> ss)) st1"
    using alloc_quiet [OF q] None mem by metis
  have seg1: "seg_ok st1" using safe_stream_alloc(1) [OF al(1)] seg by (simp add: safe_step_def)
  have ok1: "addr_ok A st1" using addr_ok_cong [OF stream_alloc_aview [OF al(1)]] ok by simp
  have ss: "ss < SI_NUM_STREAMS" by (rule quiet_slot [OF al(2), of "bucket key"]) simp
  obtain st2 where "open_stream buf pkt key fl (hdr_ts hdr) ss st1 = Inr st2" "addr_ok A st2"
    by (rule open_stream_total [OF seg1 ok1 ss fit key ts pkt])
  then show ?thesis using that [of ss st2] look al(1) ss by (simp add: find_stream_def)
qed

subsection \<open>Packets of conversations\<close>

text \<open>
  Whether a buffer holds the Ethernet header with its tags, the IP header and the part of the transport header that is read;
  a live capture takes 72 bytes of a packet, which is enough for up to 24 bytes of tags and IP options. The key of a packet
  whose stream is tracked, and whether it ends a connection.
\<close>

definition headers_held :: "u8 list \<Rightarrow> bool" where
  "headers_held buf \<longleftrightarrow>
     (case ether_skip_vlan buf 0 of
        Inl _ \<Rightarrow> False
      | Inr (_, off) \<Rightarrow> 14 + off + 20 \<le> length buf \<and> 14 + off + 4 * IP_HL (buf ! (14 + off)) + 14 \<le> length buf)"

definition packet_key :: "pcap_pkthdr32_t \<Rightarrow> u8 list \<Rightarrow> stream_key_t option" where
  "packet_key hdr buf =
     (case net_parse hdr buf pkt_init of
        Inl _ \<Rightarrow> None
      | Inr (status, pkt) \<Rightarrow>
          if status \<noteq> PARSE_ERR_OK then None
          else case pkt_init_key buf pkt of
                 Inl _ \<Rightarrow> None
               | Inr (key, _) \<Rightarrow> if net_stream4_left key = 0 \<or> net_stream4_right key = 0 then None else Some key)"

definition ends_connection :: "pcap_pkthdr32_t \<Rightarrow> u8 list \<Rightarrow> bool" where
  "ends_connection hdr buf =
     (case net_parse hdr buf pkt_init of Inl _ \<Rightarrow> False | Inr (status, pkt) \<Rightarrow> status = PARSE_ERR_OK \<and> isfin pkt \<noteq> 0)"

definition key_addrs :: "stream_key_t \<Rightarrow> u32 set" where
  "key_addrs k = {net_stream4_left k, net_stream4_right k}"

lemma ip_parse_v4:
  assumes "ip_parse buf pos pkt r = Inr (status, pkt')"
  shows "isv6 pkt' = isv6 pkt"
proof -
  have l4: "isv6 p' = isv6 p" if "tcp4_parse buf q p n = Inr (s, p') \<or> udp4_parse buf q p n = Inr (s, p')" for q p n s p'
    using that by (auto simp: tcp4_parse_def udp4_parse_def bind_r_Inr_iff)
  from assms consider "pkt' = pkt" | "pkt' = pkt\<lparr>ip4 := Some pos\<rparr>"
    | q n s where "tcp4_parse buf q (pkt\<lparr>ip4 := Some pos\<rparr>) n = Inr (s, pkt') \<or> udp4_parse buf q (pkt\<lparr>ip4 := Some pos\<rparr>) n = Inr (s, pkt')"
    unfolding ip_parse_def Let_def by (simp only: bind_r_Inr_iff split: if_splits) blast+
  then show ?thesis by cases (use l4 in fastforce)+
qed

lemma held_length: "headers_held buf \<Longrightarrow> 20 \<le> length buf"
  by (auto simp: headers_held_def split: sum.splits)

lemma snaplen_holds:
  assumes "snaplen \<le> length buf" "ether_skip_vlan buf 0 = Inr (t, off)" "off + 4 * IP_HL (buf ! (14 + off)) \<le> 44" "off \<le> 24"
  shows "headers_held buf"
  using assms by (simp add: headers_held_def snaplen_def)

lemma ip_parse_held:
  assumes "pos + 20 \<le> length buf" "pos + 4 * IP_HL (buf ! pos) + 14 \<le> length buf"
  shows "\<exists>status pkt'. ip_parse buf pos pkt r = Inr (status, pkt') \<and>
    (status = PARSE_ERR_OK \<longrightarrow> ip4 pkt' = Some pos \<and> l4 pkt' = Some (pos + IP_HL (buf ! pos) * 4) \<and> ether pkt' = ether pkt)"
proof -
  have hlen: "ip_get_hlen buf pos = Inr (IP_HL (buf ! pos) * 4)" using assms by (simp add: ip_get_hlen_def rd8_def)
  obtain flags where "rd8 buf (pos + IP_HL (buf ! pos) * 4 + 13) = Inr flags"
    using rd_fits(1) [of "pos + IP_HL (buf ! pos) * 4 + 13" buf] assms by auto
  moreover obtain len where "rd16 buf (pos + 2) = Inr len" using rd_fits(2) [of "pos + 2" buf] assms by auto
  moreover obtain off where "rd16 buf (pos + 6) = Inr off" using rd_fits(2) [of "pos + 6" buf] assms by auto
  moreover obtain prot where "rd8 buf (pos + 9) = Inr prot" using rd_fits(1) [of "pos + 9" buf] assms by auto
  ultimately show ?thesis
    using hlen by (simp add: ip_parse_def tcp4_parse_def udp4_parse_def Let_def net_consts del: add_2_eq_Suc')
qed

lemma parse_total:
  assumes held: "headers_held buf"
  obtains status pkt where "net_parse hdr buf pkt_init = Inr (status, pkt)"
    "status = PARSE_ERR_OK \<longrightarrow> ether pkt = Some 0 \<and> \<not> pkt_is_v6 pkt \<and> (\<exists>key fl. pkt_init_key buf pkt = Inr (key, fl))"
proof (cases "caplen hdr < 14")
  case True
  then show ?thesis by (intro that [of PARSE_ERR_INCOMPLETE pkt_init]) (simp_all add: net_parse_def net_consts)
next
  case False
  obtain t off where skip: "ether_skip_vlan buf 0 = Inr (t, off)" and fits: "14 + off + 20 \<le> length buf"
    "14 + off + 4 * IP_HL (buf ! (14 + off)) + 14 \<le> length buf"
    using held by (auto simp: headers_held_def split: sum.splits)
  let ?pkt = "pkt_init\<lparr>ether := Some 0\<rparr>"
  let ?r = "sint (caplen hdr - of_nat ETHER_HDRLEN - of_nat off)"
  obtain status pkt' where ip: "ip_parse buf (14 + off) ?pkt ?r = Inr (status, pkt')"
      "status = PARSE_ERR_OK \<Longrightarrow> ip4 pkt' = Some (14 + off) \<and> l4 pkt' = Some (14 + off + IP_HL (buf ! (14 + off)) * 4) \<and> ether pkt' = Some 0"
    using ip_parse_held [OF fits, of ?pkt ?r] by auto
  have good: "ether pkt' = Some 0 \<and> \<not> pkt_is_v6 pkt' \<and> (\<exists>key fl. pkt_init_key buf pkt' = Inr (key, fl))" if "status = PARSE_ERR_OK"
    using ip(2) [OF that] key_fits [of pkt' "14 + off" "14 + off + IP_HL (buf ! (14 + off)) * 4" buf] ip_parse_v4 [OF ip(1)] fits
    by (auto simp: pkt_is_v6_def pkt_init_def)
  have run: "net_parse hdr buf pkt_init =
     (if t \<le> ETHERMTU \<or> t \<noteq> ETHERTYPE_IP then Inr (PARSE_ERR_UNSUPPORTED, ?pkt) else Inr (status, pkt'))"
    using False skip ip(1) by (auto simp: net_parse_def ETHER_HDRLEN_def Let_def)
  show ?thesis
  proof (cases "t \<le> ETHERMTU \<or> t \<noteq> ETHERTYPE_IP")
    case True
    then show ?thesis using that [of PARSE_ERR_UNSUPPORTED ?pkt] run by (simp add: PARSE_ERR_OK_def PARSE_ERR_UNSUPPORTED_def)
  next
    case False
    then have "net_parse hdr buf pkt_init = Inr (status, pkt')" using run by auto
    then show ?thesis using that good by blast
  qed
qed

text \<open>The states between the packets, when the packets so far have been \<open>tr\<close> and all addresses are from \<open>A\<close>.\<close>

definition conv_ok :: "u32 set \<Rightarrow> nat \<Rightarrow> trace \<Rightarrow> shm_state \<Rightarrow> bool" where
  "conv_ok A kp tr st \<longleftrightarrow> seg_ok st \<and> addr_ok A st \<and> (\<exists>T. quiet_streams kp T st \<and> tracks tr T st)"

lemma conv_frame:
  "conv_ok A kp tr (st\<lparr>stream_key_mem := m\<rparr>) = conv_ok A kp tr st"
  "conv_ok A kp tr (shm_update_capstats st recv ifdr kdr) = conv_ok A kp tr st"
  "conv_ok A kp tr st \<Longrightarrow> conv_ok A kp tr (shm_inc_global st ts len)"
proof -
  have "seg_ok (st\<lparr>stream_key_mem := m\<rparr>) = seg_ok st" by (simp add: seg_ok_def shm_layout_def)
  moreover have "addr_ok A (st\<lparr>stream_key_mem := m\<rparr>) = addr_ok A st" by (rule addr_ok_cong) (simp add: aview_def)
  moreover have "quiet_streams kp T (st\<lparr>stream_key_mem := m\<rparr>) = quiet_streams kp T st" "tracks tr T (st\<lparr>stream_key_mem := m\<rparr>) = tracks tr T st" for T
    by (simp_all add: quiet_streams_def tracks_def cong: option.case_cong)
  ultimately show "conv_ok A kp tr (st\<lparr>stream_key_mem := m\<rparr>) = conv_ok A kp tr st" by (simp add: conv_ok_def)
next
  have "seg_ok (shm_update_capstats st recv ifdr kdr) = seg_ok st"
    by (simp add: shm_update_capstats_def seg_ok_def shm_layout_def windows_ok_def Let_def)
  moreover have "addr_ok A (shm_update_capstats st recv ifdr kdr) = addr_ok A st"
    by (rule addr_ok_cong) (simp add: aview_def shm_update_capstats_def Let_def)
  moreover have "sview (shm_update_capstats st recv ifdr kdr) = sview st" by (simp add: sview_def shm_update_capstats_def Let_def)
  ultimately show "conv_ok A kp tr (shm_update_capstats st recv ifdr kdr) = conv_ok A kp tr st"
    using quiet_cong tracks_cong unfolding conv_ok_def by metis
next
  assume "conv_ok A kp tr st"
  moreover have "addr_ok A (shm_inc_global st ts len) = addr_ok A st"
    by (rule addr_ok_cong) (simp add: aview_def shm_inc_global_def Let_def)
  ultimately show "conv_ok A kp tr (shm_inc_global st ts len)"
    using quiet_cong [OF inc_global_view] tracks_cong [OF inc_global_view] inc_global_flow(2) by (simp add: conv_ok_def)
qed

text \<open>
  The statistics of a file are called before and after a packet, those of a live capture are not. The lemmas are for both:
  \<open>Q\<close> is what is known of the state of the statistics between the calls.
\<close>

definition hook :: "bool \<Rightarrow> 's sim_hook \<Rightarrow> 's sim_hook" where
  "hook file h ts shm s = (if file then h ts shm s else Inr s)"

lemma finish_total:
  assumes ok: "conv_ok A kp tr (cap_shm c)" and h: "hook file after ts (g_shm (cap_shm c)) (cap_sim c) = Inr s"
  obtains c' where "finish_packet file after ck ts c = Inr (0, c')" "cap_shm c' = cap_shm c" "cap_sim c' = s"
proof -
  from ok have empty: "alist_is_empty (cleanup_streams_list (cap_shm c))" by (auto simp: conv_ok_def quiet_streams_def)
  let ?c1 = "c\<lparr>cap_sim := s\<rparr>"
  have c1: "(if file then bind_r (after ts (g_shm (cap_shm c)) (cap_sim c)) (\<lambda>s. Inr (c\<lparr>cap_sim := s\<rparr>)) else Inr c) = Inr ?c1"
    using h by (auto simp: hook_def)
  show ?thesis
  proof (cases "tv_sec ts - last_sec c > 0")
    case True
    then show ?thesis using that [of "?c1\<lparr>last_sec := tv_sec ts\<rparr>"] empty by (simp add: finish_packet_def c1 cleanup_expired_streams_def)
  next
    case False
    then show ?thesis using that [of ?c1] by (simp add: finish_packet_def c1)
  qed
qed

lemma track_total:
  assumes ok: "conv_ok A kp tr (cap_shm c)" and mem: "stream_key_mem (cap_shm c) kp = key" and fit: "addrs_fit A" and key: "key_addrs key \<subseteq> A"
    and ts: "tv_sec (hdr_ts hdr) \<noteq> 0" and pkt: "isfin pkt = 0" "ether pkt = Some 0" "20 \<le> length buf"
    and Q: "\<And>st. conv_ok A kp (tr @ [(key, pkt_len hdr)]) st \<Longrightarrow> \<exists>s. hook file after (hdr_ts hdr) (g_shm st) (cap_sim c) = Inr s \<and> Q s"
  obtains c' where "track_packet file after kp ck hdr buf pkt key fl c = Inr (0, c')" "conv_ok A kp (tr @ [(key, pkt_len hdr)]) (cap_shm c')" "Q (cap_sim c')"
proof -
  from ok obtain T where seg: "seg_ok (cap_shm c)" and ad: "addr_ok A (cap_shm c)" and q: "quiet_streams kp T (cap_shm c)" and tr: "tracks tr T (cap_shm c)"
    by (auto simp: conv_ok_def)
  have ks: "net_stream4_left key \<in> A" "net_stream4_right key \<in> A" using key by (simp_all add: key_addrs_def)
  have big: "12 \<le> length buf" "20 \<le> length buf" using pkt(3) by simp_all
  obtain ss st where 1: "find_stream buf pkt hdr kp key fl (cap_shm c) = Inr (Some ss, st)" "addr_ok A st" "ss < SI_NUM_STREAMS"
    by (rule find_stream_total [OF seg ad q mem fit ks ts pkt(2) big(1)])
  have seg1: "seg_ok st" using safe_find_stream [OF 1(1)] seg by (simp add: safe_step_def)
  let ?dir = "if fl then RIGHT_TO_LEFT else LEFT_TO_RIGHT"
  obtain st1 where 2: "count_packet buf pkt hdr ?dir ss st = Inr st1" using count_packet_total [OF seg1 1(3) pkt(1,2) big(2)] by blast
  have "seg_ok st1" using count_packet_flow [OF 2 seg1] by blast
  moreover have "addr_ok A st1" using addr_ok_cong [OF count_packet_aview [OF 2 pkt(1)]] 1(2) by simp
  ultimately have ok1: "conv_ok A kp (tr @ [(key, pkt_len hdr)]) (cap_shm (c\<lparr>cap_shm := st1\<rparr>))"
    using count_quiet [OF q tr mem ts pkt(1) 1(1) 2] by (simp add: conv_ok_def)
  then obtain s where s: "hook file after (hdr_ts hdr) (g_shm (cap_shm (c\<lparr>cap_shm := st1\<rparr>))) (cap_sim (c\<lparr>cap_shm := st1\<rparr>)) = Inr s" "Q s"
    using Q by fastforce
  obtain c' where 3: "finish_packet file after ck (hdr_ts hdr) (c\<lparr>cap_shm := st1\<rparr>) = Inr (0, c')" "cap_shm c' = cap_shm (c\<lparr>cap_shm := st1\<rparr>)" "cap_sim c' = s"
    by (rule finish_total [OF ok1 s(1)])
  have "track_packet file after kp ck hdr buf pkt key fl c = Inr (0, c')" using 1(1) 2 3(1) by (simp add: track_packet_def)
  then show ?thesis using that ok1 s(2) 3(2,3) by simp
qed

definition packet_trace :: "pcap_pkthdr32_t \<Rightarrow> u8 list \<Rightarrow> trace" where
  "packet_trace hdr buf = (case packet_key hdr buf of None \<Rightarrow> [] | Some k \<Rightarrow> [(k, pkt_len hdr)])"

lemma on_packet_total:
  assumes ok: "conv_ok A kp tr (cap_shm c)" and fit: "addrs_fit A" and key: "\<And>k. packet_key hdr buf = Some k \<Longrightarrow> key_addrs k \<subseteq> A"
    and ts: "tv_sec (hdr_ts hdr) \<noteq> 0" and big: "headers_held buf" and fin: "\<not> ends_connection hdr buf"
    and before: "hook file before (hdr_ts hdr) (g_shm (cap_shm c)) (cap_sim c) = Inr s" "Q s"
    and after: "\<And>st. packet_trace hdr buf \<noteq> [] \<Longrightarrow> conv_ok A kp (tr @ packet_trace hdr buf) st \<Longrightarrow> \<exists>s'. hook file after (hdr_ts hdr) (g_shm st) s = Inr s' \<and> Q s'"
  obtains c' where "on_packet file before after kp ck hdr buf c = Inr (0, c')" "conv_ok A kp (tr @ packet_trace hdr buf) (cap_shm c')" "Q (cap_sim c')"
proof -
  let ?c1 = "c\<lparr>cap_sim := s\<rparr>"
  have c1: "(if file then bind_r (before (hdr_ts hdr) (g_shm (cap_shm c)) (cap_sim c)) (\<lambda>s. Inr (c\<lparr>cap_sim := s\<rparr>)) else Inr c) = Inr ?c1"
    using before(1) by (auto simp: hook_def)
  obtain status pkt where parse: "net_parse hdr buf pkt_init = Inr (status, pkt)"
    and good: "status = PARSE_ERR_OK \<longrightarrow> ether pkt = Some 0 \<and> \<not> pkt_is_v6 pkt \<and> (\<exists>key fl. pkt_init_key buf pkt = Inr (key, fl))"
    by (rule parse_total [OF big, of hdr])
  show ?thesis
  proof (cases "status = PARSE_ERR_OK")
    case False
    then show ?thesis using that [of ?c1] parse ok before(2) by (simp add: on_packet_def c1 packet_trace_def packet_key_def)
  next
    case True
    from good True obtain k fl where pk: "ether pkt = Some 0" "\<not> pkt_is_v6 pkt" "pkt_init_key buf pkt = Inr (k, fl)" by blast
    let ?st = "(cap_shm c)\<lparr>stream_key_mem := (stream_key_mem (cap_shm c))(kp := k)\<rparr>"
    have run: "on_packet file before after kp ck hdr buf c = parsed_packet file after kp ck hdr buf pkt ?c1"
      using parse True by (simp add: on_packet_def c1)
    show ?thesis
    proof (cases "net_stream4_left k = 0 \<or> net_stream4_right k = 0")
      case zero: True
      have "packet_trace hdr buf = []" using parse True pk zero by (auto simp: packet_trace_def packet_key_def)
      then show ?thesis using that [of "?c1\<lparr>cap_shm := ?st\<rparr>"] run pk zero ok before(2) conv_frame(1) by (simp add: parsed_packet_def)
    next
      case nonzero: False
      let ?c = "?c1\<lparr>cap_shm := shm_inc_global ?st (hdr_ts hdr) (pkt_len hdr)\<rparr>"
      have key': "packet_key hdr buf = Some k" using parse True pk nonzero by (simp add: packet_key_def)
      then have tr': "packet_trace hdr buf = [(k, pkt_len hdr)]" by (simp add: packet_trace_def)
      have "isfin pkt = 0" using fin parse True by (simp add: ends_connection_def)
      moreover have "conv_ok A kp tr (cap_shm ?c)" using conv_frame(3) conv_frame(1) ok by simp
      moreover have "stream_key_mem (cap_shm ?c) kp = k" by (simp add: shm_inc_global_def Let_def)
      moreover have "\<exists>s'. hook file after (hdr_ts hdr) (g_shm st) (cap_sim ?c) = Inr s' \<and> Q s'" if "conv_ok A kp (tr @ [(k, pkt_len hdr)]) st" for st
        using after that tr' by simp
      ultimately obtain c' where "track_packet file after kp ck hdr buf pkt k (fl \<noteq> 0) ?c = Inr (0, c')" "conv_ok A kp (tr @ [(k, pkt_len hdr)]) (cap_shm c')" "Q (cap_sim c')"
        using track_total [of A kp tr ?c k hdr pkt buf "file" after Q ck "fl \<noteq> 0"] fit key [OF key'] ts pk(1) held_length [OF big] by blast
      then show ?thesis using that [of c'] run pk nonzero tr' by (simp add: parsed_packet_def Let_def)
    qed
  qed
qed

subsection \<open>Live captures\<close>

text \<open>The header that the callback makes for a packet of libpcap, its bytes, and the conversations of a list of packets.\<close>

definition live_hdr :: "live_packet \<Rightarrow> pcap_pkthdr32_t" where
  "live_hdr = (\<lambda>(pstat, sec, usec, cap, len, bs). \<lparr>hdr_ts = \<lparr>tv_sec = of_int sec, tv_usec = of_int usec\<rparr>, caplen = cap, pkt_len = len\<rparr>)"

definition live_bytes :: "live_packet \<Rightarrow> u8 list" where
  "live_bytes = (\<lambda>(pstat, sec, usec, cap, len, bs). bs)"

definition live_trace :: "live_packet list \<Rightarrow> trace" where
  "live_trace pkts = concat (map (\<lambda>p. packet_trace (live_hdr p) (live_bytes p)) pkts)"

text \<open>The packets that are considered: with their headers in the buffer, with a time, and not the end of a connection.\<close>

definition plain_packet :: "live_packet \<Rightarrow> bool" where
  "plain_packet p \<longleftrightarrow> headers_held (live_bytes p) \<and> tv_sec (hdr_ts (live_hdr p)) \<noteq> 0 \<and> \<not> ends_connection (live_hdr p) (live_bytes p)"

definition trace_addrs :: "trace \<Rightarrow> u32 set" where
  "trace_addrs tr = (\<Union>k \<in> fst ` set tr. key_addrs k)"

lemma callback_total:
  fixes c :: "'s cap_state"
  assumes ok: "conv_ok A kp tr (cap_shm c)" and fit: "addrs_fit A" and pl: "plain_packet (pstat, sec, usec, cap, len, bs)"
    and key: "trace_addrs (live_trace [(pstat, sec, usec, cap, len, bs)]) \<subseteq> A"
  obtains t' c' where "callback kp ck pstat sec usec cap len bs (t, c) = Inr (t', c')"
    "conv_ok A kp (tr @ live_trace [(pstat, sec, usec, cap, len, bs)]) (cap_shm c')"
proof -
  let ?hdr = "\<lparr>hdr_ts = \<lparr>tv_sec = of_int sec, tv_usec = of_int usec\<rparr>, caplen = cap, pkt_len = len\<rparr> :: pcap_pkthdr32_t"
  have lt: "live_trace [(pstat, sec, usec, cap, len, bs)] = packet_trace ?hdr bs" by (simp add: live_trace_def live_hdr_def live_bytes_def)
  define tc where "tc = (if t = 0 then (of_int sec, c)
            else if sec - int (unat t) \<ge> 1 then
              let (recv, ifdr, kdr) = get_libpcap_stats pstat in
              (of_int sec, c\<lparr>cap_shm := shm_update_capstats (cap_shm c) recv ifdr kdr\<rparr>)
            else (t, c))"
  obtain t1 c1 where tc: "tc = (t1, c1)" by (cases tc)
  have ok1: "conv_ok A kp tr (cap_shm c1)"
    using ok tc conv_frame(2) by (auto simp: tc_def split_beta Let_def split: if_splits)
  have key1: "key_addrs k \<subseteq> A" if "packet_key ?hdr bs = Some k" for k
    using key that by (simp add: lt packet_trace_def trace_addrs_def)
  have p: "tv_sec (hdr_ts ?hdr) \<noteq> 0" "headers_held bs" "\<not> ends_connection ?hdr bs"
    using pl by (simp_all add: plain_packet_def live_hdr_def live_bytes_def)
  obtain c' where "on_packet False (\<lambda>_ _ s. Inr s) (\<lambda>_ _ s. Inr s) kp ck ?hdr bs c1 = Inr (0, c')" "conv_ok A kp (tr @ packet_trace ?hdr bs) (cap_shm c')"
    by (rule on_packet_total [OF ok1 fit key1 p, where ?file = False and Q = "\<lambda>_. True" and s = "cap_sim c1"]) (simp_all add: hook_def)
  then show ?thesis using that [of t1 c'] tc by (simp add: callback_def tc_def [symmetric] lt del: of_nat_unat)
qed

lemma live_total:
  fixes c :: "'s cap_state"
  assumes "addrs_fit A" "conv_ok A kp tr (cap_shm c)" "\<forall>p \<in> set pkts. plain_packet p" "trace_addrs (live_trace pkts) \<subseteq> A"
  shows "\<exists>t' c'. fold_r (\<lambda>(pstat, sec, usec, cap, len, bs). callback kp ck pstat sec usec cap len bs) pkts (t, c) = Inr (t', c') \<and>
    conv_ok A kp (tr @ live_trace pkts) (cap_shm c')"
  using assms(2-)
proof (induction pkts arbitrary: tr t c)
  case Nil
  then show ?case by (simp add: live_trace_def)
next
  case (Cons p pkts)
  obtain pstat sec usec cap len bs where p: "p = (pstat, sec, usec, cap, len, bs)" by (cases p)
  have lt: "live_trace (p # pkts) = live_trace [p] @ live_trace pkts" by (simp add: live_trace_def)
  have sub: "trace_addrs (live_trace [p]) \<subseteq> A" "trace_addrs (live_trace pkts) \<subseteq> A"
    using Cons.prems(3) by (auto simp: lt trace_addrs_def)
  obtain t1 c1 where 1: "callback kp ck pstat sec usec cap len bs (t, c) = Inr (t1, c1)" "conv_ok A kp (tr @ live_trace [p]) (cap_shm c1)"
    by (rule callback_total [OF Cons.prems(1) assms(1), of pstat sec usec cap len bs ck t]) (use Cons.prems(2) sub(1) p in simp_all)
  from Cons.IH [OF 1(2) _ sub(2)] Cons.prems(2) 1(1) show ?case by (simp add: p) (simp add: lt [unfolded p])
qed

lemma start_grown: "managed_array ma cap \<Longrightarrow> grown ma (mga_start ma)"
  using managed_array.rmid_bounds [of ma cap] managed_array.max_int [of ma cap]
  by (simp add: grown_def mga_start_def unat_plus1)

lemma conv_start:
  assumes heap: "heap_ok st0"
  obtains st where "shm_data_init skaddr akaddr True st0 = Inr (True, st)" "conv_ok A kp [] (cleanup_init st)"
proof -
  obtain st where st: "shm_data_init skaddr akaddr True st0 = Inr (True, st)" "shm_layout st" "addr_dir st" "addr_map st = Map.empty" "heap_ok st"
    "g_shm st = zero_sharedif\<lparr>magic := SHAREDIF_MAGIC, addr_lan_indexes := mga_start lan_array,
       addr_wan_indexes := mga_start wan_array, stream_indexes := mga_start stream_array\<rparr>"
    by (rule shm_init_ok [OF heap, of skaddr akaddr])
  let ?st = "cleanup_init st"
  have p: "part_info ?st b = mga_start (part_array b)" for b by (simp add: part_info_def part_array_def cleanup_init_def st(6))
  have inv: "mga_inv (part_array b) (mga_start (part_array b)) (shm_addrs zero_sharedif)" for b
    using start_invs by (simp add: part_array_def)
  have "addr_dir ?st" "addr_map ?st = Map.empty"
    using addr_map_cong [of ?st st] st(3,4) by (simp_all add: cleanup_init_def)
  then have "addr_ok A ?st" using st(5) inv start_grown [OF part_managed]
    by (simp add: addr_ok_def addr_parts_def p of_part_def) (simp add: cleanup_init_def st(6) mga_start_def)
  moreover have "quiet_streams kp Map.empty ?st"
    using init_table [OF st(1)] st(2,5,6) start_invs(3) start_grown [OF strm.managed_array_axioms]
    by (simp add: quiet_streams_def cleanup_init_def shm_layout_def alist_is_empty_def alist_items_def alist_alloc_def)
      (simp add: taken_slots_def zero_untaken)
  moreover have "tracks [] Map.empty ?st" by (simp add: tracks_def of_bucket_def)
  ultimately show ?thesis using that st(1) init_segment(1) [OF st(1)] by (auto simp: conv_ok_def)
qed

text \<open>What the lookups find in the end.\<close>

lemma conv_lookup:
  assumes q: "quiet_streams kp T st" and tr: "tracks tr T st" and k: "k \<in> fst ` set tr"
  obtains i where "shm_stream_lookup (st\<lparr>stream_key_mem := (stream_key_mem st)(kp := k)\<rparr>) kp = Inr (Some i)"
    "counts (of_bucket (bucket k) tr) (entry_at st i)"
proof -
  have ne: "of_bucket (bucket k) tr \<noteq> []" using k by (auto simp: of_bucket_def filter_empty_conv)
  note t = tr [unfolded tracks_def, rule_format, of "bucket k"]
  obtain i where i: "T (bucket k) = Some i" using t ne by (cases "T (bucket k)") simp_all
  then have cn: "counts (of_bucket (bucket k) tr) (entry_at st i)" using t by simp
  have "shm_stream_lookup (st\<lparr>stream_key_mem := (stream_key_mem st)(kp := k)\<rparr>) kp = Inr (Some i)"
    using kp_get [of kp T "ht_streams st" "(stream_key_mem st)(kp := k)"] q i by (simp add: shm_stream_lookup_def quiet_streams_def)
  then show ?thesis using that cn by blast
qed

lemma conv_buckets:
  assumes q: "quiet_streams kp T st" and tr: "tracks tr T st"
  shows "unat (num_entries (stream_indexes (g_shm st))) = card (bucket ` fst ` set tr)"
proof -
  have "b \<in> dom T \<longleftrightarrow> of_bucket b tr \<noteq> []" for b
    using tr [unfolded tracks_def, rule_format, of b] by (auto simp: counts_def split: option.splits)
  then have "dom T = {b. of_bucket b tr \<noteq> []}" by blast
  also have "\<dots> = bucket ` fst ` set tr" by (force simp: of_bucket_def filter_empty_conv)
  finally have "dom T = bucket ` fst ` set tr" .
  then show ?thesis using quiet_few(1) [OF q] by simp
qed

text \<open>
  The result of a capture whose packets are those of the conversations \<open>tr\<close>: one stream per bucket with a packet; the lookup of
  a conversation finds the stream of its bucket, which has the key of the first packet of the bucket and counts the packets and
  bytes of all its conversations, exactly those of the conversation when it shares the bucket with no other.
\<close>

definition conversations_counted :: "nat \<Rightarrow> trace \<Rightarrow> shm_state \<Rightarrow> bool" where
  "conversations_counted kp tr st \<longleftrightarrow>
     unat (num_entries (stream_indexes (g_shm st))) = card (bucket ` fst ` set tr) \<and>
     (\<forall>k \<in> fst ` set tr. \<exists>i.
       shm_stream_lookup (st\<lparr>stream_key_mem := (stream_key_mem st)(kp := k)\<rparr>) kp = Inr (Some i) \<and>
       counts (filter (\<lambda>p. bucket (fst p) = bucket k) tr) (entry_at st i) \<and>
       ((\<forall>k' \<in> fst ` set tr. bucket k' = bucket k \<longrightarrow> k' = k) \<longrightarrow>
         packets (entry_at st i) = of_nat (length (filter (\<lambda>p. fst p = k) tr)) \<and>
         bytes (entry_at st i) = (\<Sum>p \<leftarrow> filter (\<lambda>p. fst p = k) tr. snd p) \<and>
         si_ipproto (entry_at st i) = ipproto (v4 k) \<and> si_lport (entry_at st i) = lport (v4 k) \<and>
         si_rport (entry_at st i) = rport (v4 k)))"

lemma conv_counted:
  assumes "conv_ok A kp tr st"
  shows "conversations_counted kp tr st"
proof -
  obtain T where q: "quiet_streams kp T st" "tracks tr T st" using assms by (auto simp: conv_ok_def)
  have "\<exists>i. shm_stream_lookup (st\<lparr>stream_key_mem := (stream_key_mem st)(kp := k)\<rparr>) kp = Inr (Some i) \<and>
      counts (filter (\<lambda>p. bucket (fst p) = bucket k) tr) (entry_at st i) \<and>
      ((\<forall>k' \<in> fst ` set tr. bucket k' = bucket k \<longrightarrow> k' = k) \<longrightarrow>
        packets (entry_at st i) = of_nat (length (filter (\<lambda>p. fst p = k) tr)) \<and>
        bytes (entry_at st i) = (\<Sum>p \<leftarrow> filter (\<lambda>p. fst p = k) tr. snd p) \<and>
        si_ipproto (entry_at st i) = ipproto (v4 k) \<and> si_lport (entry_at st i) = lport (v4 k) \<and>
        si_rport (entry_at st i) = rport (v4 k))" if k: "k \<in> fst ` set tr" for k
  proof -
    obtain i where i: "shm_stream_lookup (st\<lparr>stream_key_mem := (stream_key_mem st)(kp := k)\<rparr>) kp = Inr (Some i)"
      "counts (of_bucket (bucket k) tr) (entry_at st i)" by (rule conv_lookup [OF q k])
    have own: "of_bucket (bucket k) tr = filter (\<lambda>p. fst p = k) tr" if "\<forall>k' \<in> fst ` set tr. bucket k' = bucket k \<longrightarrow> k' = k"
      using that unfolding of_bucket_def by (intro filter_cong) auto
    have first: "fst (hd (filter (\<lambda>p. fst p = k) tr)) = k" if "filter (\<lambda>p. fst p = k) tr \<noteq> []"
      using hd_in_set [OF that] by simp
    show ?thesis using i own first unfolding of_bucket_def by (intro exI [of _ i]) (auto simp: counts_def)
  qed
  then show ?thesis using conv_buckets [OF q] by (simp add: conversations_counted_def)
qed

subsection \<open>Properties\<close>

text \<open>
  C3: A live capture counts its conversations. For every device that opens and whose packets have their headers captured, have a
  time and close no connection, and whose addresses fit the two parts of the address table, no packet faults from the start-up
  on, and in the end the table of the streams has the counts of the conversations.
\<close>

theorem capture_counts_conversations:
  fixes s :: 's
  assumes "heap_ok st0" and "dev_opens dev" "length (dev_errbuf dev) < EBUF_BYTES"
    and "\<forall>p \<in> set (dev_packets dev). plain_packet p" and "addrs_fit (trace_addrs (live_trace (dev_packets dev)))"
  shows "\<exists>st out err c. shm_data_init skaddr akaddr True st0 = Inr (True, st) \<and>
    go_live_pcap kp ck dev \<lparr>cap_shm = cleanup_init st, last_sec = 0, cap_sim = s\<rparr> = Inr (out, err, c) \<and>
    conversations_counted kp (live_trace (dev_packets dev)) (cap_shm c)"
proof -
  let ?pkts = "dev_packets dev" and ?A = "trace_addrs (live_trace (dev_packets dev))"
  obtain st where init: "shm_data_init skaddr akaddr True st0 = Inr (True, st)" and ok: "conv_ok ?A kp [] (cleanup_init st)"
    by (rule conv_start [OF assms(1), of skaddr akaddr ?A kp])
  let ?c = "\<lparr>cap_shm = cleanup_init st, last_sec = 0, cap_sim = s\<rparr> :: 's cap_state"
  obtain t c where "fold_r (\<lambda>(pstat, sec, usec, cap, len, bs). callback kp ck pstat sec usec cap len bs) ?pkts (0, ?c) = Inr (t, c)"
    and c: "conv_ok ?A kp (live_trace ?pkts) (cap_shm c)"
    using live_total [OF assms(5), of kp "[]" ?c ?pkts ck 0] ok assms(4) by auto
  then obtain out err where "go_live_pcap kp ck dev ?c = Inr (out, err, c)" using assms(2,3) by (simp add: go_live_pcap_def Let_def)
  then show ?thesis using init conv_counted [OF c] by blast
qed

text \<open>Two packets of a conversation, one in each direction, and between them one of another.\<close>

definition demo_packet :: "u8 \<Rightarrow> u32 \<Rightarrow> u16 \<Rightarrow> u32 \<Rightarrow> u16 \<Rightarrow> u32 \<Rightarrow> live_packet" where
  "demo_packet proto src sport dst dport len =
     (None, 5, 0, 72, len, frame [1, 2, 3, 4, 5, 6] [7, 8, 9, 10, 11, 12] Untagged
        \<lparr>f_vhl = 0x45, f_tos = 0, f_len = 82, f_id = 1, f_off = 0, f_ttl = 64, f_proto = proto, f_sum = 0, f_src = src, f_dst = dst\<rparr>
        [] sport dport (replicate 34 0))"

definition demo_traffic :: "live_packet list" where
  "demo_traffic =
     [demo_packet 17 0x0201A8C0 1234 0x08080808 53 100, demo_packet 6 0x0201A8C0 4321 0x0101A8C0 80 60,
      demo_packet 17 0x08080808 53 0x0201A8C0 1234 200]"

lemma demo_plain: "\<forall>p \<in> set demo_traffic. plain_packet p"
  by code_simp

definition dns :: stream_key_t where "dns = fst (net_stream_init_v4 17 0x0201A8C0 0x08080808 1234 53)"
definition web :: stream_key_t where "web = fst (net_stream_init_v4 6 0x0201A8C0 0x0101A8C0 4321 80)"

lemma demo_trace: "live_trace demo_traffic = [(dns, 100), (web, 60), (dns, 200)]"
  by code_simp

lemma demo_buckets: "bucket web \<noteq> bucket dns" by code_simp

lemma demo_addrs: "trace_addrs (live_trace demo_traffic) \<subseteq> {0x0201A8C0, 0x08080808, 0x0101A8C0}"
  by code_simp

lemma demo_fit: "addrs_fit (trace_addrs (live_trace demo_traffic))"
proof -
  let ?A = "trace_addrs (live_trace demo_traffic)"
  have fin: "finite ?A" using demo_addrs by (rule finite_subset) simp
  have "card (of_part b ?A) \<le> 3" for b
  proof -
    have "card (of_part b ?A) \<le> card {0x0201A8C0 :: u32, 0x08080808, 0x0101A8C0}"
      using demo_addrs by (intro card_mono) (auto simp: of_part_def)
    also have "\<dots> \<le> 3" by simp
    finally show ?thesis .
  qed
  then have "card (of_part b ?A) < unat (total_entries (part_array b))" for b
    by (rule le_less_trans) (simp add: part_array_def lan_array_def wan_array_def)
  with fin show ?thesis by (simp add: addrs_fit_def)
qed

theorem capture_counts_conversations_witness:
  "\<exists>st out err c i. shm_data_init (\<lambda>_. 0) (\<lambda>_. 0) True (shm_statics True) = Inr (True, st) \<and>
     go_live_pcap 7 8 \<lparr>dev_opens = True, dev_errbuf = [], dev_packets = demo_traffic, dev_status = -2, dev_geterr = []\<rparr>
       \<lparr>cap_shm = cleanup_init st, last_sec = 0, cap_sim = ()\<rparr> = Inr (out, err, c) \<and>
     shm_stream_lookup ((cap_shm c)\<lparr>stream_key_mem := (stream_key_mem (cap_shm c))(7 := dns)\<rparr>) 7 = Inr (Some i) \<and>
     packets (entry_at (cap_shm c) i) = 2 \<and> bytes (entry_at (cap_shm c) i) = 300"
proof -
  let ?dev = "\<lparr>dev_opens = True, dev_errbuf = [], dev_packets = demo_traffic, dev_status = -2, dev_geterr = []\<rparr> :: live_device"
  have hyps: "heap_ok (shm_statics True)" "dev_opens ?dev" "length (dev_errbuf ?dev) < EBUF_BYTES" "\<forall>p \<in> set (dev_packets ?dev). plain_packet p"
    "addrs_fit (trace_addrs (live_trace (dev_packets ?dev)))"
    using demo_plain demo_fit by (simp_all add: shm_statics_def EBUF_BYTES_def)
  obtain st out err c where run: "shm_data_init (\<lambda>_. 0) (\<lambda>_. 0) True (shm_statics True) = Inr (True, st)"
    "go_live_pcap 7 8 ?dev \<lparr>cap_shm = cleanup_init st, last_sec = 0, cap_sim = ()\<rparr> = Inr (out, err, c)"
    and all: "conversations_counted 7 (live_trace demo_traffic) (cap_shm c)"
    using capture_counts_conversations [OF hyps, of "\<lambda>_. 0" "\<lambda>_. 0" 7 8 "()"] by auto
  have "dns \<in> fst ` set (live_trace demo_traffic)" by (simp add: demo_trace)
  with all obtain i where i: "shm_stream_lookup ((cap_shm c)\<lparr>stream_key_mem := (stream_key_mem (cap_shm c))(7 := dns)\<rparr>) 7 = Inr (Some i)"
    "counts (filter (\<lambda>p. bucket (fst p) = bucket dns) (live_trace demo_traffic)) (entry_at (cap_shm c) i)"
    unfolding conversations_counted_def by blast
  have "packets (entry_at (cap_shm c) i) = 2 \<and> bytes (entry_at (cap_shm c) i) = 300"
    using i(2) demo_buckets by (simp add: demo_trace counts_def)
  then show ?thesis using run i(1) by blast
qed

end
