(* ===== verification/Ipc.thy ===== *)
theory Ipc
  imports Prelude
begin

text \<open>
  Segments of shared memory (\<^verbatim>\<open>utils/ipc.c\<close>) and how the two processes come to the same one: the capture creates and
  attaches it (\<^verbatim>\<open>shm_data_init\<close> of \<^verbatim>\<open>common/shmdata.c\<close>), the statistics process attaches it (\<^verbatim>\<open>statproc/main.c\<close>).

  The system calls are an argument. A call takes the state \<open>'k\<close> of the kernel and returns its result with the new state.
  An address is an integer: 0 is the null pointer and -1 what \<^verbatim>\<open>shmat\<close> returns on failure.
\<close>

record 'k sysv =
  shmget :: "u32 \<Rightarrow> nat \<Rightarrow> u32 \<Rightarrow> 'k \<Rightarrow> int \<times> 'k"
  shmat :: "int \<Rightarrow> int \<Rightarrow> u32 \<Rightarrow> 'k \<Rightarrow> int \<times> 'k"
  shmctl :: "int \<Rightarrow> u32 \<Rightarrow> int \<Rightarrow> 'k \<Rightarrow> int \<times> 'k"
  shmdt :: "int \<Rightarrow> 'k \<Rightarrow> int \<times> 'k"

subsection \<open>The code\<close>

text \<open>The constants of \<^verbatim>\<open>sys/ipc.h\<close> that the code names, and its own.\<close>

definition IPC_CREAT :: u32 where "IPC_CREAT = 0x200"
definition IPC_RMID :: u32 where "IPC_RMID = 0"
definition PERM_RO :: u32 where "PERM_RO = 0x1a4"
definition SHMID_MINFLOWCAP :: u32 where "SHMID_MINFLOWCAP = 0x05430A1E"

definition shmem_create :: "'k sysv \<Rightarrow> u32 \<Rightarrow> nat \<Rightarrow> 'k \<Rightarrow> int \<times> 'k" where
  "shmem_create sys key mem_size_bytes = shmget sys key mem_size_bytes (IPC_CREAT OR PERM_RO)"

definition shmem_destroy :: "'k sysv \<Rightarrow> int \<Rightarrow> 'k \<Rightarrow> int \<times> 'k" where
  "shmem_destroy sys h_shmem = shmctl sys h_shmem IPC_RMID 0"

definition shmem_open :: "'k sysv \<Rightarrow> u32 \<Rightarrow> nat \<Rightarrow> 'k \<Rightarrow> int \<times> 'k" where
  "shmem_open sys key mem_size_bytes k =
     (let (h, k1) = shmget sys key mem_size_bytes PERM_RO k in
      if h = - 1 then (0, k1)
      else
        let (rv, k2) = shmat sys h 0 0 k1 in
        if rv = - 1 then (0, k2) else (rv, k2))"

definition shmem_close :: "'k sysv \<Rightarrow> int \<Rightarrow> 'k \<Rightarrow> int \<times> 'k" where
  "shmem_close sys shmem_addr = shmdt sys shmem_addr"

text \<open>
  How \<^verbatim>\<open>shm_data_init\<close> obtains the segment of \<open>sz\<close> bytes: shared, or allocated with \<^verbatim>\<open>calloc\<close>, which returns \<open>mem\<close>. The
  result is the pointer to it, null when there is none.
\<close>

definition obtain_segment :: "'k sysv \<Rightarrow> int \<Rightarrow> bool \<Rightarrow> nat \<Rightarrow> 'k \<Rightarrow> int \<times> 'k" where
  "obtain_segment sys mem use_shm sz k =
     (if use_shm then
        let (g_shm_handle, k1) = shmem_create sys SHMID_MINFLOWCAP sz k in
        if g_shm_handle < 0 then (0, k1) else shmem_open sys SHMID_MINFLOWCAP sz k1
      else (mem, k))"

text \<open>The statistics process ends at once when the result is null.\<close>

definition attach_segment :: "'k sysv \<Rightarrow> nat \<Rightarrow> 'k \<Rightarrow> int \<times> 'k" where
  "attach_segment sys sz = shmem_open sys SHMID_MINFLOWCAP sz"

subsection \<open>What the system calls promise\<close>

text \<open>
  What the manual pages of \<^verbatim>\<open>shmget\<close> and \<^verbatim>\<open>shmat\<close> promise. \<open>seg k key\<close> is the segment of a key with its
  size, \<open>att k a\<close> the segment that is attached at address \<open>a\<close>. The key 0 is \<^verbatim>\<open>IPC_PRIVATE\<close>, of which nothing is said.
  A call may always fail, for want of permission or of memory: it then returns -1 and makes no segment. One that succeeds for a
  key that has a segment returns it, and the segment is not smaller than asked for; for a key without one it was called with
  \<^verbatim>\<open>IPC_CREAT\<close> and has made a segment of the size asked for. Attaching fails with -1 or gives an address that is not null.
\<close>

definition IPC_PRIVATE :: u32 where "IPC_PRIVATE = 0"
definition IPC_EXCL :: u32 where "IPC_EXCL = 0x400"

definition get_documented :: "'k sysv \<Rightarrow> ('k \<Rightarrow> u32 \<rightharpoonup> int \<times> nat) \<Rightarrow> bool" where
  "get_documented sys seg \<longleftrightarrow> (\<forall>k key sz flags h k'. key \<noteq> IPC_PRIVATE \<longrightarrow> shmget sys key sz flags k = (h, k') \<longrightarrow>
     h = - 1 \<and> seg k' = seg k \<or>
     0 \<le> h \<and> (case seg k key of
       Some (h', n) \<Rightarrow> h = h' \<and> sz \<le> n \<and> seg k' = seg k
     | None \<Rightarrow> flags AND IPC_CREAT \<noteq> 0 \<and> seg k' = (seg k)(key \<mapsto> (h, sz))))"

definition at_documented :: "'k sysv \<Rightarrow> ('k \<Rightarrow> u32 \<rightharpoonup> int \<times> nat) \<Rightarrow> ('k \<Rightarrow> int \<rightharpoonup> int) \<Rightarrow> bool" where
  "at_documented sys seg att \<longleftrightarrow> (\<forall>k key h n a k'. seg k key = Some (h, n) \<longrightarrow> shmat sys h 0 0 k = (a, k') \<longrightarrow>
     seg k' = seg k \<and> (a = - 1 \<or> a \<noteq> 0 \<and> att k' a = Some h))"

lemma get_cases:
  assumes "get_documented sys seg" "key \<noteq> IPC_PRIVATE" "shmget sys key sz flags k = (h, k')"
  obtains (failed) "h = - 1" "seg k' = seg k"
    | (found) n where "0 \<le> h" "seg k key = Some (h, n)" "sz \<le> n" "seg k' = seg k"
    | (made) "0 \<le> h" "seg k key = None" "flags AND IPC_CREAT \<noteq> 0" "seg k' = (seg k)(key \<mapsto> (h, sz))"
  using assms(1) [unfolded get_documented_def, rule_format, OF assms(2,3)] by (auto split: option.splits)

lemma modes: "PERM_RO AND IPC_CREAT = 0" "(IPC_CREAT OR PERM_RO) AND IPC_CREAT \<noteq> 0"
  by (simp_all add: PERM_RO_def IPC_CREAT_def)

text \<open>Opening never makes a segment, and a pointer that it returns is one to the segment of the key.\<close>

lemma open_cases:
  assumes gd: "get_documented sys seg" and ad: "at_documented sys seg att" and key: "key \<noteq> IPC_PRIVATE"
    and run: "shmem_open sys key sz k = (a, k')"
  shows "seg k' = seg k \<and> (a = 0 \<or> (\<exists>h n. seg k key = Some (h, n) \<and> sz \<le> n \<and> att k' a = Some h))"
proof -
  obtain h k1 where g: "shmget sys key sz PERM_RO k = (h, k1)" by (cases "shmget sys key sz PERM_RO k")
  from gd key g show ?thesis
  proof (cases rule: get_cases)
    case failed
    then show ?thesis using run g by (simp add: shmem_open_def)
  next
    case (found n)
    obtain rv k2 where at: "shmat sys h 0 0 k1 = (rv, k2)" by (cases "shmat sys h 0 0 k1")
    have "(a, k') = (if rv = - 1 then (0, k2) else (rv, k2))" using run g at found(1) by (simp add: shmem_open_def)
    moreover have "seg k2 = seg k1 \<and> (rv = - 1 \<or> rv \<noteq> 0 \<and> att k2 rv = Some h)"
      using ad [unfolded at_documented_def, rule_format, OF _ at] found(2,4) by metis
    ultimately show ?thesis using found by (auto split: if_splits)
  next
    case made
    then show ?thesis using modes(1) by simp
  qed
qed

lemma create_segment:
  assumes gd: "get_documented sys seg" and key: "key \<noteq> IPC_PRIVATE" and run: "shmem_create sys key sz k = (h, k')" "0 \<le> h"
  obtains n where "seg k' key = Some (h, n)" "sz \<le> n"
  using gd key run(1) [unfolded shmem_create_def] by (cases rule: get_cases) (use run(2) that in auto)

text \<open>Opening a segment that nobody has created gives a null pointer.\<close>

theorem shmem_open_missing:
  assumes "get_documented sys seg" "at_documented sys seg att" "key \<noteq> IPC_PRIVATE" "seg k key = None"
  shows "fst (shmem_open sys key sz k) = 0"
  using open_cases [OF assms(1-3), of sz k] assms(4) by (cases "shmem_open sys key sz k") auto

text \<open>
  Creating a segment that exists takes it over, where it does not fail. \<^verbatim>\<open>ipc.h\<close> promises -1 in this case, but the code does not
  give \<^verbatim>\<open>IPC_EXCL\<close>.
\<close>

theorem shmem_create_existing:
  assumes "get_documented sys seg" "key \<noteq> IPC_PRIVATE" "seg k key = Some (h, n)" "shmem_create sys key sz k = (r, k')"
  shows "seg k' = seg k \<and> (r = - 1 \<or> r = h \<and> sz \<le> n)"
  using assms(1,2) assms(4) [unfolded shmem_create_def] by (cases rule: get_cases) (use assms(3) in auto)

subsection \<open>A kernel\<close>

text \<open>
  The calls as a small kernel implements them: a segment gets the next identifier and is attached at the next address. A private
  segment has an identifier but no key.
\<close>

record kernel =
  segments :: "(u32 \<times> nat \<times> nat) list"
  next_id :: nat
  mappings :: "(nat \<times> nat) list"
  next_addr :: nat

definition ref_shmget :: "u32 \<Rightarrow> nat \<Rightarrow> u32 \<Rightarrow> kernel \<Rightarrow> int \<times> kernel" where
  "ref_shmget key sz flags k =
     (if key = IPC_PRIVATE then (int (next_id k), k\<lparr>next_id := next_id k + 1\<rparr>)
      else case map_of (segments k) key of
        Some (h, n) \<Rightarrow> (if sz \<le> n \<and> flags AND IPC_EXCL = 0 then int h else - 1, k)
      | None \<Rightarrow>
          if flags AND IPC_CREAT = 0 then (- 1, k)
          else (int (next_id k), k\<lparr>segments := (key, next_id k, sz) # segments k, next_id := next_id k + 1\<rparr>))"

definition ref_shmat :: "int \<Rightarrow> int \<Rightarrow> u32 \<Rightarrow> kernel \<Rightarrow> int \<times> kernel" where
  "ref_shmat h addr flags k =
     (if h < 0 then (- 1, k)
      else (int (next_addr k + 1), k\<lparr>mappings := (next_addr k + 1, nat h) # mappings k, next_addr := next_addr k + 1\<rparr>))"

definition ref_sys :: "kernel sysv" where
  "ref_sys = \<lparr>shmget = ref_shmget, shmat = ref_shmat,
     shmctl = (\<lambda>h c b k. (0, k\<lparr>segments := filter (\<lambda>(_, i, _). int i \<noteq> h) (segments k)\<rparr>)),
     shmdt = (\<lambda>a k. (0, k\<lparr>mappings := filter (\<lambda>(i, _). int i \<noteq> a) (mappings k)\<rparr>))\<rparr>"

definition boot :: kernel where
  "boot = \<lparr>segments = [], next_id = 0, mappings = [], next_addr = 0\<rparr>"

definition ref_seg :: "kernel \<Rightarrow> u32 \<rightharpoonup> int \<times> nat" where
  "ref_seg k key = map_option (\<lambda>(h, n). (int h, n)) (map_of (segments k) key)"

definition ref_att :: "kernel \<Rightarrow> int \<rightharpoonup> int" where
  "ref_att k a = map_option int (map_of (mappings k) (nat a))"

lemma ref_documented: "get_documented ref_sys ref_seg" "at_documented ref_sys ref_seg ref_att"
  by (auto simp: get_documented_def at_documented_def ref_sys_def ref_shmget_def ref_shmat_def ref_seg_def ref_att_def fun_eq_iff
      split: option.split)

text \<open>On this kernel a second capture process takes the segment of the first over.\<close>

lemma created_twice:
  "let (h, k1) = shmem_create ref_sys SHMID_MINFLOWCAP 100 boot in fst (shmem_create ref_sys SHMID_MINFLOWCAP 100 k1) = h \<and> 0 \<le> h"
  by code_simp

subsection \<open>Properties\<close>

text \<open>
  C33: Both processes work on the same segment. When the capture has obtained the shared segment, then the statistics process
  gets a null pointer or one to that segment, which has at least the size that both ask for. A segment that exists already, left over from
  another run or in use by another capture, is not made anew: it is this one that the capture gets, with the identifier and size it
  had, although \<^verbatim>\<open>ipc.h\<close> says that \<^verbatim>\<open>shmem_create\<close> then returns -1.
\<close>

theorem segment_shared:
  assumes gd: "get_documented sys seg" and ad: "at_documented sys seg att"
    and cap: "obtain_segment sys mem True sz k = (a, k1)" "a \<noteq> 0" and stat: "attach_segment sys sz k1 = (b, k2)"
  shows "\<exists>h n. seg k2 SHMID_MINFLOWCAP = Some (h, n) \<and> sz \<le> n \<and> att k1 a = Some h \<and> (b = 0 \<or> att k2 b = Some h) \<and>
    (\<forall>e. seg k SHMID_MINFLOWCAP = Some e \<longrightarrow> e = (h, n))"
proof -
  have key: "SHMID_MINFLOWCAP \<noteq> IPC_PRIVATE" by (simp add: SHMID_MINFLOWCAP_def IPC_PRIVATE_def)
  obtain h k0 where c: "shmem_create sys SHMID_MINFLOWCAP sz k = (h, k0)" by (cases "shmem_create sys SHMID_MINFLOWCAP sz k")
  with cap have h: "0 \<le> h" and o: "shmem_open sys SHMID_MINFLOWCAP sz k0 = (a, k1)"
    by (auto simp: obtain_segment_def split: if_splits)
  obtain n where n: "seg k0 SHMID_MINFLOWCAP = Some (h, n)" "sz \<le> n" by (rule create_segment [OF gd key c h])
  have 1: "seg k1 = seg k0" "att k1 a = Some h" using open_cases [OF gd ad key o] cap(2) n by auto
  have 2: "seg k2 = seg k1" "b = 0 \<or> att k2 b = Some h"
    using open_cases [OF gd ad key stat [unfolded attach_segment_def]] 1 n by auto
  have "e = (h, n)" if "seg k SHMID_MINFLOWCAP = Some e" for e
    using shmem_create_existing [OF gd key _ c, of "fst e" "snd e"] that h n by auto
  with 1 2 n show ?thesis by auto
qed

text \<open>The kernel has a segment left over; the capture obtains it and the statistics process attaches it as well.\<close>

theorem segment_shared_witness:
  "\<exists>k a k1 b k2 h. ref_seg k SHMID_MINFLOWCAP = Some (h, 120) \<and> obtain_segment ref_sys 0 True 100 k = (a, k1) \<and> a \<noteq> 0 \<and>
     attach_segment ref_sys 100 k1 = (b, k2) \<and> b \<noteq> 0 \<and> ref_att k1 a = Some h \<and> ref_att k2 b = Some h \<and>
     ref_seg k2 SHMID_MINFLOWCAP = Some (h, 120)"
proof -
  define k where "k = snd (shmem_create ref_sys SHMID_MINFLOWCAP 120 boot)"
  define k1 where "k1 = snd (obtain_segment ref_sys 0 True 100 k)"
  have 0: "ref_seg k SHMID_MINFLOWCAP = Some (0, 120)" unfolding k_def by code_simp
  have 1: "obtain_segment ref_sys 0 True 100 k = (1, k1)" by (simp add: k1_def k_def) code_simp
  have 2: "fst (attach_segment ref_sys 100 k1) = 2" unfolding k1_def k_def by code_simp
  then obtain k2 where 3: "attach_segment ref_sys 100 k1 = (2, k2)" by (cases "attach_segment ref_sys 100 k1") simp
  from segment_shared [OF ref_documented 1 _ 3] 0 have
    "ref_att k1 1 = Some 0" "ref_att k2 2 = Some 0" "ref_seg k2 SHMID_MINFLOWCAP = Some (0, 120)" by auto
  with 0 1 3 show ?thesis by (intro exI [of _ k] exI [of _ 1] exI [of _ k1] exI [of _ 2] exI [of _ k2] exI [of _ 0]) simp
qed

end
