(* ===== verification/Export.thy ===== *)
theory Export
  imports ShmData
begin

text \<open>
  The output of the statistics: string buffers (\<^verbatim>\<open>utils/stringbuf.c\<close>) and the report of one period
  (\<^verbatim>\<open>export/export.c\<close>), which is collected in three buffers and printed at its end.
\<close>

subsection \<open>String buffers\<close>

text \<open>
  The memory of a buffer is a list of \<^verbatim>\<open>capacity\<close> bytes, \<^term>\<open>None\<close> where nothing has been written. Strings are
  lists of characters other than the terminator.
\<close>

record sbuf_t =
  capacity :: int
  sb_len :: int
  sb_ptr :: "char option list"

abbreviation NUL :: char where "NUL \<equiv> CHR 0x00"

definition sbuf_new :: "bool \<Rightarrow> int \<Rightarrow> sbuf_t option" where
  "sbuf_new ok cap =
     (if ok then Some \<lparr>capacity = cap, sb_len = 0, sb_ptr = replicate (nat cap) None\<rparr> else None)"

definition sbuf_remaining :: "sbuf_t \<Rightarrow> int" where
  "sbuf_remaining buf = capacity buf - sb_len buf - 1"

text \<open>\<^verbatim>\<open>strncpy\<close> copies up to a terminator and fills the rest with terminators.\<close>

definition strncpy :: "char option list \<Rightarrow> nat \<Rightarrow> char option list" where
  "strncpy src n = (let s = takeWhile (\<lambda>c. c \<noteq> Some NUL) (take n src) in s @ replicate (n - length s) (Some NUL))"

definition sbuf_resize :: "bool \<Rightarrow> sbuf_t \<Rightarrow> int \<Rightarrow> int \<times> sbuf_t" where
  "sbuf_resize ok buf cap =
     (if \<not> ok then (1, buf)
      else
        let n = nat (sb_len buf) in
        (0, buf\<lparr>sb_ptr := strncpy (sb_ptr buf) n @ replicate (nat cap - n) None, capacity := cap\<rparr>))"

text \<open>\<^verbatim>\<open>strcpy\<close> to position \<open>n\<close> of a buffer.\<close>

definition strcpy_at :: "char option list \<Rightarrow> nat \<Rightarrow> string \<Rightarrow> char option list c_result" where
  "strcpy_at p n str =
     (if n + length str + 1 \<le> length p
      then Inr (take n p @ map Some str @ Some NUL # drop (n + length str + 1) p) else Inl OutOfBounds)"

definition sbuf_append :: "bool \<Rightarrow> sbuf_t \<Rightarrow> string \<Rightarrow> (int \<times> sbuf_t) c_result" where
  "sbuf_append ok buf str =
     (let len_to_add = int (length str) in
      bind_r (if len_to_add > sbuf_remaining buf
              then if capacity buf * 2 > INT_MAX then Inl IntOverflow else Inr (sbuf_resize ok buf (capacity buf * 2))
              else Inr (0, buf)) (\<lambda>(rc, buf1).
        if rc \<noteq> 0 then Inr (1, buf1)
        else bind_r (strcpy_at (sb_ptr buf1) (nat (sb_len buf1)) str) (\<lambda>p.
               Inr (0, buf1\<lparr>sb_ptr := p, sb_len := sb_len buf1 + len_to_add\<rparr>))))"

definition sbuf_to_s :: "sbuf_t \<Rightarrow> char option list" where
  "sbuf_to_s buf = sb_ptr buf"

text \<open>The string at the start of a piece of memory, as \<^verbatim>\<open>puts\<close> reads it.\<close>

fun c_string :: "char option list \<Rightarrow> string c_result" where
  "c_string [] = Inl OutOfBounds"
| "c_string (None # _) = Inl Uninit"
| "c_string (Some c # p) = (if c = NUL then Inr [] else bind_r (c_string p) (\<lambda>s. Inr (c # s)))"

subsection \<open>The report\<close>

datatype SortBy = SortByNone | SortByPkt | SortByBytes | SortByTxPkt | SortByTxBytes | SortByRxPkt | SortByRxBytes
  | SortByScannedPorts | SortByServedPorts | SortByMax

definition SORT_NAMES :: "string list" where
  "SORT_NAMES = [''?'', ''P'', ''B'', ''TXP'', ''TB'', ''RXP'', ''RB'', ''#P>'', ''#P<'']"

primrec sort_index :: "SortBy \<Rightarrow> nat" where
  "sort_index SortByNone = 0" | "sort_index SortByPkt = 1" | "sort_index SortByBytes = 2" | "sort_index SortByTxPkt = 3"
| "sort_index SortByTxBytes = 4" | "sort_index SortByRxPkt = 5" | "sort_index SortByRxBytes = 6"
| "sort_index SortByScannedPorts = 7" | "sort_index SortByServedPorts = 8" | "sort_index SortByMax = 9"

definition sort_name :: "SortBy \<Rightarrow> string" where
  "sort_name sortby = (if sort_index sortby \<ge> sort_index SortByMax then SORT_NAMES ! 0 else SORT_NAMES ! sort_index sortby)"

text \<open>
  The static variables of \<^verbatim>\<open>export.c\<close>, the standard output and the outcome of \<^verbatim>\<open>malloc\<close>. The lists of what has
  been seen in the period hold indices into the segment that is reported.
\<close>

record export_state =
  ex_streams :: "nat list"
  ex_addrs :: "nat list"
  sbuf_addrs :: "sbuf_t option"
  sbuf_streams :: "sbuf_t option"
  sbuf_stats :: "sbuf_t option"
  ex_initialized :: bool
  ex_out :: string
  ex_heap :: bool

abbreviation LF :: char where "LF \<equiv> CHR 0x0A"

definition print :: "string \<Rightarrow> export_state \<Rightarrow> export_state" where
  "print s ex = ex\<lparr>ex_out := ex_out ex @ s\<rparr>"

text \<open>\<^verbatim>\<open>sprintf\<close> into a buffer of \<open>n\<close> bytes.\<close>

definition sprintf :: "nat \<Rightarrow> string \<Rightarrow> string c_result" where
  "sprintf n s = (if length s < n then Inr s else Inl OutOfBounds)"

definition on_stat_period_open :: "u32 \<Rightarrow> int \<Rightarrow> export_state \<Rightarrow> export_state" where
  "on_stat_period_open ts period_seconds ex =
     (let ex1 = (if \<not> ex_initialized ex then
                   ex\<lparr>sbuf_addrs := sbuf_new (ex_heap ex) 8192, sbuf_streams := sbuf_new (ex_heap ex) 8192,
                      sbuf_stats := sbuf_new (ex_heap ex) 8192\<rparr>
                 else ex);
          ex2 = print (''===,START,'' @ dec (unat ts) @ '','' @ dec_int period_seconds @ [LF]) ex1
      in ex2\<lparr>ex_streams := [], ex_addrs := []\<rparr>)"

definition puts_sbuf :: "sbuf_t option \<Rightarrow> export_state \<Rightarrow> export_state c_result" where
  "puts_sbuf b ex =
     (case b of None \<Rightarrow> Inl NullDeref
      | Some buf \<Rightarrow> bind_r (c_string (sbuf_to_s buf)) (\<lambda>s. Inr (print (s @ [LF]) ex)))"

definition on_stat_period_close :: "int \<Rightarrow> export_state \<Rightarrow> export_state c_result" where
  "on_stat_period_close period_seconds ex =
     (let ex1 = print (''_ADDR_,_IID_,_Internal_,_Label_,_MAC_,_____'' @ [LF]) ex in
      bind_r (puts_sbuf (sbuf_addrs ex1) ex1) (\<lambda>ex2.
      let ex3 = print (''_STRM_,_IID_,_FlowFlags_,_IpProto_,_LAddrIID_,_LPort_,_RAddrIID_,_RPort_,_Label_,_____'' @ [LF]) ex2 in
      bind_r (puts_sbuf (sbuf_streams ex3) ex3) (\<lambda>ex4.
      bind_r (puts_sbuf (sbuf_stats ex4) ex4) (\<lambda>ex5.
        Inr (print (''===,END,'' @ dec_int period_seconds @ [LF]) ex5)))))"

definition append_addrs :: "string \<Rightarrow> export_state \<Rightarrow> export_state c_result" where
  "append_addrs line ex =
     (case sbuf_addrs ex of None \<Rightarrow> Inl NullDeref
      | Some b \<Rightarrow> bind_r (sbuf_append (ex_heap ex) b line) (\<lambda>(_, b'). Inr (ex\<lparr>sbuf_addrs := Some b'\<rparr>)))"

definition append_streams :: "string \<Rightarrow> export_state \<Rightarrow> export_state c_result" where
  "append_streams line ex =
     (case sbuf_streams ex of None \<Rightarrow> Inl NullDeref
      | Some b \<Rightarrow> bind_r (sbuf_append (ex_heap ex) b line) (\<lambda>(_, b'). Inr (ex\<lparr>sbuf_streams := Some b'\<rparr>)))"

definition append_stats :: "string \<Rightarrow> export_state \<Rightarrow> export_state c_result" where
  "append_stats line ex =
     (case sbuf_stats ex of None \<Rightarrow> Inl NullDeref
      | Some b \<Rightarrow> bind_r (sbuf_append (ex_heap ex) b line) (\<lambda>(_, b'). Inr (ex\<lparr>sbuf_stats := Some b'\<rparr>)))"

definition LINEBUF :: nat where "LINEBUF = 2048"

text \<open>
  Whether an address or a stream has been seen in this period; if not it is noted. \<open>seg\<close> is the segment that is
  reported; entries are identified by their instance id.
\<close>

definition seen_addr :: "sharedif_t \<Rightarrow> nat \<Rightarrow> export_state \<Rightarrow> (bool \<times> export_state) c_result" where
  "seen_addr seg addr ex =
     (if list_ex (\<lambda>j. ai_iid (aget (shm_addrs seg) j) = ai_iid (aget (shm_addrs seg) addr)) (ex_addrs ex) then Inr (True, ex)
      else if length (ex_addrs ex) < 1024 then Inr (False, ex\<lparr>ex_addrs := ex_addrs ex @ [addr]\<rparr>) else Inl OutOfBounds)"

definition seen_stream :: "sharedif_t \<Rightarrow> nat \<Rightarrow> export_state \<Rightarrow> (bool \<times> export_state) c_result" where
  "seen_stream seg stream ex =
     (if list_ex (\<lambda>j. si_iid (aget (shm_streams seg) j) = si_iid (aget (shm_streams seg) stream)) (ex_streams ex) then Inr (True, ex)
      else if length (ex_streams ex) < 1024 then Inr (False, ex\<lparr>ex_streams := ex_streams ex @ [stream]\<rparr>) else Inl OutOfBounds)"

definition addr_line :: "addr_info_t \<Rightarrow> string c_result" where
  "addr_line addr =
     bind_r (addr_info_to_s 80 addr) (\<lambda>pbuf.
     bind_r (sprintf 60 (if internal addr \<noteq> 0 then addr_mac_to_s addr else [])) (\<lambda>mbuf.
       sprintf LINEBUF (''ADDR,'' @ dec (unat (ai_iid addr)) @ '','' @ dec (unat (internal addr)) @ '','' @ pbuf @ '','' @ mbuf @ '','' @ [LF])))"

definition on_new_addr :: "sharedif_t \<Rightarrow> nat \<Rightarrow> export_state \<Rightarrow> export_state c_result" where
  "on_new_addr seg addr ex = bind_r (addr_line (aget (shm_addrs seg) addr)) (\<lambda>line. append_addrs line ex)"

definition note_addr :: "sharedif_t \<Rightarrow> nat \<Rightarrow> export_state \<Rightarrow> export_state c_result" where
  "note_addr seg addr ex = bind_r (seen_addr seg addr ex) (\<lambda>(seen, ex1). if seen then Inr ex1 else on_new_addr seg addr ex1)"

definition stream_line :: "stream_info_t \<Rightarrow> addr_info_t \<Rightarrow> addr_info_t \<Rightarrow> string c_result" where
  "stream_line stream aleft aright =
     bind_r (bind_r (stream_label stream aleft aright) (sprintf 80)) (\<lambda>pbuf.
       sprintf LINEBUF (''STRM,'' @ dec (unat (si_iid stream)) @ '','' @ dec (unat (flowflags stream)) @ '','' @
         dec (unat (si_ipproto stream)) @ '','' @ dec (unat (ai_iid aleft)) @ '','' @ dec (unat (si_lport stream)) @ '','' @
         dec (unat (ai_iid aright)) @ '','' @ dec (unat (si_rport stream)) @ '','' @ pbuf @ [LF]))"

definition on_new_stream :: "sharedif_t \<Rightarrow> nat \<Rightarrow> nat \<Rightarrow> nat \<Rightarrow> export_state \<Rightarrow> export_state c_result" where
  "on_new_stream seg stream aleft aright ex =
     bind_r (note_addr seg aleft ex) (\<lambda>ex1.
     bind_r (note_addr seg aright ex1) (\<lambda>ex2.
     bind_r (stream_line (aget (shm_streams seg) stream) (aget (shm_addrs seg) aleft) (aget (shm_addrs seg) aright)) (\<lambda>line.
       append_streams line ex2)))"

definition note_stream :: "sharedif_t \<Rightarrow> nat \<Rightarrow> nat \<Rightarrow> nat \<Rightarrow> export_state \<Rightarrow> export_state c_result" where
  "note_stream seg stream aleft aright ex =
     bind_r (seen_stream seg stream ex) (\<lambda>(seen, ex1). if seen then Inr ex1 else on_new_stream seg stream aleft aright ex1)"

definition on_topn_stream :: "sharedif_t \<Rightarrow> SortBy \<Rightarrow> u32 \<Rightarrow> nat \<Rightarrow> nat \<Rightarrow> nat \<Rightarrow> nat \<Rightarrow> export_state \<Rightarrow> export_state c_result" where
  "on_topn_stream seg sortby flags i stream aleft aright ex =
     (let s = aget (shm_streams seg) stream in
      bind_r (if i = 0 then append_stats (''_TSTR_,_SortBy_,_FlowFlags_,_Idx_,_Packets_,_Bytes_,_Stream_,_____'' @ [LF]) ex else Inr ex) (\<lambda>ex1.
      bind_r (note_stream seg stream aleft aright ex1) (\<lambda>ex2.
      bind_r (sprintf LINEBUF (''TSTR,'' @ sort_name sortby @ '','' @ dec_int (sint flags) @ '','' @ dec i @ '','' @
                dec (unat (packets s)) @ '','' @ dec (unat (bytes s)) @ '','' @ dec (unat (si_iid s)) @ [LF])) (\<lambda>line.
        append_stats line ex2))))"

definition on_topn_protocol :: "SortBy \<Rightarrow> u32 \<Rightarrow> nat \<Rightarrow> u16 \<Rightarrow> u8 \<Rightarrow> proto_info_t \<Rightarrow> export_state \<Rightarrow> export_state c_result" where
  "on_topn_protocol sortby flags i port proto p ex =
     bind_r (if i = 0 then append_stats (''_PORT_,_SortBy_,_FlowFlags_,_Idx_,_Port_,_IpProto_,_Packets_,_Bytes_,_____'' @ [LF]) ex else Inr ex) (\<lambda>ex1.
     bind_r (sprintf LINEBUF (''PORT,'' @ sort_name sortby @ '','' @ dec_int (sint flags) @ '','' @ dec i @ '','' @
               dec (unat port) @ '','' @ dec (unat proto) @ '','' @ dec (unat (pi_packets p)) @ '','' @ dec (unat (pi_bytes p)) @ [LF])) (\<lambda>line.
       append_stats line ex1))"

definition on_topn_address :: "sharedif_t \<Rightarrow> SortBy \<Rightarrow> u32 \<Rightarrow> nat \<Rightarrow> nat \<Rightarrow> export_state \<Rightarrow> export_state c_result" where
  "on_topn_address seg sortby flags i addr ex =
     (let a = aget (shm_addrs seg) addr in
      bind_r (if i = 0 then append_stats (''_TADR_,_SortBy_,_FlowFlags_,_Idx_,_Address_,_TxPackets_,_TxBytes_,_RxPackets_,_RxBytes_,____'' @ [LF]) ex
              else Inr ex) (\<lambda>ex1.
      bind_r (note_addr seg addr ex1) (\<lambda>ex2.
      bind_r (sprintf LINEBUF (''TADR,'' @ sort_name sortby @ '','' @ dec_int (sint flags) @ '','' @ dec i @ '','' @
                dec (unat (ai_iid a)) @ '','' @ dec (unat (txpackets a)) @ '','' @ dec (unat (txbytes a)) @ '','' @
                dec (unat (rxpackets a)) @ '','' @ dec (unat (rxbytes a)) @ [LF])) (\<lambda>line.
        append_stats line ex2))))"

subsection \<open>Buffers hold texts\<close>

text \<open>
  A buffer holds a text when its bytes up to the length are the text, which is followed by a terminator
  once something has been written. The capacity is at least that of a new report buffer and has been
  doubled only when the text needed it.
\<close>

definition sb_text :: "sbuf_t \<Rightarrow> string \<Rightarrow> bool" where
  "sb_text b txt \<longleftrightarrow>
     length (sb_ptr b) = nat (capacity b) \<and> sb_len b = int (length txt) \<and> NUL \<notin> set txt \<and>
     take (length txt) (sb_ptr b) = map Some txt \<and> int (length txt) < capacity b \<and>
     (txt = [] \<or> sb_ptr b ! length txt = Some NUL)"

definition report_text :: "sbuf_t \<Rightarrow> string \<Rightarrow> bool" where
  "report_text b txt \<longleftrightarrow> sb_text b txt \<and> 8192 \<le> capacity b \<and> capacity b \<le> max 8192 (2 * int (length txt))"

lemma new_text: "0 < cap \<Longrightarrow> sbuf_new True cap = Some b \<Longrightarrow> sb_text b []"
  by (auto simp: sbuf_new_def sb_text_def)

lemma strncpy_text:
  assumes "take n p = map Some txt" "length txt = n" "NUL \<notin> set txt"
  shows "strncpy p n = map Some txt"
proof -
  have all: "takeWhile (\<lambda>c. c \<noteq> Some NUL) (map Some txt) = map Some txt"
    using assms(3) by (auto simp: takeWhile_eq_all_conv)
  show ?thesis unfolding strncpy_def Let_def assms(1) all using assms(2) by simp
qed

lemma resize_text:
  assumes "sb_text b txt" "capacity b \<le> cap"
  obtains b' where "sbuf_resize True b cap = (0, b')" "capacity b' = cap" "sb_len b' = int (length txt)"
    "length (sb_ptr b') = nat cap" "take (length txt) (sb_ptr b') = map Some txt"
proof -
  have "strncpy (sb_ptr b) (length txt) = map Some txt"
    using assms(1) by (intro strncpy_text) (simp_all add: sb_text_def)
  then show ?thesis using that assms by (auto simp: sbuf_resize_def sb_text_def Let_def)
qed

lemma strcpy_text:
  assumes "take (length txt) p = map Some txt" "length txt + length str < length p" "NUL \<notin> set txt" "NUL \<notin> set str"
  obtains p' where "strcpy_at p (length txt) str = Inr p'" "length p' = length p"
    "take (length (txt @ str)) p' = map Some (txt @ str)" "p' ! length (txt @ str) = Some NUL"
proof (rule that)
  show "strcpy_at p (length txt) str = Inr (map Some txt @ map Some str @ Some NUL # drop (length txt + length str + 1) p)"
    using assms by (simp add: strcpy_at_def)
qed (use assms in \<open>simp_all add: nth_append\<close>)

text \<open>
  Appending: the text grows by the string when it fits after one doubling, which is what
  \<^verbatim>\<open>sbuf_append\<close> provides for.
\<close>

lemma append_text:
  assumes holds: "sb_text b txt" and str: "NUL \<notin> set str"
    and fits: "int (length txt + length str) < 2 * capacity b" "2 * capacity b \<le> INT_MAX"
  obtains b' where "sbuf_append True b str = Inr (0, b')" "sb_text b' (txt @ str)" "sb_ptr b' ! length (txt @ str) = Some NUL"
    "capacity b' = (if int (length txt + length str) < capacity b then capacity b else 2 * capacity b)"
proof (cases "int (length txt + length str) < capacity b")
  case True
  have h: "take (length txt) (sb_ptr b) = map Some txt" "NUL \<notin> set txt" "sb_len b = int (length txt)" "length (sb_ptr b) = nat (capacity b)"
    using holds by (simp_all add: sb_text_def)
  from True h have "length txt + length str < length (sb_ptr b)" by simp
  from strcpy_text [OF h(1) this h(2) str] obtain p' where
    p': "strcpy_at (sb_ptr b) (length txt) str = Inr p'" "length p' = length (sb_ptr b)"
    "take (length (txt @ str)) p' = map Some (txt @ str)" "p' ! length (txt @ str) = Some NUL" .
  show ?thesis
    by (rule that [of "b\<lparr>sb_ptr := p', sb_len := int (length txt) + int (length str)\<rparr>"])
       (use True h p' str in \<open>simp_all add: sbuf_append_def sbuf_remaining_def sb_text_def\<close>)
next
  case False
  have pos: "0 < capacity b" using holds by (simp add: sb_text_def)
  have h: "NUL \<notin> set txt" "sb_len b = int (length txt)" using holds by (simp_all add: sb_text_def)
  from resize_text [OF holds, of "2 * capacity b"] pos obtain b1 where
    b1: "sbuf_resize True b (2 * capacity b) = (0, b1)" "capacity b1 = 2 * capacity b" "sb_len b1 = int (length txt)"
    "length (sb_ptr b1) = nat (2 * capacity b)" "take (length txt) (sb_ptr b1) = map Some txt" by auto
  have "length txt + length str < length (sb_ptr b1)" using fits(1) b1(4) by simp
  from strcpy_text [OF b1(5) this h(1) str] obtain p' where
    p': "strcpy_at (sb_ptr b1) (length txt) str = Inr p'" "length p' = length (sb_ptr b1)"
    "take (length (txt @ str)) p' = map Some (txt @ str)" "p' ! length (txt @ str) = Some NUL" .
  show ?thesis
    by (rule that [of "b1\<lparr>sb_ptr := p', sb_len := int (length txt) + int (length str)\<rparr>"])
       (use False fits h b1 p' str in \<open>simp_all add: sbuf_append_def sbuf_remaining_def sb_text_def mult.commute\<close>)
qed

lemma c_string_text:
  assumes "NUL \<notin> set txt" "take (length txt) p = map Some txt" "length txt < length p" "p ! length txt = Some NUL"
  shows "c_string p = Inr txt"
  using assms
proof (induction "txt" arbitrary: p)
  case Nil
  then show ?case by (cases p) auto
next
  case (Cons c "txt")
  then obtain p1 where p: "p = Some c # p1" by (cases p) auto
  with Cons show ?case by auto
qed

lemma c_string_fresh: "0 < n \<Longrightarrow> c_string (replicate n None) = Inl Uninit"
  by (cases n) simp_all

text \<open>
  The interface of a buffer that lines are collected in: it holds a text, and a line of bounded length can
  be appended as long as the text is below a limit.
\<close>

locale text_buffer =
  fixes holds :: "'b \<Rightarrow> string \<Rightarrow> bool" and append :: "'b \<Rightarrow> string \<Rightarrow> 'b c_result"
    and limit line_max :: nat
  assumes append_holds: "holds b t \<Longrightarrow> length t < limit \<Longrightarrow> NUL \<notin> set s \<Longrightarrow> length s < line_max \<Longrightarrow>
    \<exists>b'. append b s = Inr b' \<and> holds b' (t @ s)"
begin

lemma append_all:
  assumes "holds b t" "\<forall>s \<in> set ls. NUL \<notin> set s \<and> length s < line_max" "length t + length (concat ls) < limit"
  shows "\<exists>b'. fold_r (\<lambda>s b. append b s) ls b = Inr b' \<and> holds b' (t @ concat ls)"
  using assms
proof (induction ls arbitrary: b t)
  case (Cons l ls)
  from append_holds [OF Cons.prems(1), of l] Cons.prems obtain b1 where b1: "append b l = Inr b1" "holds b1 (t @ l)" by auto
  from Cons.IH [OF b1(2)] Cons.prems obtain b' where "fold_r (\<lambda>s b. append b s) ls b1 = Inr b'" "holds b' ((t @ l) @ concat ls)" by auto
  with b1(1) show ?case by simp
qed simp

end

definition sb_put :: "sbuf_t \<Rightarrow> string \<Rightarrow> sbuf_t c_result" where
  "sb_put b s = bind_r (sbuf_append True b s) (\<lambda>(_, b'). Inr b')"

text \<open>
  A report buffer is such a buffer: a line of the line buffer always fits after one doubling, because the
  capacity is at least 8192.
\<close>

lemma sb_put_text:
  assumes "report_text b t" "length t < 2 ^ 29" "NUL \<notin> set s" "length s < LINEBUF"
  shows "\<exists>b'. sbuf_append True b s = Inr (0, b') \<and> report_text b' (t @ s) \<and> sb_ptr b' ! length (t @ s) = Some NUL"
proof -
  have h: "sb_text b t" "8192 \<le> capacity b" "capacity b \<le> max 8192 (2 * int (length t))"
    using assms(1) by (simp_all add: report_text_def)
  have lt: "int (length t) < capacity b" using h(1) by (simp add: sb_text_def)
  have fits: "int (length t + length s) < 2 * capacity b" using lt h(2) assms(4) by (simp add: LINEBUF_def)
  have "2 * capacity b \<le> INT_MAX" using h(3) assms(2) by (simp add: INT_MAX_def)
  from append_text [OF h(1) assms(3) fits this] obtain b' where
    b': "sbuf_append True b s = Inr (0, b')" "sb_text b' (t @ s)" "sb_ptr b' ! length (t @ s) = Some NUL"
    "capacity b' = (if int (length t + length s) < capacity b then capacity b else 2 * capacity b)" .
  then have "report_text b' (t @ s)" using h by (auto simp: report_text_def)
  with b' show ?thesis by blast
qed

interpretation report: text_buffer report_text sb_put "2 ^ 29" LINEBUF
  using sb_put_text by unfold_locales (fastforce simp: sb_put_def)

lemma new_report: "\<exists>b. sbuf_new True 8192 = Some b \<and> report_text b []"
  using new_text [of 8192] by (auto simp: sbuf_new_def report_text_def)

subsection \<open>Properties of the buffers\<close>

text \<open>
  C23: A new buffer of 8192 bytes collects lines: any sequence of lines that each fit the line buffer, up
  to half a gigabyte in all, is appended without leaving the memory, and the buffer then reads back as
  the lines joined together.
\<close>

theorem sbuf_collects_lines:
  assumes "\<forall>s \<in> set ls. NUL \<notin> set s \<and> length s < LINEBUF" "length (concat ls) < 2 ^ 29" "concat ls \<noteq> []"
  shows "\<exists>b b'. sbuf_new True 8192 = Some b \<and> fold_r (\<lambda>s b. bind_r (sbuf_append True b s) (\<lambda>(_, b'). Inr b')) ls b = Inr b' \<and>
    c_string (sbuf_to_s b') = Inr (concat ls)"
proof -
  obtain b where b: "sbuf_new True 8192 = Some b" "report_text b []" using new_report by blast
  from report.append_all [OF b(2) assms(1)] assms(2) obtain b' where
    run: "fold_r (\<lambda>s b. sb_put b s) ls b = Inr b'" and t: "report_text b' (concat ls)" by auto
  have "c_string (sb_ptr b') = Inr (concat ls)"
    using t assms(3) by (intro c_string_text) (auto simp: report_text_def sb_text_def)
  then show ?thesis using b(1) run by (auto simp: sb_put_def sbuf_to_s_def)
qed

theorem sbuf_collects_lines_witness:
  "\<exists>b b'. sbuf_new True 8192 = Some b \<and>
     fold_r (\<lambda>s b. bind_r (sbuf_append True b s) (\<lambda>(_, b'). Inr b')) [''TADR,P'', ''0,1''] b = Inr b' \<and>
     c_string (sbuf_to_s b') = Inr ''TADR,P0,1''"
  using sbuf_collects_lines [of "[''TADR,P'', ''0,1'']"] by (simp add: LINEBUF_def)

text \<open>
  \<^verbatim>\<open>sbuf_append\<close> doubles the capacity once and does not check that this is enough: a string that is
  longer than what remains of the doubled capacity is stored past its end.
\<close>

theorem sbuf_append_overflows:
  assumes "sb_text b t" "NUL \<notin> set s" "2 * capacity b \<le> INT_MAX" "2 * capacity b \<le> int (length t + length s)"
  shows "sbuf_append True b s = Inl OutOfBounds"
proof -
  have pos: "0 < capacity b" "sb_len b = int (length t)" "int (length t) < capacity b" using assms(1) by (simp_all add: sb_text_def)
  from resize_text [OF assms(1), of "2 * capacity b"] pos obtain b1 where
    b1: "sbuf_resize True b (2 * capacity b) = (0, b1)" "sb_len b1 = int (length t)" "length (sb_ptr b1) = nat (2 * capacity b)" by auto
  have "strcpy_at (sb_ptr b1) (length t) s = Inl OutOfBounds" using assms(4) b1(3) by (simp add: strcpy_at_def)
  then show ?thesis
    using assms(3,4) pos b1 by (simp add: sbuf_append_def sbuf_remaining_def mult.commute)
qed

theorem sbuf_append_overflows_witness:
  "\<exists>b. sbuf_new True 4 = Some b \<and> sbuf_append True b ''123456789'' = Inl OutOfBounds"
proof -
  obtain b where b: "sbuf_new True 4 = Some b" by (simp add: sbuf_new_def)
  moreover have "capacity b = 4" using b by (auto simp: sbuf_new_def)
  ultimately show ?thesis using sbuf_append_overflows [OF new_text [of 4 b], of "''123456789''"] by (simp add: INT_MAX_def)
qed

subsection \<open>Lines of the report\<close>

named_theorems line_intros \<open>parts of a line that are printable\<close>

definition plain :: "string \<Rightarrow> bool" where
  "plain s \<longleftrightarrow> NUL \<notin> set s"

lemma plain_simps [simp]:
  "plain []" "plain (c # s) = (c \<noteq> NUL \<and> plain s)" "plain (s @ t) = (plain s \<and> plain t)"
  by (auto simp: plain_def)

lemma plain_dec [simp]: "plain (dec n)" "plain (dec_int i)"
proof -
  show d: "plain (dec n)" for n by (simp add: plain_def notin_dec)
  show "plain (dec_int i)" using d by (simp add: dec_int_def)
qed

lemma length_dec_le: "n < 10 ^ k \<Longrightarrow> 0 < k \<Longrightarrow> length (dec n) \<le> k"
proof (induction k arbitrary: n)
  case (Suc k)
  show ?case
  proof (cases "n < 10")
    case False
    then have "0 < k" using Suc.prems(1) by (cases k) auto
    moreover have "n div 10 < 10 ^ k" using Suc.prems(1) by (simp add: less_mult_imp_div_less mult.commute)
    ultimately show ?thesis using Suc.IH [of "n div 10"] False by (simp add: dec.simps [of n])
  qed (simp add: dec.simps [of n])
qed simp

lemma length_dec_word:
  "length (dec (unat (a :: u8))) \<le> 3" "length (dec (unat (b :: u16))) \<le> 5" "length (dec (unat (c :: u32))) \<le> 10"
  using unsigned_less [of a, where ?'a = nat] unsigned_less [of b, where ?'a = nat] unsigned_less [of c, where ?'a = nat]
  by (intro length_dec_le; simp)+

lemma length_dec_sint: "length (dec_int (sint (w :: u32))) \<le> 11"
proof -
  have "- (2 ^ 31) \<le> sint w" "sint w < 2 ^ 31" using sint_greater_eq [of w] sint_less [of w] by simp_all
  then have "nat \<bar>sint w\<bar> < 10 ^ 10" by auto
  then have "length (dec (nat \<bar>sint w\<bar>)) \<le> 10" by (rule length_dec_le) simp
  then show ?thesis by (simp add: dec_int_def abs_if split: if_splits)
qed

lemma plain_dotted: "plain (dotted (le32 ip))" "length (dotted (le32 ip)) \<le> 15"
  using length_dotted4 by (simp_all add: dotted_def le32_def)

lemma addr_label_ok:
  assumes "32 \<le> cap"
  obtains l where "addr_info_to_s cap a = Inr l" "plain l" "length l \<le> 15"
  using that plain_dotted assms by (cases "ai_isv6 a = 0") (auto simp: addr_info_to_s_def ip2string_eq)

lemma stream_label_ok:
  obtains l where "stream_label s a b = Inr l" "plain l" "length l \<le> 47"
proof -
  obtain l where l: "addr_info_to_s 32 a = Inr l" "plain l" "length l \<le> 15" by (rule addr_label_ok [of 32 a]) simp
  obtain r where r: "addr_info_to_s 32 b = Inr r" "plain r" "length r \<le> 15" by (rule addr_label_ok [of 32 b]) simp
  have n: "plain (get_proto_name (si_ipproto s))" "length (get_proto_name (si_ipproto s)) \<le> 3" by (simp_all add: get_proto_name_def)
  let ?l = "get_proto_name (si_ipproto s) @ ''|'' @ l @ '':'' @ dec (unat (si_lport s)) @ ''|'' @ r @ '':'' @ dec (unat (si_rport s))"
  have "length ?l \<le> 47"
    using l(3) r(3) n(2) length_dec_word(2) [of "si_lport s"] length_dec_word(2) [of "si_rport s"] by simp
  moreover have "plain ?l" using l(2) r(2) n(1) by simp
  moreover have "stream_label s a b = Inr ?l" using l(1) r(1) by (simp add: stream_label_def)
  ultimately show ?thesis using that by blast
qed

lemma mac_ok: "plain (addr_mac_to_s a)" "length (addr_mac_to_s a) = 17"
proof -
  have hex: "hex_digit n \<noteq> NUL" if "n < 16" for n
  proof -
    have "(of_char (hex_digit n) :: nat) = (if n < 10 then 48 + n else 87 + n)" using that by (simp add: hex_digit_def of_char_of)
    then show ?thesis by (auto split: if_splits)
  qed
  have "unat b div 16 < 16" "unat b mod 16 < 16" for b :: u8
    using unsigned_less [of b, where ?'a = nat] by (simp_all add: less_mult_imp_div_less)
  then show "plain (addr_mac_to_s a)" "length (addr_mac_to_s a) = 17"
    by (simp_all add: addr_mac_to_s_def hex2_def hex Let_def)
qed

text \<open>Every line of the report is plain text and fits the line buffer.\<close>

definition is_line :: "string \<Rightarrow> bool" where
  "is_line s \<longleftrightarrow> NUL \<notin> set s \<and> length s < LINEBUF \<and> s \<noteq> []"

lemma is_lineI: "plain s \<Longrightarrow> length s < LINEBUF \<Longrightarrow> s \<noteq> [] \<Longrightarrow> is_line s"
  by (simp add: is_line_def plain_def)

lemma addr_line_ok: obtains l where "addr_line a = Inr l" "is_line l"
proof -
  obtain l where l: "addr_info_to_s 80 a = Inr l" "plain l" "length l \<le> 15" by (rule addr_label_ok [of 80 a]) simp
  let ?m = "if internal a \<noteq> 0 then addr_mac_to_s a else []"
  let ?l = "''ADDR,'' @ dec (unat (ai_iid a)) @ '','' @ dec (unat (internal a)) @ '','' @ l @ '','' @ ?m @ '','' @ [LF]"
  have m: "plain ?m" "length ?m \<le> 17" using mac_ok [of a] by auto
  have len: "length ?l < LINEBUF"
    using l(3) m(2) length_dec_word(1) [of "internal a"] length_dec_word(3) [of "ai_iid a"] by (simp add: LINEBUF_def)
  have "addr_line a = Inr ?l" using l(1) m(2) len by (simp add: addr_line_def sprintf_def)
  moreover have "is_line ?l" by (rule is_lineI) (use l(2) m(1) len in simp_all)
  ultimately show ?thesis using that by blast
qed

lemma stream_line_ok: obtains l where "stream_line s a b = Inr l" "is_line l"
proof -
  obtain l where l: "stream_label s a b = Inr l" "plain l" "length l \<le> 47" by (rule stream_label_ok)
  let ?l = "''STRM,'' @ dec (unat (si_iid s)) @ '','' @ dec (unat (flowflags s)) @ '','' @
     dec (unat (si_ipproto s)) @ '','' @ dec (unat (ai_iid a)) @ '','' @ dec (unat (si_lport s)) @ '','' @
     dec (unat (ai_iid b)) @ '','' @ dec (unat (si_rport s)) @ '','' @ l @ [LF]"
  have len: "length ?l < LINEBUF"
    using l(3) length_dec_word(3) [of "si_iid s"] length_dec_word(1) [of "flowflags s"] length_dec_word(1) [of "si_ipproto s"]
      length_dec_word(3) [of "ai_iid a"] length_dec_word(2) [of "si_lport s"] length_dec_word(3) [of "ai_iid b"]
      length_dec_word(2) [of "si_rport s"] by (simp add: LINEBUF_def)
  have "stream_line s a b = Inr ?l" using l(1,3) len by (simp add: stream_line_def sprintf_def)
  moreover have "is_line ?l" by (rule is_lineI) (use l(2) len in simp_all)
  ultimately show ?thesis using that by blast
qed

lemma sort_name_ok: "plain (sort_name k)" "length (sort_name k) \<le> 3"
  by (cases k; simp add: sort_name_def SORT_NAMES_def)+

subsection \<open>A period\<close>

text \<open>The three buffers hold texts, and what they hold follows what has been seen.\<close>

definition ex_text :: "export_state \<Rightarrow> string \<Rightarrow> string \<Rightarrow> string \<Rightarrow> bool" where
  "ex_text ex ta ts tt \<longleftrightarrow> ex_heap ex \<and>
     (\<exists>ba bs bt. sbuf_addrs ex = Some ba \<and> report_text ba ta \<and> sbuf_streams ex = Some bs \<and> report_text bs ts \<and>
        sbuf_stats ex = Some bt \<and> report_text bt tt)"

lemma append_ok:
  assumes "ex_text ex ta ts tt" "is_line l"
  shows "length ta < 2 ^ 29 \<Longrightarrow> \<exists>b. append_addrs l ex = Inr (ex\<lparr>sbuf_addrs := b\<rparr>) \<and> ex_text (ex\<lparr>sbuf_addrs := b\<rparr>) (ta @ l) ts tt"
    "length ts < 2 ^ 29 \<Longrightarrow> \<exists>b. append_streams l ex = Inr (ex\<lparr>sbuf_streams := b\<rparr>) \<and> ex_text (ex\<lparr>sbuf_streams := b\<rparr>) ta (ts @ l) tt"
    "length tt < 2 ^ 29 \<Longrightarrow> \<exists>b. append_stats l ex = Inr (ex\<lparr>sbuf_stats := b\<rparr>) \<and> ex_text (ex\<lparr>sbuf_stats := b\<rparr>) ta ts (tt @ l)"
proof -
  from assms(1) obtain ba bs bt where b: "ex_heap ex" "sbuf_addrs ex = Some ba" "report_text ba ta" "sbuf_streams ex = Some bs"
    "report_text bs ts" "sbuf_stats ex = Some bt" "report_text bt tt" by (auto simp: ex_text_def)
  have l: "NUL \<notin> set l" "length l < LINEBUF" using assms(2) by (simp_all add: is_line_def)
  show "\<exists>b. append_addrs l ex = Inr (ex\<lparr>sbuf_addrs := b\<rparr>) \<and> ex_text (ex\<lparr>sbuf_addrs := b\<rparr>) (ta @ l) ts tt" if "length ta < 2 ^ 29"
    using sb_put_text [OF b(3) that l] b by (auto simp: append_addrs_def ex_text_def)
  show "\<exists>b. append_streams l ex = Inr (ex\<lparr>sbuf_streams := b\<rparr>) \<and> ex_text (ex\<lparr>sbuf_streams := b\<rparr>) ta (ts @ l) tt" if "length ts < 2 ^ 29"
    using sb_put_text [OF b(5) that l] b by (auto simp: append_streams_def ex_text_def)
  show "\<exists>b. append_stats l ex = Inr (ex\<lparr>sbuf_stats := b\<rparr>) \<and> ex_text (ex\<lparr>sbuf_stats := b\<rparr>) ta ts (tt @ l)" if "length tt < 2 ^ 29"
    using sb_put_text [OF b(7) that l] b by (auto simp: append_stats_def ex_text_def)
qed

text \<open>
  The state after \<open>a\<close> addresses, \<open>s\<close> streams and \<open>t\<close> lines of statistics at most; the flags tell whether there
  has been a stream and an address.
\<close>

definition period :: "nat \<Rightarrow> nat \<Rightarrow> nat \<Rightarrow> export_state \<Rightarrow> bool" where
  "period a s t ex \<longleftrightarrow> length (ex_addrs ex) \<le> a \<and> length (ex_streams ex) \<le> s \<and>
     (\<exists>ta ts tt. ex_text ex ta ts tt \<and> length ta \<le> LINEBUF * a \<and> length ts \<le> LINEBUF * s \<and> length tt \<le> LINEBUF * t \<and>
        (ex_addrs ex = [] \<longleftrightarrow> ta = []) \<and> (ex_streams ex = [] \<longleftrightarrow> ts = []) \<and> (tt = [] \<longleftrightarrow> t = 0))"

lemma periodI:
  assumes "ex_text ex ta ts tt" "length (ex_addrs ex) \<le> a" "length (ex_streams ex) \<le> s"
    "length ta \<le> LINEBUF * a" "length ts \<le> LINEBUF * s" "length tt \<le> LINEBUF * t"
    "ex_addrs ex = [] \<longleftrightarrow> ta = []" "ex_streams ex = [] \<longleftrightarrow> ts = []" "tt = [] \<longleftrightarrow> t = 0"
  shows "period a s t ex"
  using assms unfolding period_def by blast

lemma periodE:
  assumes "period a s t ex"
  obtains ta ts tt where "ex_text ex ta ts tt" "length (ex_addrs ex) \<le> a" "length (ex_streams ex) \<le> s"
    "length ta \<le> LINEBUF * a" "length ts \<le> LINEBUF * s" "length tt \<le> LINEBUF * t"
    "ex_addrs ex = [] \<longleftrightarrow> ta = []" "ex_streams ex = [] \<longleftrightarrow> ts = []" "tt = [] \<longleftrightarrow> t = 0"
  using assms unfolding period_def by blast

lemma note_addr_ok:
  assumes "period a s t ex" "a < 1024"
  shows "\<exists>ex'. note_addr seg i ex = Inr ex' \<and> period (Suc a) s t ex' \<and> ex_streams ex' = ex_streams ex \<and>
    ex_addrs ex' \<noteq> [] \<and> ex_out ex' = ex_out ex"
proof -
  from assms(1) obtain ta ts tt where p: "ex_text ex ta ts tt" "length (ex_addrs ex) \<le> a" "length (ex_streams ex) \<le> s"
      "length ta \<le> LINEBUF * a" "length ts \<le> LINEBUF * s" "length tt \<le> LINEBUF * t"
      "ex_addrs ex = [] \<longleftrightarrow> ta = []" "ex_streams ex = [] \<longleftrightarrow> ts = []" "tt = [] \<longleftrightarrow> t = 0"
    by (rule periodE)
  show ?thesis
  proof (cases "list_ex (\<lambda>j. ai_iid (aget (shm_addrs seg) j) = ai_iid (aget (shm_addrs seg) i)) (ex_addrs ex)")
    case True
    then have "ex_addrs ex \<noteq> []" by auto
    moreover have "period (Suc a) s t ex" by (rule periodI [of _ ta ts tt]) (use p in simp_all)
    ultimately show ?thesis using True by (simp add: note_addr_def seen_addr_def)
  next
    case False
    obtain l where l: "addr_line (aget (shm_addrs seg) i) = Inr l" "is_line l" by (rule addr_line_ok)
    let ?ex = "ex\<lparr>ex_addrs := ex_addrs ex @ [i]\<rparr>"
    have "ex_text ?ex ta ts tt" using p(1) by (simp add: ex_text_def)
    moreover have "length ta < 2 ^ 29" using p(4) assms(2) by (simp add: LINEBUF_def)
    ultimately obtain b where b: "append_addrs l ?ex = Inr (?ex\<lparr>sbuf_addrs := b\<rparr>)" "ex_text (?ex\<lparr>sbuf_addrs := b\<rparr>) (ta @ l) ts tt"
      using append_ok(1) [OF _ l(2), of ?ex ta ts tt] by blast
    have "length (ta @ l) \<le> LINEBUF * Suc a" "l \<noteq> []" using p(4) l(2) by (simp_all add: is_line_def)
    then have "period (Suc a) s t (?ex\<lparr>sbuf_addrs := b\<rparr>)" by (intro periodI [OF b(2)]) (use p in simp_all)
    then show ?thesis using False p(2) assms(2) l(1) b(1) by (simp add: note_addr_def seen_addr_def on_new_addr_def)
  qed
qed

lemma stats_ok:
  assumes "period a s t ex" "t < 2000" "is_line l"
  shows "\<exists>ex'. append_stats l ex = Inr ex' \<and> period a s (Suc t) ex' \<and> ex_streams ex' = ex_streams ex \<and>
    ex_addrs ex' = ex_addrs ex \<and> ex_out ex' = ex_out ex"
proof -
  from assms(1) obtain ta ts tt where p: "ex_text ex ta ts tt" "length (ex_addrs ex) \<le> a" "length (ex_streams ex) \<le> s"
      "length ta \<le> LINEBUF * a" "length ts \<le> LINEBUF * s" "length tt \<le> LINEBUF * t"
      "ex_addrs ex = [] \<longleftrightarrow> ta = []" "ex_streams ex = [] \<longleftrightarrow> ts = []" "tt = [] \<longleftrightarrow> t = 0"
    by (rule periodE)
  have "length tt < 2 ^ 29" using p(6) assms(2) by (simp add: LINEBUF_def)
  from append_ok(3) [OF p(1) assms(3) this] obtain b where
    b: "append_stats l ex = Inr (ex\<lparr>sbuf_stats := b\<rparr>)" "ex_text (ex\<lparr>sbuf_stats := b\<rparr>) ta ts (tt @ l)" by blast
  have "length (tt @ l) \<le> LINEBUF * Suc t" "l \<noteq> []" using p(6) assms(3) by (simp_all add: is_line_def)
  then have "period a s (Suc t) (ex\<lparr>sbuf_stats := b\<rparr>)" by (intro periodI [OF b(2)]) (use p in simp_all)
  with b(1) show ?thesis by auto
qed

lemma append_frame: "append_addrs l ex = Inr ex' \<Longrightarrow> append_addrs l (ex\<lparr>ex_streams := z\<rparr>) = Inr (ex'\<lparr>ex_streams := z\<rparr>)"
  by (cases "sbuf_addrs ex") (auto simp: append_addrs_def bind_r_Inr_iff)

lemma note_addr_frame:
  assumes "note_addr seg i ex = Inr ex'"
  shows "note_addr seg i (ex\<lparr>ex_streams := z\<rparr>) = Inr (ex'\<lparr>ex_streams := z\<rparr>)"
proof (cases "list_ex (\<lambda>j. ai_iid (aget (shm_addrs seg) j) = ai_iid (aget (shm_addrs seg) i)) (ex_addrs ex)")
  case False
  obtain l where l: "addr_line (aget (shm_addrs seg) i) = Inr l" by (rule addr_line_ok)
  from assms False have len: "length (ex_addrs ex) < 1024"
    and app: "append_addrs l (ex\<lparr>ex_addrs := ex_addrs ex @ [i]\<rparr>) = Inr ex'"
    by (simp_all add: note_addr_def seen_addr_def on_new_addr_def l split: if_splits)
  have swap: "ex\<lparr>ex_streams := z, ex_addrs := ex_addrs ex @ [i]\<rparr> = ex\<lparr>ex_addrs := ex_addrs ex @ [i], ex_streams := z\<rparr>" by simp
  from append_frame [OF app, of z] False len show ?thesis
    by (simp add: note_addr_def seen_addr_def on_new_addr_def l swap)
qed (use assms in \<open>simp add: note_addr_def seen_addr_def\<close>)

lemma new_stream_ok:
  assumes "period a s t ex" "a < 1022" "s < 1024"
  shows "\<exists>ex'. note_stream seg i l r ex = Inr ex' \<and>
    period (a + 2) (Suc s) t ex' \<and> ex_streams ex' \<noteq> [] \<and> (ex_streams ex = [] \<or> ex_addrs ex \<noteq> [] \<longrightarrow> ex_addrs ex' \<noteq> []) \<and>
    ex_out ex' = ex_out ex"
proof (cases "list_ex (\<lambda>j. si_iid (aget (shm_streams seg) j) = si_iid (aget (shm_streams seg) i)) (ex_streams ex)")
  case True
  then have "ex_streams ex \<noteq> []" by auto
  moreover have "period (a + 2) (Suc s) t ex"
    using assms(1) by (rule periodE) (rule periodI, simp_all)
  ultimately show ?thesis using True by (simp add: note_stream_def seen_stream_def)
next
  case False
  let ?z = "ex_streams ex @ [i]"
  from note_addr_ok [OF assms(1), of seg l] assms(2) obtain ex1 where
    1: "note_addr seg l ex = Inr ex1" "period (Suc a) s t ex1" "ex_streams ex1 = ex_streams ex" "ex_out ex1 = ex_out ex" by auto
  from note_addr_ok [OF 1(2), of seg r] assms(2) obtain ex2 where
    2: "note_addr seg r ex1 = Inr ex2" "period (a + 2) s t ex2" "ex_streams ex2 = ex_streams ex" "ex_out ex2 = ex_out ex" "ex_addrs ex2 \<noteq> []"
    using 1 by auto
  from 2(2) obtain ta ts tt where p: "ex_text ex2 ta ts tt" "length (ex_addrs ex2) \<le> a + 2" "length (ex_streams ex2) \<le> s"
      "length ta \<le> LINEBUF * (a + 2)" "length ts \<le> LINEBUF * s" "length tt \<le> LINEBUF * t"
      "ex_addrs ex2 = [] \<longleftrightarrow> ta = []" "ex_streams ex2 = [] \<longleftrightarrow> ts = []" "tt = [] \<longleftrightarrow> t = 0"
    by (rule periodE)
  obtain ln where ln: "stream_line (aget (shm_streams seg) i) (aget (shm_addrs seg) l) (aget (shm_addrs seg) r) = Inr ln" "is_line ln"
    by (rule stream_line_ok)
  have "ex_text (ex2\<lparr>ex_streams := ?z\<rparr>) ta ts tt" using p(1) by (simp add: ex_text_def)
  moreover have "length ts < 2 ^ 29" using p(5) assms(3) by (simp add: LINEBUF_def)
  ultimately obtain b where b: "append_streams ln (ex2\<lparr>ex_streams := ?z\<rparr>) = Inr (ex2\<lparr>ex_streams := ?z, sbuf_streams := b\<rparr>)"
      "ex_text (ex2\<lparr>ex_streams := ?z, sbuf_streams := b\<rparr>) ta (ts @ ln) tt"
    using append_ok(2) [OF _ ln(2), of "ex2\<lparr>ex_streams := ?z\<rparr>" ta ts tt] by blast
  have "length (ts @ ln) \<le> LINEBUF * Suc s" "ln \<noteq> []" using p(5) ln(2) by (simp_all add: is_line_def)
  then have "period (a + 2) (Suc s) t (ex2\<lparr>ex_streams := ?z, sbuf_streams := b\<rparr>)"
    by (intro periodI [OF b(2)]) (use p 2(3) in simp_all)
  moreover have "length (ex_streams ex) < 1024" using p(3) 2(3) assms(3) by simp
  ultimately show ?thesis
    using False note_addr_frame [OF 1(1), of ?z] note_addr_frame [OF 2(1), of ?z] ln(1) b(1) 2(4,5)
    by (simp add: note_stream_def seen_stream_def on_new_stream_def)
qed

text \<open>The calls that a report is made of.\<close>

datatype report_call =
  TopStream SortBy u32 nat nat nat nat
| TopProtocol SortBy u32 nat u16 u8 proto_info_t
| TopAddress SortBy u32 nat nat

primrec report :: "sharedif_t \<Rightarrow> report_call \<Rightarrow> export_state \<Rightarrow> export_state c_result" where
  "report seg (TopStream sortby flags i stream aleft aright) ex = on_topn_stream seg sortby flags i stream aleft aright ex"
| "report seg (TopProtocol sortby flags i port proto p) ex = on_topn_protocol sortby flags i port proto p ex"
| "report seg (TopAddress sortby flags i addr) ex = on_topn_address seg sortby flags i addr ex"

primrec call_pos :: "report_call \<Rightarrow> nat" where
  "call_pos (TopStream sortby flags i stream aleft aright) = i"
| "call_pos (TopProtocol sortby flags i port proto p) = i"
| "call_pos (TopAddress sortby flags i addr) = i"

primrec is_stream :: "report_call \<Rightarrow> bool" where
  "is_stream (TopStream sortby flags i stream aleft aright) = True"
| "is_stream (TopProtocol sortby flags i port proto p) = False"
| "is_stream (TopAddress sortby flags i addr) = False"

lemma header_ok:
  assumes "period a s t ex" "t < 1999" "is_line l"
  shows "\<exists>ex' t'. (if (i :: nat) = 0 then append_stats l ex else Inr ex) = Inr ex' \<and> period a s t' ex' \<and> t' \<le> Suc t \<and>
    ex_streams ex' = ex_streams ex \<and> ex_addrs ex' = ex_addrs ex \<and> ex_out ex' = ex_out ex"
  using stats_ok [OF assms(1) _ assms(3)] assms(1,2) by (cases "i = 0") (auto intro: le_SucI)

lemma sprintf_line: "is_line l \<Longrightarrow> sprintf LINEBUF l = Inr l"
  by (simp add: sprintf_def is_line_def)

lemma length_pos: "i < 1000 \<Longrightarrow> length (dec i) \<le> 10"
  by (rule length_dec_le) simp_all

lemma topn_lines:
  assumes "i < 1000"
  shows "is_line (''TSTR,'' @ sort_name k @ '','' @ dec_int (sint (f :: u32)) @ '','' @ dec i @ '','' @ dec (unat (x1 :: u32)) @ '','' @
      dec (unat (x2 :: u32)) @ '','' @ dec (unat (x3 :: u32)) @ [LF])"
    "is_line (''PORT,'' @ sort_name k @ '','' @ dec_int (sint f) @ '','' @ dec i @ '','' @ dec (unat (y1 :: u16)) @ '','' @
      dec (unat (y2 :: u8)) @ '','' @ dec (unat x2) @ '','' @ dec (unat x3) @ [LF])"
    "is_line (''TADR,'' @ sort_name k @ '','' @ dec_int (sint f) @ '','' @ dec i @ '','' @ dec (unat x1) @ '','' @
      dec (unat x2) @ '','' @ dec (unat x3) @ '','' @ dec (unat (x4 :: u32)) @ '','' @ dec (unat (x5 :: u32)) @ [LF])"
  using sort_name_ok [of k] length_dec_sint [of f] length_pos [OF assms] length_dec_word(3) [of x1] length_dec_word(3) [of x2]
    length_dec_word(3) [of x3] length_dec_word(3) [of x4] length_dec_word(3) [of x5] length_dec_word(2) [of y1] length_dec_word(1) [of y2]
  by (intro is_lineI; simp add: LINEBUF_def)+

lemma header_lines:
  "is_line (''_TSTR_,_SortBy_,_FlowFlags_,_Idx_,_Packets_,_Bytes_,_Stream_,_____'' @ [LF])"
  "is_line (''_PORT_,_SortBy_,_FlowFlags_,_Idx_,_Port_,_IpProto_,_Packets_,_Bytes_,_____'' @ [LF])"
  "is_line (''_TADR_,_SortBy_,_FlowFlags_,_Idx_,_Address_,_TxPackets_,_TxBytes_,_RxPackets_,_RxBytes_,____'' @ [LF])"
  by (simp_all add: is_line_def LINEBUF_def)

lemma period_weaken:
  assumes "period a s t ex" "a \<le> a'" "s \<le> s'" "t \<le> t'" "0 < t"
  shows "period a' s' t' ex"
  using assms(1)
proof (rule periodE)
  fix ta ts tt assume p: "ex_text ex ta ts tt" "length (ex_addrs ex) \<le> a" "length (ex_streams ex) \<le> s"
      "length ta \<le> LINEBUF * a" "length ts \<le> LINEBUF * s" "length tt \<le> LINEBUF * t"
      "ex_addrs ex = [] \<longleftrightarrow> ta = []" "ex_streams ex = [] \<longleftrightarrow> ts = []" "tt = [] \<longleftrightarrow> t = 0"
  have "length ta \<le> LINEBUF * a'" "length ts \<le> LINEBUF * s'" "length tt \<le> LINEBUF * t'"
    using p(4-6) mult_le_mono2 [OF assms(2), of LINEBUF] mult_le_mono2 [OF assms(3), of LINEBUF]
      mult_le_mono2 [OF assms(4), of LINEBUF] by linarith+
  then show ?thesis using assms(2-5) p(2,3,7-9) by (intro periodI [OF p(1)]) simp_all
qed

text \<open>After \<open>n\<close> calls. A stream is reported after its addresses.\<close>

definition reported :: "nat \<Rightarrow> export_state \<Rightarrow> bool" where
  "reported n ex \<longleftrightarrow> period (2 * n) n (2 * n) ex \<and> (ex_streams ex \<noteq> [] \<longrightarrow> ex_addrs ex \<noteq> [])"

lemma topn_stream_ok:
  assumes r: "reported n ex" and n: "n < 500" "i < 1000"
  shows "\<exists>ex'. on_topn_stream seg k f i st l rr ex = Inr ex' \<and> reported (Suc n) ex' \<and> ex_out ex' = ex_out ex \<and> ex_streams ex' \<noteq> []"
proof -
  let ?s = "aget (shm_streams seg) st"
  from r have p: "period (2 * n) n (2 * n) ex" by (simp add: reported_def)
  have t: "2 * n < 1999" using n by simp
  from header_ok [OF p t header_lines(1), of i] obtain ex1 t1 where
    1: "(if i = 0 then append_stats (''_TSTR_,_SortBy_,_FlowFlags_,_Idx_,_Packets_,_Bytes_,_Stream_,_____'' @ [LF]) ex else Inr ex) = Inr ex1"
      "period (2 * n) n t1 ex1" "t1 \<le> Suc (2 * n)" "ex_streams ex1 = ex_streams ex" "ex_addrs ex1 = ex_addrs ex" "ex_out ex1 = ex_out ex"
    by blast
  have t1: "t1 < 2000" using 1(3) n by simp
  have "2 * n < 1022" "n < 1024" using n by simp_all
  from new_stream_ok [OF 1(2) this, of seg st l rr] obtain ex3 where
    3: "note_stream seg st l rr ex1 = Inr ex3"
      "period (2 * n + 2) (Suc n) t1 ex3" "ex_streams ex3 \<noteq> []" "ex_streams ex1 = [] \<or> ex_addrs ex1 \<noteq> [] \<longrightarrow> ex_addrs ex3 \<noteq> []"
      "ex_out ex3 = ex_out ex1" by blast
  note line = topn_lines(1) [OF n(2), of k f "packets ?s" "bytes ?s" "si_iid ?s"]
  from stats_ok [OF 3(2) t1 line] obtain ex4 where
    4: "append_stats (''TSTR,'' @ sort_name k @ '','' @ dec_int (sint f) @ '','' @ dec i @ '','' @ dec (unat (packets ?s)) @ '','' @
        dec (unat (bytes ?s)) @ '','' @ dec (unat (si_iid ?s)) @ [LF]) ex3 = Inr ex4"
      "period (2 * n + 2) (Suc n) (Suc t1) ex4" "ex_streams ex4 = ex_streams ex3" "ex_addrs ex4 = ex_addrs ex3" "ex_out ex4 = ex_out ex3" by blast
  have "on_topn_stream seg k f i st l rr ex = Inr ex4"
    unfolding on_topn_stream_def Let_def 1(1) bind_r_simps 3(1) sprintf_line [OF line] by (rule 4(1))
  moreover have "period (2 * Suc n) (Suc n) (2 * Suc n) ex4" using period_weaken [OF 4(2)] 1(3) by simp
  moreover have "ex_addrs ex4 \<noteq> []" using r 3(4) 4(4) 1(4,5) by (auto simp: reported_def)
  ultimately show ?thesis using 4 3 1 by (auto simp: reported_def)
qed

lemma topn_protocol_ok:
  assumes r: "reported n ex" and n: "n < 500" "i < 1000"
  shows "\<exists>ex'. on_topn_protocol k f i port proto pr ex = Inr ex' \<and> reported (Suc n) ex' \<and> ex_out ex' = ex_out ex \<and> ex_streams ex' = ex_streams ex"
proof -
  from r have p: "period (2 * n) n (2 * n) ex" by (simp add: reported_def)
  have t: "2 * n < 1999" using n by simp
  from header_ok [OF p t header_lines(2), of i] obtain ex1 t1 where
    1: "(if i = 0 then append_stats (''_PORT_,_SortBy_,_FlowFlags_,_Idx_,_Port_,_IpProto_,_Packets_,_Bytes_,_____'' @ [LF]) ex else Inr ex) = Inr ex1"
      "period (2 * n) n t1 ex1" "t1 \<le> Suc (2 * n)" "ex_streams ex1 = ex_streams ex" "ex_addrs ex1 = ex_addrs ex" "ex_out ex1 = ex_out ex"
    by blast
  have t1: "t1 < 2000" using 1(3) n by simp
  note line = topn_lines(2) [OF n(2), of k f port proto "pi_packets pr" "pi_bytes pr"]
  from stats_ok [OF 1(2) t1 line] obtain ex4 where
    4: "append_stats (''PORT,'' @ sort_name k @ '','' @ dec_int (sint f) @ '','' @ dec i @ '','' @ dec (unat port) @ '','' @
        dec (unat proto) @ '','' @ dec (unat (pi_packets pr)) @ '','' @ dec (unat (pi_bytes pr)) @ [LF]) ex1 = Inr ex4"
      "period (2 * n) n (Suc t1) ex4" "ex_streams ex4 = ex_streams ex1" "ex_addrs ex4 = ex_addrs ex1" "ex_out ex4 = ex_out ex1" by blast
  have "on_topn_protocol k f i port proto pr ex = Inr ex4"
    unfolding on_topn_protocol_def 1(1) bind_r_simps sprintf_line [OF line] by (rule 4(1))
  moreover have "period (2 * Suc n) (Suc n) (2 * Suc n) ex4" using period_weaken [OF 4(2)] 1(3) by simp
  ultimately show ?thesis using r 4 1 by (auto simp: reported_def)
qed

lemma topn_address_ok:
  assumes r: "reported n ex" and n: "n < 500" "i < 1000"
  shows "\<exists>ex'. on_topn_address seg k f i j ex = Inr ex' \<and> reported (Suc n) ex' \<and> ex_out ex' = ex_out ex \<and> ex_streams ex' = ex_streams ex"
proof -
  let ?a = "aget (shm_addrs seg) j"
  from r have p: "period (2 * n) n (2 * n) ex" by (simp add: reported_def)
  have t: "2 * n < 1999" using n by simp
  from header_ok [OF p t header_lines(3), of i] obtain ex1 t1 where
    1: "(if i = 0 then append_stats (''_TADR_,_SortBy_,_FlowFlags_,_Idx_,_Address_,_TxPackets_,_TxBytes_,_RxPackets_,_RxBytes_,____'' @ [LF]) ex
         else Inr ex) = Inr ex1"
      "period (2 * n) n t1 ex1" "t1 \<le> Suc (2 * n)" "ex_streams ex1 = ex_streams ex" "ex_addrs ex1 = ex_addrs ex" "ex_out ex1 = ex_out ex"
    by blast
  have t1: "t1 < 2000" using 1(3) n by simp
  have "2 * n < 1024" using n by simp
  from note_addr_ok [OF 1(2) this, of seg j] obtain ex2 where
    2: "note_addr seg j ex1 = Inr ex2" "period (Suc (2 * n)) n t1 ex2" "ex_streams ex2 = ex_streams ex1" "ex_addrs ex2 \<noteq> []"
      "ex_out ex2 = ex_out ex1" by blast
  note line = topn_lines(3) [OF n(2), of k f "ai_iid ?a" "txpackets ?a" "txbytes ?a" "rxpackets ?a" "rxbytes ?a"]
  from stats_ok [OF 2(2) t1 line] obtain ex4 where
    4: "append_stats (''TADR,'' @ sort_name k @ '','' @ dec_int (sint f) @ '','' @ dec i @ '','' @ dec (unat (ai_iid ?a)) @ '','' @
        dec (unat (txpackets ?a)) @ '','' @ dec (unat (txbytes ?a)) @ '','' @ dec (unat (rxpackets ?a)) @ '','' @ dec (unat (rxbytes ?a)) @ [LF]) ex2 = Inr ex4"
      "period (Suc (2 * n)) n (Suc t1) ex4" "ex_streams ex4 = ex_streams ex2" "ex_addrs ex4 = ex_addrs ex2" "ex_out ex4 = ex_out ex2" by blast
  have "on_topn_address seg k f i j ex = Inr ex4"
    unfolding on_topn_address_def Let_def 1(1) bind_r_simps 2(1) sprintf_line [OF line] by (rule 4(1))
  moreover have "period (2 * Suc n) (Suc n) (2 * Suc n) ex4" using period_weaken [OF 4(2)] 1(3) by simp
  ultimately show ?thesis using r 4 2 1 by (auto simp: reported_def)
qed

lemma report_ok:
  assumes "reported n ex" "n < 500" "call_pos c < 1000"
  shows "\<exists>ex'. report seg c ex = Inr ex' \<and> reported (Suc n) ex' \<and> ex_out ex' = ex_out ex \<and>
    (ex_streams ex \<noteq> [] \<or> is_stream c \<longrightarrow> ex_streams ex' \<noteq> [])"
proof (cases c)
  case (TopStream k f i st l r)
  then show ?thesis using topn_stream_ok [OF assms(1,2), of i seg k f st l r] assms(3) by auto
next
  case (TopProtocol k f i port proto pr)
  then show ?thesis using topn_protocol_ok [OF assms(1,2), of i k f port proto pr] assms(3) by auto
next
  case (TopAddress k f i j)
  then show ?thesis using topn_address_ok [OF assms(1,2), of i seg k f j] assms(3) by auto
qed

lemma reports_ok:
  assumes "reported n ex" "n + length cs \<le> 500" "\<forall>c \<in> set cs. call_pos c < 1000"
  shows "\<exists>ex'. fold_r (report seg) cs ex = Inr ex' \<and> reported (n + length cs) ex' \<and> ex_out ex' = ex_out ex \<and>
    (ex_streams ex \<noteq> [] \<or> (\<exists>c \<in> set cs. is_stream c) \<longrightarrow> ex_streams ex' \<noteq> [])"
  using assms
proof (induction cs arbitrary: n ex)
  case (Cons c cs)
  then have "n < 500" "call_pos c < 1000" by simp_all
  from report_ok [OF Cons.prems(1) this, of seg] obtain ex1 where
    1: "report seg c ex = Inr ex1" "reported (Suc n) ex1" "ex_out ex1 = ex_out ex" "ex_streams ex \<noteq> [] \<or> is_stream c \<longrightarrow> ex_streams ex1 \<noteq> []"
    by blast
  have "Suc n + length cs \<le> 500" "\<forall>c \<in> set cs. call_pos c < 1000" using Cons.prems by simp_all
  from Cons.IH [OF 1(2) this] 1 show ?case by auto
qed simp

lemma open_reported:
  assumes "ex_heap ex" "\<not> ex_initialized ex"
  shows "reported 0 (on_stat_period_open ts secs ex)"
    "ex_out (on_stat_period_open ts secs ex) = ex_out ex @ ''===,START,'' @ dec (unat ts) @ '','' @ dec_int secs @ [LF]"
proof -
  obtain b where b: "sbuf_new True 8192 = Some b" "report_text b []" using new_report by blast
  have "ex_text (on_stat_period_open ts secs ex) [] [] []" "ex_addrs (on_stat_period_open ts secs ex) = []"
    "ex_streams (on_stat_period_open ts secs ex) = []"
    using assms b by (simp_all add: on_stat_period_open_def print_def ex_text_def Let_def)
  then show "reported 0 (on_stat_period_open ts secs ex)"
    using periodI [of "on_stat_period_open ts secs ex" "[]" "[]" "[]" 0 0 0] by (simp add: reported_def)
  show "ex_out (on_stat_period_open ts secs ex) = ex_out ex @ ''===,START,'' @ dec (unat ts) @ '','' @ dec_int secs @ [LF]"
    using assms by (simp add: on_stat_period_open_def print_def Let_def)
qed

lemma puts_text:
  assumes "report_text b t" "t \<noteq> []"
  shows "puts_sbuf (Some b) ex = Inr (print (t @ [LF]) ex)"
proof -
  have "c_string (sb_ptr b) = Inr t"
    using assms by (intro c_string_text) (auto simp: report_text_def sb_text_def)
  then show ?thesis by (simp add: puts_sbuf_def sbuf_to_s_def)
qed

lemma close_ok:
  assumes "ex_text ex ta ts tt" "ta \<noteq> []" "ts \<noteq> []" "tt \<noteq> []"
  shows "\<exists>ex'. on_stat_period_close secs ex = Inr ex' \<and> ex_out ex' = ex_out ex @
    ''_ADDR_,_IID_,_Internal_,_Label_,_MAC_,_____'' @ [LF] @ ta @ [LF] @
    ''_STRM_,_IID_,_FlowFlags_,_IpProto_,_LAddrIID_,_LPort_,_RAddrIID_,_RPort_,_Label_,_____'' @ [LF] @ ts @ [LF] @ tt @ [LF] @
    ''===,END,'' @ dec_int secs @ [LF]"
proof -
  from assms(1) obtain ba bs bt where b: "sbuf_addrs ex = Some ba" "report_text ba ta" "sbuf_streams ex = Some bs"
    "report_text bs ts" "sbuf_stats ex = Some bt" "report_text bt tt" by (auto simp: ex_text_def)
  show ?thesis
    using puts_text [OF b(2) assms(2)] puts_text [OF b(4) assms(3)] puts_text [OF b(6) assms(4)] b
    by (simp add: on_stat_period_close_def print_def Let_def)
qed

subsection \<open>Properties of the report\<close>

text \<open>
  C24: A report of up to 500 calls, at least one of them for a stream, never leaves a buffer or a list and
  ends: between the header and the trailer it prints the table of addresses, the table of streams and
  the statistics.
\<close>

theorem report_period_total:
  assumes "ex_heap ex" "\<not> ex_initialized ex" "length calls \<le> 500" "\<forall>c \<in> set calls. call_pos c < 1000" "\<exists>c \<in> set calls. is_stream c"
  shows "\<exists>ex1 ex2 ta ts tt. fold_r (report seg) calls (on_stat_period_open t secs ex) = Inr ex1 \<and>
    on_stat_period_close secs' ex1 = Inr ex2 \<and> ta \<noteq> [] \<and> ts \<noteq> [] \<and> tt \<noteq> [] \<and>
    ex_out ex2 = ex_out ex @ ''===,START,'' @ dec (unat t) @ '','' @ dec_int secs @ [LF] @
      ''_ADDR_,_IID_,_Internal_,_Label_,_MAC_,_____'' @ [LF] @ ta @ [LF] @
      ''_STRM_,_IID_,_FlowFlags_,_IpProto_,_LAddrIID_,_LPort_,_RAddrIID_,_RPort_,_Label_,_____'' @ [LF] @ ts @ [LF] @ tt @ [LF] @
      ''===,END,'' @ dec_int secs' @ [LF]"
proof -
  note o = open_reported [OF assms(1,2), of t secs]
  from reports_ok [OF o(1) _ assms(4), of seg] assms(3,5) obtain ex1 where
    1: "fold_r (report seg) calls (on_stat_period_open t secs ex) = Inr ex1" "reported (length calls) ex1"
      "ex_out ex1 = ex_out (on_stat_period_open t secs ex)" "ex_streams ex1 \<noteq> []" by auto
  have ne: "length calls \<noteq> 0" using assms(5) by auto
  from 1(2) have "period (2 * length calls) (length calls) (2 * length calls) ex1" "ex_addrs ex1 \<noteq> []"
    using 1(4) by (simp_all add: reported_def)
  then obtain ta ts tt where p: "ex_text ex1 ta ts tt" "ta \<noteq> []" "ts \<noteq> []" "tt \<noteq> []"
    using 1(4) ne by (auto elim!: periodE)
  from close_ok [OF this, of secs'] obtain ex2 where
    2: "on_stat_period_close secs' ex1 = Inr ex2" "ex_out ex2 = ex_out ex1 @
      ''_ADDR_,_IID_,_Internal_,_Label_,_MAC_,_____'' @ [LF] @ ta @ [LF] @
      ''_STRM_,_IID_,_FlowFlags_,_IpProto_,_LAddrIID_,_LPort_,_RAddrIID_,_RPort_,_Label_,_____'' @ [LF] @ ts @ [LF] @ tt @ [LF] @
      ''===,END,'' @ dec_int secs' @ [LF]" by blast
  show ?thesis
    by (intro exI conjI, rule 1(1), rule 2(1), rule p(2), rule p(3), rule p(4)) (simp only: 2(2) 1(3) o(2) append_assoc)
qed

text \<open>The state before the first report.\<close>

definition export_start :: export_state where
  "export_start = \<lparr>ex_streams = [], ex_addrs = [], sbuf_addrs = None, sbuf_streams = None, sbuf_stats = None,
     ex_initialized = False, ex_out = [], ex_heap = True\<rparr>"

theorem report_period_total_witness:
  "\<exists>ex1 ex2. fold_r (report zero_sharedif) [TopStream SortByPkt 0 0 16384 1 2, TopAddress SortByTxPkt 4 0 1]
     (on_stat_period_open 60 60 export_start) = Inr ex1 \<and> on_stat_period_close 60 ex1 = Inr ex2"
  using report_period_total [of export_start "[TopStream SortByPkt 0 0 16384 1 2, TopAddress SortByTxPkt 4 0 1]" zero_sharedif 60 60 60]
  by (auto simp: export_start_def simp del: fold_r.simps report.simps)

text \<open>
  A buffer that nothing was appended to is not a string: a period without any entry prints memory that
  was never written.
\<close>

theorem empty_period_prints_garbage:
  assumes "ex_heap ex" "\<not> ex_initialized ex"
  shows "on_stat_period_close secs' (on_stat_period_open t secs ex) = Inl Uninit"
  using assms
  by (simp add: on_stat_period_close_def on_stat_period_open_def print_def puts_sbuf_def sbuf_new_def sbuf_to_s_def c_string_fresh Let_def)

theorem empty_period_prints_garbage_witness:
  "on_stat_period_close 60 (on_stat_period_open 60 60 export_start) = Inl Uninit"
  by (rule empty_period_prints_garbage) (simp_all add: export_start_def)

end
