(* ===== verification/StatProc.thy ===== *)
theory StatProc
  imports Export Sort
begin

text \<open>
  The statistics (\<^verbatim>\<open>statproc/statproc_handlers.c\<close>, \<^verbatim>\<open>statproc/statproc_sim.c\<close> and \<^verbatim>\<open>statproc/main.c\<close>): every second the
  flow counters of the shared segment are compared with those of the second before, and every minute the
  streams, ports and addresses with the most traffic are reported.

  The segment is an argument: the statistics only read it. The working copies and the other static
  variables are the fields of a state. An array of pointers is the list of the indices it points to.
  \<^verbatim>\<open>gProfileSumSeconds\<close>, the sum of the wall-clock times of the reports, is left out.
\<close>

subsection \<open>Comparison functions\<close>

definition cmp_protos_pkt :: "proto_info_t \<Rightarrow> proto_info_t \<Rightarrow> int" where
  "cmp_protos_pkt a b = (if pi_packets a < pi_packets b then -1 else if pi_packets a > pi_packets b then 1 else 0)"

definition rcmp_protos_pkt :: "proto_info_t \<Rightarrow> proto_info_t \<Rightarrow> int" where
  "rcmp_protos_pkt a b = cmp_protos_pkt b a"

definition cmp_addr_txpkt :: "addr_info_t \<Rightarrow> addr_info_t \<Rightarrow> int" where
  "cmp_addr_txpkt a b = (if txpackets a < txpackets b then -1 else if txpackets a > txpackets b then 1 else 0)"

definition rcmp_addr_txpkt :: "addr_info_t \<Rightarrow> addr_info_t \<Rightarrow> int" where
  "rcmp_addr_txpkt a b = cmp_addr_txpkt b a"

definition cmp_addr_port_scan_src :: "addr_info_t \<Rightarrow> addr_info_t \<Rightarrow> int" where
  "cmp_addr_port_scan_src a b = (if resvd a < resvd b then -1 else if resvd a > resvd b then 1 else 0)"

definition rcmp_addr_scanned_ports :: "addr_info_t \<Rightarrow> addr_info_t \<Rightarrow> int" where
  "rcmp_addr_scanned_ports a b = cmp_addr_port_scan_src b a"

definition cmp_addr_port_scan_target :: "addr_info_t \<Rightarrow> addr_info_t \<Rightarrow> int" where
  "cmp_addr_port_scan_target a b = (if resvd2 a < resvd2 b then -1 else if resvd2 a > resvd2 b then 1 else 0)"

definition rcmp_addr_served_ports :: "addr_info_t \<Rightarrow> addr_info_t \<Rightarrow> int" where
  "rcmp_addr_served_ports a b = cmp_addr_port_scan_target b a"

definition cmp_stream_pkt :: "stream_info_t \<Rightarrow> stream_info_t \<Rightarrow> int" where
  "cmp_stream_pkt a b = (if packets a < packets b then -1 else if packets a > packets b then 1 else 0)"

definition rcmp_stream_pkt :: "stream_info_t \<Rightarrow> stream_info_t \<Rightarrow> int" where
  "rcmp_stream_pkt a b = cmp_stream_pkt b a"

definition cmp_stream_bytes :: "stream_info_t \<Rightarrow> stream_info_t \<Rightarrow> int" where
  "cmp_stream_bytes a b = (if bytes a < bytes b then -1 else if bytes a > bytes b then 1 else 0)"

definition rcmp_stream_bytes :: "stream_info_t \<Rightarrow> stream_info_t \<Rightarrow> int" where
  "rcmp_stream_bytes a b = cmp_stream_bytes b a"

text \<open>Sorting an array of pointers from its first to its last element.\<close>

definition sort_ptrs :: "('e \<Rightarrow> 'e \<Rightarrow> int) \<Rightarrow> 'e carray \<Rightarrow> nat list \<Rightarrow> nat list c_result" where
  "sort_ptrs cmp arr ptrs =
     (case quicksort (\<lambda>a b. cmp (aget arr a) (aget arr b)) ptrs 0 (int (length ptrs) - 1) of
        None \<Rightarrow> Inl NoReturn | Some r \<Rightarrow> r)"

subsection \<open>Ports\<close>

primrec count_bits_loop :: "nat \<Rightarrow> u16 \<Rightarrow> u16 \<Rightarrow> u16" where
  "count_bits_loop 0 val num = num"
| "count_bits_loop (Suc n) val num = count_bits_loop n (drop_bit 1 val) (num + (val AND 1))"

definition count_bits16 :: "u16 \<Rightarrow> u16" where
  "count_bits16 val = count_bits_loop 16 val 0"

text \<open>The bits of \<^verbatim>\<open>net/ports.h\<close>: the watched ports in the order of their bits.\<close>

definition BF_PORTS :: "u16 list" where
  "BF_PORTS = [21, 22, 23, 53, 80, 123, 135, 137, 138, 161, 162, 389, 443, 445, 37, 8080]"

definition set_port_bit :: "u16 \<Rightarrow> u16 \<Rightarrow> u16" where
  "set_port_bit bitmask port =
     (if port = 21 then bitmask OR 0x0001 else if port = 22 then bitmask OR 0x0002
      else if port = 23 then bitmask OR 0x0004 else if port = 53 then bitmask OR 0x0008
      else if port = 80 then bitmask OR 0x0010 else if port = 123 then bitmask OR 0x0020
      else if port = 135 then bitmask OR 0x0040 else if port = 137 then bitmask OR 0x0080
      else if port = 138 then bitmask OR 0x0100 else if port = 161 then bitmask OR 0x0200
      else if port = 162 then bitmask OR 0x0400 else if port = 389 then bitmask OR 0x0800
      else if port = 443 then bitmask OR 0x1000 else if port = 445 then bitmask OR 0x2000
      else if port = 37 then bitmask OR 0x4000 else if port = 8080 then bitmask OR 0x8000
      else bitmask)"

definition mark_dest_port :: "u16 \<Rightarrow> addr_info_t \<Rightarrow> addr_info_t" where
  "mark_dest_port port addr = addr\<lparr>resvd := set_port_bit (resvd addr) port\<rparr>"

definition mark_serve_port :: "u16 \<Rightarrow> addr_info_t \<Rightarrow> addr_info_t" where
  "mark_serve_port port addr = addr\<lparr>resvd2 := set_port_bit (resvd2 addr) port\<rparr>"

subsection \<open>State\<close>

record second_stats_t =
  sst_flow_stats :: "flow_stats_t list"
  sst_ifdrops :: u32
  sst_kdrops :: u32
  sst_addr_lan_indexes :: mga_info_t
  sst_addr_wan_indexes :: mga_info_t
  sst_stream_indexes :: mga_info_t

record stat_state =
  sec_flows :: "flow_stats_t list list"
  sec_i :: int
  stats_last_sec :: second_stats_t
  stats_cur_sec :: second_stats_t
  sp_initialized :: bool
  tlast_min :: u32
  last_min_packets :: u64
  last_min_bytes :: u64
  gProfileNumMins :: u32
  shm_copy :: "sharedif_t option"
  shm_last :: "sharedif_t option"
  sp_export :: export_state

definition snapshot :: "sharedif_t \<Rightarrow> second_stats_t" where
  "snapshot shm =
     \<lparr>sst_flow_stats = flow_stats shm, sst_ifdrops = ifdrops shm, sst_kdrops = kdrops shm,
      sst_addr_lan_indexes = addr_lan_indexes shm, sst_addr_wan_indexes = addr_wan_indexes shm,
      sst_stream_indexes = stream_indexes shm\<rparr>"

subsection \<open>Reports of a minute\<close>

definition push_ptr :: "nat \<Rightarrow> nat list \<Rightarrow> nat \<Rightarrow> nat list c_result" where
  "push_ptr cap ptrs i = (if length ptrs < cap then Inr (ptrs @ [i]) else Inl OutOfBounds)"

text \<open>The element of an array replaced by what a function makes of it.\<close>

definition arr_upd :: "'a carray \<Rightarrow> nat \<Rightarrow> ('a \<Rightarrow> 'a) \<Rightarrow> 'a carray c_result" where
  "arr_upd a i f = bind_r (arr_rd a i) (\<lambda>x. arr_wr a i (f x))"

text \<open>
  One stream of the window. The counters since the last report are left in the working copy \<open>cur\<close>, the
  absolute ones in \<open>last\<close>. A stream that \<open>last\<close> does not know is copied there and keeps its counters.
\<close>

definition diff_stream :: "nat \<Rightarrow> sharedif_t \<times> sharedif_t \<Rightarrow> (sharedif_t \<times> sharedif_t) c_result" where
  "diff_stream i = (\<lambda>(cur, last).
     bind_r (arr_rd (shm_streams cur) i) (\<lambda>stream.
     bind_r (arr_rd (shm_streams last) i) (\<lambda>old.
       if tval_cmp (si_tstart stream) (si_tstart old) = 0 then
         bind_r (arr_wr (shm_streams last) i (old\<lparr>packets := packets stream, bytes := bytes stream\<rparr>)) (\<lambda>ls.
         bind_r (arr_wr (shm_streams cur) i (stream\<lparr>packets := u32diff (packets old) (packets stream),
                                                    bytes := u32diff (bytes old) (bytes stream)\<rparr>)) (\<lambda>cs.
           Inr (cur\<lparr>shm_streams := cs\<rparr>, last\<lparr>shm_streams := ls\<rparr>)))
       else
         bind_r (arr_wr (shm_streams last) i stream) (\<lambda>ls. Inr (cur, last\<lparr>shm_streams := ls\<rparr>)))))"

definition mark_ports :: "stream_info_t \<Rightarrow> sharedif_t \<Rightarrow> sharedif_t c_result" where
  "mark_ports stream cur =
     bind_r (arr_upd (shm_addrs cur) (unat (idx_left stream))
               (\<lambda>a. if internal a \<noteq> 0 then mark_dest_port (si_rport stream) a else a)) (\<lambda>as1.
     bind_r (arr_upd as1 (unat (idx_right stream))
               (\<lambda>a. if internal a \<noteq> 0 then mark_serve_port (si_rport stream) a else a)) (\<lambda>as2.
       Inr (cur\<lparr>shm_addrs := as2\<rparr>)))"

definition IS_EMPTY_SLOT :: "tval_t \<Rightarrow> bool" where
  "IS_EMPTY_SLOT t \<longleftrightarrow> tv_sec t = 0"

definition stream_step ::
  "nat \<Rightarrow> (sharedif_t \<times> sharedif_t) \<times> nat list \<Rightarrow> ((sharedif_t \<times> sharedif_t) \<times> nat list) c_result"
where
  "stream_step i = (\<lambda>((cur, last), ptrs).
     bind_r (arr_rd (shm_streams cur) i) (\<lambda>stream.
       if IS_EMPTY_SLOT (si_tstart stream) then Inr ((cur, last), ptrs)
       else
         bind_r (diff_stream i (cur, last)) (\<lambda>(cur1, last1).
         bind_r (mark_ports stream cur1) (\<lambda>cur2.
         bind_r (push_ptr SI_NUM_STREAMS ptrs i) (\<lambda>ptrs1.
           Inr ((cur2, last1), ptrs1))))))"

definition NUM_TOPN_STREAMS :: nat where "NUM_TOPN_STREAMS = 20"
definition TOPN_PROTOS :: nat where "TOPN_PROTOS = 20"
definition SUSPICIOUS_PORTS_MIN :: u16 where "SUSPICIOUS_PORTS_MIN = 10"

text \<open>The first \<open>n\<close> pointers with their positions.\<close>

definition top_n :: "nat \<Rightarrow> nat list \<Rightarrow> (nat \<times> nat) list" where
  "top_n n ptrs = zip [0 ..< min n (length ptrs)] ptrs"

definition report_streams :: "SortBy \<Rightarrow> sharedif_t \<Rightarrow> nat list \<Rightarrow> export_state \<Rightarrow> export_state c_result" where
  "report_streams sortby cur ptrs =
     fold_r (\<lambda>(i, p) ex.
       let s = aget (shm_streams cur) p in
       on_topn_stream cur sortby 0 i p (unat (idx_left s)) (unat (idx_right s)) ex) (top_n NUM_TOPN_STREAMS ptrs)"

text \<open>The indices of a window, as a \<^verbatim>\<open>uint32_t\<close> loop variable runs over them.\<close>

definition window_of :: "mga_info_t \<Rightarrow> nat list" where
  "window_of p = [unat (idx_lo p + 1) ..< unat (idx_hi p)]"

definition process_streams ::
  "sharedif_t \<times> sharedif_t \<Rightarrow> export_state \<Rightarrow> ((sharedif_t \<times> sharedif_t) \<times> export_state) c_result"
where
  "process_streams = (\<lambda>(cur, last) ex.
     bind_r (fold_r stream_step (window_of (stream_indexes cur)) ((cur, last), [])) (\<lambda>((cur1, last1), ptrs).
     bind_r (sort_ptrs rcmp_stream_pkt (shm_streams cur1) ptrs) (\<lambda>ptrs1.
     bind_r (report_streams SortByPkt cur1 ptrs1 ex) (\<lambda>ex1.
     bind_r (sort_ptrs rcmp_stream_bytes (shm_streams cur1) ptrs1) (\<lambda>ptrs2.
     bind_r (report_streams SortByBytes cur1 ptrs2 ex1) (\<lambda>ex2.
       Inr ((cur1, last1), ex2)))))))"

text \<open>The port counters. The file has its own numbers of the protocols.\<close>

definition SP_IPPROTO_UDP :: u8 where "SP_IPPROTO_UDP = 6"
definition SP_IPPROTO_TCP :: u8 where "SP_IPPROTO_TCP = 17"

definition proto_step ::
  "nat \<Rightarrow> (sharedif_t \<times> sharedif_t) \<times> nat list \<Rightarrow> ((sharedif_t \<times> sharedif_t) \<times> nat list) c_result"
where
  "proto_step i = (\<lambda>((cur, last), ptrs).
     bind_r (arr_rd (shm_protos cur) i) (\<lambda>p.
     bind_r (arr_rd (shm_protos last) i) (\<lambda>old.
       if pi_packets p = 0 then Inr ((cur, last), ptrs)
       else if pi_packets p = pi_packets old then Inr ((cur, last), ptrs)
       else
         bind_r (arr_wr (shm_protos last) i (old\<lparr>pi_packets := pi_packets p, pi_bytes := pi_bytes p\<rparr>)) (\<lambda>ls.
         bind_r (arr_wr (shm_protos cur) i (p\<lparr>pi_packets := u32diff (pi_packets old) (pi_packets p),
                                              pi_bytes := u32diff (pi_bytes old) (pi_bytes p)\<rparr>)) (\<lambda>cs.
         bind_r (push_ptr SI_NUM_PROTOS ptrs i) (\<lambda>ptrs1.
           Inr ((cur\<lparr>shm_protos := cs\<rparr>, last\<lparr>shm_protos := ls\<rparr>), ptrs1)))))))"

definition proto_port :: "nat \<Rightarrow> u16 \<times> u8" where
  "proto_port index =
     (let port = of_nat index :: u16 in
      if unat port \<ge> SI_NUM_TCP_PROTOS then (port - of_nat SI_NUM_TCP_PROTOS, SP_IPPROTO_UDP) else (port, SP_IPPROTO_TCP))"

definition process_protocols ::
  "sharedif_t \<times> sharedif_t \<Rightarrow> export_state \<Rightarrow> ((sharedif_t \<times> sharedif_t) \<times> export_state) c_result"
where
  "process_protocols = (\<lambda>(cur, last) ex.
     bind_r (fold_r proto_step [0 ..< SI_NUM_PROTOS] ((cur, last), [])) (\<lambda>((cur1, last1), ptrs).
     bind_r (sort_ptrs rcmp_protos_pkt (shm_protos cur1) ptrs) (\<lambda>ptrs1.
     bind_r (fold_r (\<lambda>(i, p) ex. let (port, proto) = proto_port p in
               on_topn_protocol SortByPkt 0 i port proto (aget (shm_protos cur1) p) ex) (top_n TOPN_PROTOS ptrs1) ex) (\<lambda>ex1.
       Inr ((cur1, last1), ex1)))))"

definition diff_addr :: "nat \<Rightarrow> addr_info_t \<Rightarrow> sharedif_t \<times> sharedif_t \<Rightarrow> (sharedif_t \<times> sharedif_t) c_result" where
  "diff_addr i addr = (\<lambda>(cur, last).
     bind_r (arr_rd (shm_addrs last) i) (\<lambda>old.
       if tval_cmp (ai_tstart addr) (ai_tstart old) = 0 then
         bind_r (arr_wr (shm_addrs last) i (old\<lparr>txpackets := txpackets addr, txbytes := txbytes addr,
                                                rxpackets := rxpackets addr, rxbytes := rxbytes addr\<rparr>)) (\<lambda>ls.
         bind_r (arr_wr (shm_addrs cur) i
             (addr\<lparr>txpackets := u32diff (txpackets old) (txpackets addr), txbytes := u32diff (txbytes old) (txbytes addr),
                   rxpackets := u32diff (rxpackets old) (rxpackets addr), rxbytes := u32diff (rxbytes old) (rxbytes addr)\<rparr>)) (\<lambda>cs.
           Inr (cur\<lparr>shm_addrs := cs\<rparr>, last\<lparr>shm_addrs := ls\<rparr>)))
       else
         bind_r (arr_wr (shm_addrs cur) i addr) (\<lambda>cs.
         bind_r (arr_wr (shm_addrs last) i addr) (\<lambda>ls.
           Inr (cur\<lparr>shm_addrs := cs\<rparr>, last\<lparr>shm_addrs := ls\<rparr>)))))"

text \<open>
  One address. For the LAN the masks of ports are replaced by the numbers of ports, and addresses with many
  ports are collected. \<open>ptrs\<close> are all addresses, the scanners and the targets.
\<close>

definition addr_step ::
  "u32 \<Rightarrow> nat \<Rightarrow> (sharedif_t \<times> sharedif_t) \<times> nat list \<times> nat list \<times> nat list \<Rightarrow>
    ((sharedif_t \<times> sharedif_t) \<times> nat list \<times> nat list \<times> nat list) c_result"
where
  "addr_step flags i = (\<lambda>((cur, last), ptrs, scanners, targets).
     bind_r (arr_rd (shm_addrs cur) i) (\<lambda>addr.
       if IS_EMPTY_SLOT (ai_tstart addr) then Inr ((cur, last), ptrs, scanners, targets)
       else
         let addr1 = (if flags = ucast FLOW_TYPE_INTERNAL
               then addr\<lparr>resvd := count_bits16 (resvd addr), resvd2 := count_bits16 (resvd2 addr)\<rparr> else addr) in
         bind_r (if flags = ucast FLOW_TYPE_INTERNAL \<and> resvd addr1 > SUSPICIOUS_PORTS_MIN
                 then push_ptr (SI_NUM_ADDRS div 2) scanners i else Inr scanners) (\<lambda>scanners1.
         bind_r (if flags = ucast FLOW_TYPE_INTERNAL \<and> resvd2 addr1 > SUSPICIOUS_PORTS_MIN
                 then push_ptr (SI_NUM_ADDRS div 2) targets i else Inr targets) (\<lambda>targets1.
         bind_r (diff_addr i addr1 (cur, last)) (\<lambda>cl.
         bind_r (push_ptr SI_NUM_ADDRS ptrs i) (\<lambda>ptrs1.
           Inr (cl, ptrs1, scanners1, targets1)))))))"

definition report_addrs :: "(addr_info_t \<Rightarrow> addr_info_t \<Rightarrow> int) \<Rightarrow> SortBy \<Rightarrow> u32 \<Rightarrow> sharedif_t \<Rightarrow> nat list \<Rightarrow> export_state \<Rightarrow> export_state c_result" where
  "report_addrs cmp sortby flags cur ptrs ex =
     bind_r (sort_ptrs cmp (shm_addrs cur) ptrs) (\<lambda>ptrs1.
       fold_r (\<lambda>(i, p). on_topn_address cur sortby flags i p) (top_n 10 ptrs1) ex)"

definition process_addrs2 ::
  "u32 \<Rightarrow> mga_info_t \<Rightarrow> sharedif_t \<times> sharedif_t \<Rightarrow> export_state \<Rightarrow> ((sharedif_t \<times> sharedif_t) \<times> export_state) c_result"
where
  "process_addrs2 flags indexes cl ex =
     bind_r (fold_r (addr_step flags) (window_of indexes) (cl, [], [], [])) (\<lambda>((cur, last), ptrs, scanners, targets).
     bind_r (report_addrs rcmp_addr_txpkt SortByTxPkt flags cur ptrs ex) (\<lambda>ex1.
     bind_r (if scanners = [] then Inr ex1 else report_addrs rcmp_addr_scanned_ports SortByScannedPorts flags cur scanners ex1) (\<lambda>ex2.
     bind_r (if targets = [] then Inr ex2 else report_addrs rcmp_addr_served_ports SortByServedPorts flags cur targets ex2) (\<lambda>ex3.
       Inr ((cur, last), ex3)))))"

definition process_addrs ::
  "sharedif_t \<times> sharedif_t \<Rightarrow> export_state \<Rightarrow> ((sharedif_t \<times> sharedif_t) \<times> export_state) c_result"
where
  "process_addrs cl ex =
     bind_r (process_addrs2 (ucast FLOW_TYPE_INTERNAL) (addr_lan_indexes (fst cl)) cl ex) (\<lambda>(cl1, ex1).
       process_addrs2 0 (addr_wan_indexes (fst cl1)) cl1 ex1)"

subsection \<open>Minutes and seconds\<close>

definition PRINT_SEC :: "nat \<Rightarrow> flow_stats_t list list \<Rightarrow> string" where
  "PRINT_SEC t flows =
     ''STAT,S'' @ dec t @ '','' @
     concat (map (\<lambda>i. dec (unat (fs_packets (flows ! t ! i))) @ '','' @ dec (unat (fs_bytes (flows ! t ! i))) @ '','') [0 ..< 60]) @ [LF]"

text \<open>Copying the window of an array, from \<^verbatim>\<open>idx_lo\<close> up to \<^verbatim>\<open>idx_hi\<close>.\<close>

definition copy_window :: "mga_info_t \<Rightarrow> 'a carray \<Rightarrow> 'a carray \<Rightarrow> 'a carray c_result" where
  "copy_window p src dst =
     (let lo = unat (idx_lo p); hi = unat (idx_hi p) in
      if lo \<le> hi \<and> hi \<le> alen src \<and> hi \<le> alen dst
      then Inr (dst\<lparr>aget := (\<lambda>i. if lo \<le> i \<and> i < hi then aget src i else aget dst i)\<rparr>) else Inl OutOfBounds)"

definition copy_segment :: "sharedif_t \<Rightarrow> sharedif_t \<Rightarrow> sharedif_t c_result" where
  "copy_segment shm copy =
     (let c1 = copy\<lparr>addr_lan_indexes := addr_lan_indexes shm, addr_wan_indexes := addr_wan_indexes shm,
                    stream_indexes := stream_indexes shm\<rparr> in
      bind_r (copy_window (stream_indexes c1) (shm_streams shm) (shm_streams c1)) (\<lambda>ss.
      bind_r (copy_window (addr_lan_indexes c1) (shm_addrs shm) (shm_addrs c1)) (\<lambda>as1.
      bind_r (copy_window (addr_wan_indexes c1) (shm_addrs shm) as1) (\<lambda>as2.
        Inr (c1\<lparr>shm_streams := ss, shm_addrs := as2, shm_protos := shm_protos shm\<rparr>)))))"

definition deref_seg :: "sharedif_t option \<Rightarrow> sharedif_t c_result" where
  "deref_seg p = (case p of None \<Rightarrow> Inl NullDeref | Some s \<Rightarrow> Inr s)"

definition check_minute :: "u32 \<Rightarrow> sharedif_t \<Rightarrow> stat_state \<Rightarrow> stat_state c_result" where
  "check_minute ts0 shm sp =
     (let ts = (if ts0 = 0 then tlast_min sp + 60 else ts0);
          ex1 = on_stat_period_open ts (sec_i sp) (sp_export sp);
          ex2 = print (''STAT,T,'' @ dec (unat (last_min_packets sp)) @ '','' @ dec (unat (last_min_bytes sp)) @ [LF]) ex1;
          ex3 = print (PRINT_SEC 3 (sec_flows sp) @ PRINT_SEC 1 (sec_flows sp) @ PRINT_SEC 2 (sec_flows sp) @
                       PRINT_SEC 0 (sec_flows sp) @ PRINT_SEC 4 (sec_flows sp)) ex2 in
      bind_r (deref_seg (shm_copy sp)) (\<lambda>copy.
      bind_r (copy_segment shm copy) (\<lambda>cur.
      let ex4 = print (''STAT,I,streams:'' @ dec_int (sint (num_entries (stream_indexes cur))) @ '',lanaddrs:'' @
                  dec_int (sint (num_entries (addr_lan_indexes cur))) @ '',wanaddrs:'' @
                  dec_int (sint (num_entries (addr_wan_indexes cur))) @ [LF]) ex3 in
      bind_r (deref_seg (shm_last sp)) (\<lambda>last.
      bind_r (process_streams (cur, last) ex4) (\<lambda>(cl1, ex5).
      bind_r (process_protocols cl1 ex5) (\<lambda>(cl2, ex6).
      bind_r (process_addrs cl2 ex6) (\<lambda>(cl3, ex7).
      bind_r (on_stat_period_close 60 ex7) (\<lambda>ex8.
        Inr (sp\<lparr>gProfileNumMins := gProfileNumMins sp + 1, shm_copy := Some (fst cl3), shm_last := Some (snd cl3),
                last_min_packets := 0, last_min_bytes := 0, tlast_min := ts div 60 * 60, sec_i := int (unat (ts mod 60)),
                sp_export := ex8\<rparr>)))))))))"

definition init_state :: "tval_t \<Rightarrow> sharedif_t \<Rightarrow> stat_state \<Rightarrow> stat_state" where
  "init_state ts shm sp =
     (let mem = (if ex_heap (sp_export sp) then Some zero_sharedif else None) in
      sp\<lparr>sp_initialized := True, tlast_min := tv_sec ts div 60 * 60, sec_i := int (unat (tv_sec ts mod 60)),
         stats_last_sec := snapshot shm, shm_copy := mem, shm_last := mem\<rparr>)"

text \<open>The differences of one second are stored in column \<^verbatim>\<open>sec_i\<close> of a table of 68 columns.\<close>

definition flow_diff :: "flow_stats_t \<Rightarrow> flow_stats_t \<Rightarrow> flow_stats_t" where
  "flow_diff prev cur =
     \<lparr>fs_packets = u32diff (fs_packets prev) (fs_packets cur), fs_bytes = u32diff (fs_bytes prev) (fs_bytes cur)\<rparr>"

definition store_second :: "second_stats_t \<Rightarrow> stat_state \<Rightarrow> stat_state c_result" where
  "store_second cur sp =
     (let d = map2 flow_diff (sst_flow_stats (stats_last_sec sp)) (sst_flow_stats cur) in
      if sec_i sp < 0 \<or> sec_i sp \<ge> 68 then Inl OutOfBounds
      else Inr (sp\<lparr>stats_cur_sec := cur,
                   sec_flows := map2 (\<lambda>row x. row[nat (sec_i sp) := x]) (sec_flows sp) d,
                   last_min_packets := last_min_packets sp + ucast (fs_packets (d ! FLOW_TYPE_TOTAL)),
                   last_min_bytes := last_min_bytes sp + ucast (fs_bytes (d ! FLOW_TYPE_TOTAL))\<rparr>))"

definition every_second :: "tval_t \<Rightarrow> sharedif_t \<Rightarrow> stat_state \<Rightarrow> stat_state c_result" where
  "every_second ts shm sp =
     (if \<not> sp_initialized sp then Inr (init_state ts shm sp)
      else
        bind_r (store_second (snapshot shm) sp) (\<lambda>sp1.
        let sp2 = sp1\<lparr>sec_i := sec_i sp1 + 1\<rparr> in
        bind_r (c_assert (sec_i sp2 \<le> 60)) (\<lambda>_.
        let sp3 = sp2\<lparr>stats_last_sec := stats_cur_sec sp2\<rparr> in
        if tv_sec ts - tlast_min sp3 \<ge> 60 then check_minute (tv_sec ts) shm sp3 else Inr sp3)))"

definition sim_finish :: "u32 \<Rightarrow> sharedif_t \<Rightarrow> stat_state \<Rightarrow> stat_state c_result" where
  "sim_finish sec shm sp = check_minute sec shm sp"

subsection \<open>Statistics of a capture file\<close>

record sim_state =
  sim_last_sec :: tval_t
  sim_stat :: stat_state

definition sim_before_packet :: "tval_t \<Rightarrow> sharedif_t \<Rightarrow> sim_state \<Rightarrow> sim_state c_result" where
  "sim_before_packet ts shm sim =
     (if tv_sec (sim_last_sec sim) = 0 then Inr (sim\<lparr>sim_last_sec := ts\<rparr>)
      else if tval_diff_ms (sim_last_sec sim) ts \<ge> 1000 then
        bind_r (every_second ts shm (sim_stat sim)) (\<lambda>sp. Inr (sim\<lparr>sim_last_sec := ts, sim_stat := sp\<rparr>))
      else Inr sim)"

definition sim_after_packet :: "tval_t \<Rightarrow> sharedif_t \<Rightarrow> sim_state \<Rightarrow> sim_state c_result" where
  "sim_after_packet ts shm sim = sim_before_packet ts shm sim"

subsection \<open>The statistics process\<close>

text \<open>
  One iteration of the loop of the statistics process: \<open>now\<close> is the time that the condition reads and \<open>now'\<close> the
  time that is then stored. \<^verbatim>\<open>time\<close> returns a 64-bit number, of which \<^verbatim>\<open>tv_sec\<close> keeps 32 bits; both are 32-bit words here, which is the
  same for every time before the year 2106. The process ends at once when the segment cannot be attached (\<open>attached\<close>).
\<close>

definition statproc_step :: "u32 \<times> u32 \<times> sharedif_t \<Rightarrow> tval_t \<times> stat_state \<Rightarrow> (tval_t \<times> stat_state) c_result" where
  "statproc_step = (\<lambda>(now, now', shm) (ts, sp).
     if tv_sec ts = 0 then Inr (ts\<lparr>tv_sec := now\<rparr>, sp)
     else if int (unat now) - int (unat (tv_sec ts)) \<ge> 1 then
       bind_r (every_second (ts\<lparr>tv_sec := now'\<rparr>) shm sp) (\<lambda>sp1. Inr (ts\<lparr>tv_sec := now'\<rparr>, sp1))
     else Inr (ts, sp))"

definition statproc_main :: "bool \<Rightarrow> (u32 \<times> u32 \<times> sharedif_t) list \<Rightarrow> stat_state \<Rightarrow> (tval_t \<times> stat_state) c_result" where
  "statproc_main attached iterations sp =
     (if \<not> attached then Inr (zero_tval, sp)
      else fold_r statproc_step (take 3600 iterations) (zero_tval, sp))"

subsection \<open>Sorting\<close>

interpretation by_stream_pkt: comparator "\<lambda>a b. rcmp_stream_pkt (aget arr a) (aget arr b)" for arr
  by unfold_locales (auto simp: rcmp_stream_pkt_def cmp_stream_pkt_def split: if_splits)

interpretation by_stream_bytes: comparator "\<lambda>a b. rcmp_stream_bytes (aget arr a) (aget arr b)" for arr
  by unfold_locales (auto simp: rcmp_stream_bytes_def cmp_stream_bytes_def split: if_splits)

interpretation by_proto_pkt: comparator "\<lambda>a b. rcmp_protos_pkt (aget arr a) (aget arr b)" for arr
  by unfold_locales (auto simp: rcmp_protos_pkt_def cmp_protos_pkt_def split: if_splits)

interpretation by_addr_txpkt: comparator "\<lambda>a b. rcmp_addr_txpkt (aget arr a) (aget arr b)" for arr
  by unfold_locales (auto simp: rcmp_addr_txpkt_def cmp_addr_txpkt_def split: if_splits)

interpretation by_addr_scanned: comparator "\<lambda>a b. rcmp_addr_scanned_ports (aget arr a) (aget arr b)" for arr
  by unfold_locales (auto simp: rcmp_addr_scanned_ports_def cmp_addr_port_scan_src_def split: if_splits)

interpretation by_addr_served: comparator "\<lambda>a b. rcmp_addr_served_ports (aget arr a) (aget arr b)" for arr
  by unfold_locales (auto simp: rcmp_addr_served_ports_def cmp_addr_port_scan_target_def split: if_splits)

lemmas orders = by_stream_pkt.comparator_axioms by_stream_bytes.comparator_axioms by_proto_pkt.comparator_axioms
  by_addr_txpkt.comparator_axioms by_addr_scanned.comparator_axioms by_addr_served.comparator_axioms

lemma rcmp_le_zero:
  "rcmp_stream_pkt s t \<le> 0 \<longleftrightarrow> packets t \<le> packets s" "rcmp_stream_bytes s t \<le> 0 \<longleftrightarrow> bytes t \<le> bytes s"
  "rcmp_protos_pkt p q \<le> 0 \<longleftrightarrow> pi_packets q \<le> pi_packets p" "rcmp_addr_txpkt a b \<le> 0 \<longleftrightarrow> txpackets b \<le> txpackets a"
  "rcmp_addr_scanned_ports a b \<le> 0 \<longleftrightarrow> resvd b \<le> resvd a" "rcmp_addr_served_ports a b \<le> 0 \<longleftrightarrow> resvd2 b \<le> resvd2 a"
  by (auto simp: rcmp_stream_pkt_def cmp_stream_pkt_def rcmp_stream_bytes_def cmp_stream_bytes_def rcmp_protos_pkt_def cmp_protos_pkt_def
      rcmp_addr_txpkt_def cmp_addr_txpkt_def rcmp_addr_scanned_ports_def cmp_addr_port_scan_src_def
      rcmp_addr_served_ports_def cmp_addr_port_scan_target_def)

lemma sort_ptrs_ok:
  assumes "comparator (\<lambda>a b. cmp (aget arr a) (aget arr b))" "length ptrs \<le> SI_NUM_STREAMS"
  shows "\<exists>ys. sort_ptrs cmp arr ptrs = Inr ys \<and> mset ys = mset ptrs \<and> sorted_wrt (\<lambda>a b. cmp (aget arr a) (aget arr b) \<le> 0) ys"
proof -
  have "2 * int (length ptrs) \<le> INT_MAX" using assms(2) by (simp add: SI_NUM_STREAMS_def INT_MAX_def)
  from comparator.quicksort_all [OF assms(1) this] show ?thesis by (auto simp: sort_ptrs_def)
qed

subsection \<open>Port masks\<close>

lemma card_bits_Suc:
  "card {i. i < Suc n \<and> bit (val :: u16) i} = of_bool (bit val 0) + card {i. i < n \<and> bit (drop_bit 1 val) i}"
proof -
  have split: "{i. i < Suc n \<and> bit val i} = {i. i = 0 \<and> bit val 0} \<union> Suc ` {i. i < n \<and> bit val (Suc i)}"
    by (auto simp: less_Suc_eq_0_disj image_iff)
  have "card {i. i < Suc n \<and> bit val i} = card {i. i = (0 :: nat) \<and> bit val 0} + card (Suc ` {i. i < n \<and> bit val (Suc i)})"
    unfolding split by (rule card_Un_disjoint) auto
  then show ?thesis by (simp add: card_image bit_drop_bit_eq)
qed

lemma count_bits_loop_card: "count_bits_loop n val num = num + of_nat (card {i. i < n \<and> bit val i})"
proof (induction n arbitrary: val num)
  case (Suc n)
  have "val AND 1 = of_bool (bit val 0)" by (simp add: and_one_eq mod_2_eq_odd bit_0)
  then show ?case unfolding count_bits_loop.simps Suc.IH card_bits_Suc by (simp add: algebra_simps)
qed simp

text \<open>\<^verbatim>\<open>count_bits16\<close> counts the bits.\<close>

lemma count_bits16_card: "count_bits16 val = of_nat (card {i. bit val i})"
proof -
  have "{i. i < 16 \<and> bit val i} = {i. bit val i}" using bit_imp_le_length [of val] by auto
  then show ?thesis by (simp add: count_bits16_def count_bits_loop_card)
qed

lemma set_port_bit_watched: "\<forall>k < 16. set_port_bit m (BF_PORTS ! k) = m OR push_bit k 1"
  by (simp add: All_less_Suc numeral_eq_Suc) (simp add: set_port_bit_def BF_PORTS_def)

lemma set_port_bit_other: "port \<notin> set BF_PORTS \<Longrightarrow> set_port_bit m port = m"
  by (simp add: set_port_bit_def BF_PORTS_def)

lemma watched_ports: "distinct BF_PORTS" "length BF_PORTS = 16"
  by (simp_all add: BF_PORTS_def)

lemma bit_set_port_bit: "bit (set_port_bit m port) j \<longleftrightarrow> bit m j \<or> j < 16 \<and> BF_PORTS ! j = port"
proof (cases "port \<in> set BF_PORTS")
  case True
  then obtain k where k: "k < 16" "port = BF_PORTS ! k" by (auto simp: in_set_conv_nth watched_ports(2))
  have "set_port_bit m port = m OR push_bit k 1" using set_port_bit_watched k by blast
  moreover have "BF_PORTS ! j = port \<longleftrightarrow> j = k" if "j < 16"
    using that k watched_ports by (simp add: nth_eq_iff_index_eq)
  ultimately show ?thesis using k by (auto simp: bit_or_iff bit_exp_iff)
next
  case False
  then have "\<not> (j < 16 \<and> BF_PORTS ! j = port)" by (auto simp: in_set_conv_nth watched_ports(2))
  then show ?thesis unfolding set_port_bit_other [OF False] by blast
qed

lemma bit_marked_ports: "bit (fold (\<lambda>p m. set_port_bit m p) ports m) j \<longleftrightarrow> bit m j \<or> j < 16 \<and> BF_PORTS ! j \<in> set ports"
  by (induction ports arbitrary: m) (auto simp: bit_set_port_bit)

lemma card_marked_ports: "card {j. j < 16 \<and> BF_PORTS ! j \<in> set ports} = card (set ports \<inter> set BF_PORTS)"
proof -
  have "inj_on ((!) BF_PORTS) {j. j < 16 \<and> BF_PORTS ! j \<in> set ports}"
    using watched_ports by (auto intro!: inj_onI simp: nth_eq_iff_index_eq)
  moreover have "(!) BF_PORTS ` {j. j < 16 \<and> BF_PORTS ! j \<in> set ports} = set ports \<inter> set BF_PORTS"
    unfolding set_conv_nth [of BF_PORTS] watched_ports(2) by auto
  ultimately show ?thesis using card_image by fastforce
qed

subsection \<open>Ports of the protocol table\<close>

text \<open>
  The index of a port counter leads back to its port. The protocol is the wrong one: the counters of TCP
  ports are reported with the number of UDP and those of UDP ports with the number of TCP.
\<close>

theorem proto_numbers_swapped:
  assumes "unat port < SI_NUM_TCP_PROTOS"
  shows "map_option proto_port (shm_get_protocol IPPROTO_TCP port) = Some (port, IPPROTO_UDP)"
    "map_option proto_port (shm_get_protocol IPPROTO_UDP port) = Some (port, IPPROTO_TCP)"
proof -
  have sum: "unat (port + 9110) = unat port + 9110" using assms by (simp add: unat_word_ariths SI_NUM_TCP_PROTOS_def)
  show "map_option proto_port (shm_get_protocol IPPROTO_TCP port) = Some (port, IPPROTO_UDP)"
    using assms by (simp add: shm_get_protocol_def proto_port_def SP_IPPROTO_TCP_def IPPROTO_TCP_def IPPROTO_UDP_def SI_NUM_TCP_PROTOS_def Let_def)
  show "map_option proto_port (shm_get_protocol IPPROTO_UDP port) = Some (port, IPPROTO_TCP)"
    using assms sum by (simp add: shm_get_protocol_def proto_port_def SP_IPPROTO_UDP_def IPPROTO_TCP_def IPPROTO_UDP_def SI_NUM_TCP_PROTOS_def Let_def)
qed

end
