(* ===== verification/StatReport.thy ===== *)
theory StatReport
  imports StatProc
begin

text \<open>
  What a minute report does (\<^verbatim>\<open>_process_streams\<close>, \<^verbatim>\<open>_process_protocols\<close>, \<^verbatim>\<open>_process_addrs\<close> and \<^verbatim>\<open>check_minute\<close> of
  \<^verbatim>\<open>statproc/statproc_handlers.c\<close>): the loops over the working copy as pure functions of the two copies, the calls
  that make up the report, and that the report is completed.
\<close>

subsection \<open>Working copies\<close>

text \<open>The arrays of a working copy have the sizes of those of the segment.\<close>

definition copy_wf :: "sharedif_t \<Rightarrow> bool" where
  "copy_wf seg \<longleftrightarrow>
     alen (shm_streams seg) = SI_NUM_STREAMS \<and> alen (shm_addrs seg) = SI_NUM_ADDRS \<and> alen (shm_protos seg) = SI_NUM_PROTOS"

text \<open>An array with the elements of a set of indices replaced.\<close>

definition upd_on :: "nat set \<Rightarrow> (nat \<Rightarrow> 'a) \<Rightarrow> 'a carray \<Rightarrow> 'a carray" where
  "upd_on U f a = a\<lparr>aget := (\<lambda>i. if i \<in> U then f i else aget a i)\<rparr>"

lemma upd_on_simps [simp]:
  "alen (upd_on U f a) = alen a" "aget (upd_on U f a) i = (if i \<in> U then f i else aget a i)" "upd_on {} f a = a"
  by (simp_all add: upd_on_def)

lemma upd_on_insert:
  assumes "x \<notin> U" "\<And>i. i \<in> U \<Longrightarrow> g i = f i"
  shows "upd_on U g (a\<lparr>aget := (aget a)(x := f x)\<rparr>) = upd_on (insert x U) f a"
proof -
  have "(\<lambda>i. if i \<in> U then g i else ((aget a)(x := f x)) i) = (\<lambda>i. if i \<in> insert x U then f i else aget a i)"
    using assms by auto
  then show ?thesis by (simp add: upd_on_def cong: if_cong)
qed

subsection \<open>Loops over slots\<close>

text \<open>
  The three loops have one shape: an entry that is not used is skipped; a used one is updated in the two
  copies, without a look at other entries, and noted in lists that have room for it. Such a loop handles
  the used entries in their order.
\<close>

locale slot_loop =
  fixes step :: "nat \<Rightarrow> 's \<times> 'p \<Rightarrow> ('s \<times> 'p) c_result"
    and used :: "'s \<Rightarrow> nat \<Rightarrow> bool"
    and upd :: "nat \<Rightarrow> 's \<Rightarrow> 's"
    and push :: "'s \<Rightarrow> nat \<Rightarrow> 'p \<Rightarrow> 'p"
    and ok :: "'s \<Rightarrow> nat \<Rightarrow> bool"
    and room :: "nat \<Rightarrow> 'p \<Rightarrow> bool"
  assumes step_eq: "ok s i \<Longrightarrow> room (Suc n) p \<Longrightarrow> step i (s, p) = Inr (if used s i then (upd i s, push s i p) else (s, p))"
    and ok_upd: "ok s i \<Longrightarrow> ok s j \<Longrightarrow> i \<noteq> j \<Longrightarrow> ok (upd i s) j"
    and used_upd: "i \<noteq> j \<Longrightarrow> used (upd i s) j = used s j"
    and push_upd: "i \<noteq> j \<Longrightarrow> push (upd i s) j = push s j"
    and room_push: "room (Suc n) p \<Longrightarrow> room n (push s i p)"
    and room_less: "room (Suc n) p \<Longrightarrow> room n p"
begin

lemma loop:
  assumes "distinct xs" "\<forall>i \<in> set xs. ok s i" "room (length xs) p"
  shows "fold_r step xs (s, p) = Inr (fold upd (filter (used s) xs) s, fold (push s) (filter (used s) xs) p)"
  using assms
proof (induction xs arbitrary: s p)
  case (Cons x xs)
  have step: "step x (s, p) = Inr (if used s x then (upd x s, push s x p) else (s, p))"
    using Cons.prems(2,3) step_eq by simp
  have x: "x \<notin> set xs" using Cons.prems(1) by simp
  show ?case
  proof (cases "used s x")
    case True
    have "\<forall>i \<in> set xs. ok (upd x s) i" using Cons.prems(2) x ok_upd by auto
    moreover have "filter (used (upd x s)) xs = filter (used s) xs" using x by (intro filter_cong refl used_upd) auto
    moreover have "fold (push (upd x s)) ys q = fold (push s) ys q" if "x \<notin> set ys" for ys q
      using that by (induction ys arbitrary: q) (auto simp: push_upd)
    ultimately show ?thesis
      using Cons.IH [of "upd x s" "push s x p"] Cons.prems(1,3) x room_push step True by simp
  next
    case False
    then show ?thesis using Cons.IH [of s p] Cons.prems room_less step by simp
  qed
qed simp

end

lemma fold_snoc: "fold (\<lambda>i ptrs. ptrs @ [i]) xs ptrs = ptrs @ xs"
  by (induction xs arbitrary: ptrs) simp_all

subsection \<open>Streams\<close>

definition used_stream :: "sharedif_t \<Rightarrow> nat \<Rightarrow> bool" where
  "used_stream seg i \<longleftrightarrow> \<not> IS_EMPTY_SLOT (si_tstart (aget (shm_streams seg) i))"

text \<open>What a stream has counted since the last report, and what is remembered of it.\<close>

definition stream_since :: "stream_info_t \<Rightarrow> stream_info_t \<Rightarrow> stream_info_t" where
  "stream_since old s =
     (if si_tstart s = si_tstart old
      then s\<lparr>packets := u32diff (packets old) (packets s), bytes := u32diff (bytes old) (bytes s)\<rparr> else s)"

definition stream_seen :: "stream_info_t \<Rightarrow> stream_info_t \<Rightarrow> stream_info_t" where
  "stream_seen old s = (if si_tstart s = si_tstart old then old\<lparr>packets := packets s, bytes := bytes s\<rparr> else s)"

lemma stream_since_keeps [simp]:
  "si_tstart (stream_since old s) = si_tstart s" "idx_left (stream_since old s) = idx_left s"
  "idx_right (stream_since old s) = idx_right s" "si_rport (stream_since old s) = si_rport s"
  by (simp_all add: stream_since_def)

lemma diff_stream_eq:
  assumes "copy_wf cur" "copy_wf prev" "i < SI_NUM_STREAMS"
  defines "s \<equiv> aget (shm_streams cur) i" and "old \<equiv> aget (shm_streams prev) i"
  shows "diff_stream i (cur, prev) =
    Inr (cur\<lparr>shm_streams := (shm_streams cur)\<lparr>aget := (aget (shm_streams cur))(i := stream_since old s)\<rparr>\<rparr>,
         prev\<lparr>shm_streams := (shm_streams prev)\<lparr>aget := (aget (shm_streams prev))(i := stream_seen old s)\<rparr>\<rparr>)"
  using assms(1-3)
  by (simp add: diff_stream_def copy_wf_def tval_cmp_zero stream_since_def stream_seen_def arr_wr_def s_def old_def)

text \<open>The ports that one stream marks on its two addresses.\<close>

definition mark_left :: "stream_info_t \<Rightarrow> addr_info_t \<Rightarrow> addr_info_t" where
  "mark_left s a = (if internal a \<noteq> 0 then mark_dest_port (si_rport s) a else a)"

definition mark_right :: "stream_info_t \<Rightarrow> addr_info_t \<Rightarrow> addr_info_t" where
  "mark_right s a = (if internal a \<noteq> 0 then mark_serve_port (si_rport s) a else a)"

definition marked :: "stream_info_t \<Rightarrow> addr_info_t carray \<Rightarrow> addr_info_t carray" where
  "marked s as = as\<lparr>aget := (\<lambda>j.
     let a = (if j = unat (idx_left s) then mark_left s (aget as j) else aget as j) in
     if j = unat (idx_right s) then mark_right s a else a)\<rparr>"

lemma mark_ports_eq:
  assumes "copy_wf cur" "refs_ok s"
  shows "mark_ports s cur = Inr (cur\<lparr>shm_addrs := marked s (shm_addrs cur)\<rparr>)"
proof -
  let ?l = "unat (idx_left s)" and ?r = "unat (idx_right s)" and ?as = "shm_addrs cur"
  let ?g = "(aget ?as)(?l := mark_left s (aget ?as ?l))"
  have "mark_ports s cur = Inr (cur\<lparr>shm_addrs := ?as\<lparr>aget := ?g(?r := mark_right s (?g ?r))\<rparr>\<rparr>)"
    using assms by (simp add: mark_ports_def copy_wf_def refs_ok_def arr_upd_def mark_left_def mark_right_def cong: if_cong)
  moreover have "?g(?r := mark_right s (?g ?r)) =
      (\<lambda>j. let a = (if j = ?l then mark_left s (aget ?as j) else aget ?as j) in if j = ?r then mark_right s a else a)"
    by auto
  ultimately show ?thesis by (simp add: marked_def)
qed

text \<open>One stream, and the loop over them.\<close>

definition stream_upd :: "nat \<Rightarrow> sharedif_t \<times> sharedif_t \<Rightarrow> sharedif_t \<times> sharedif_t" where
  "stream_upd i = (\<lambda>(cur, prev).
     let s = aget (shm_streams cur) i; old = aget (shm_streams prev) i in
     (cur\<lparr>shm_streams := (shm_streams cur)\<lparr>aget := (aget (shm_streams cur))(i := stream_since old s)\<rparr>,
          shm_addrs := marked s (shm_addrs cur)\<rparr>,
      prev\<lparr>shm_streams := (shm_streams prev)\<lparr>aget := (aget (shm_streams prev))(i := stream_seen old s)\<rparr>\<rparr>))"

definition stream_ok :: "sharedif_t \<times> sharedif_t \<Rightarrow> nat \<Rightarrow> bool" where
  "stream_ok = (\<lambda>(cur, prev) i. copy_wf cur \<and> copy_wf prev \<and> i < SI_NUM_STREAMS \<and>
     (used_stream cur i \<longrightarrow> refs_ok (aget (shm_streams cur) i)))"

lemma stream_step_eq:
  assumes "stream_ok (cur, prev) i" "length ptrs < SI_NUM_STREAMS"
  shows "stream_step i ((cur, prev), ptrs) =
    Inr (if used_stream cur i then (stream_upd i (cur, prev), ptrs @ [i]) else ((cur, prev), ptrs))"
proof -
  let ?s = "aget (shm_streams cur) i" and ?old = "aget (shm_streams prev) i"
  have wf: "copy_wf cur" "copy_wf prev" "i < SI_NUM_STREAMS" using assms(1) by (simp_all add: stream_ok_def)
  let ?cur1 = "cur\<lparr>shm_streams := (shm_streams cur)\<lparr>aget := (aget (shm_streams cur))(i := stream_since ?old ?s)\<rparr>\<rparr>"
  have "copy_wf ?cur1" using wf by (simp add: copy_wf_def)
  then have "used_stream cur i \<longrightarrow> mark_ports ?s ?cur1 = Inr (?cur1\<lparr>shm_addrs := marked ?s (shm_addrs ?cur1)\<rparr>)"
    using assms(1) mark_ports_eq by (simp add: stream_ok_def)
  then show ?thesis
    using wf assms(2) diff_stream_eq [OF wf]
    by (simp add: stream_step_def stream_upd_def used_stream_def copy_wf_def push_ptr_def Let_def)
qed

interpretation stream_loop: slot_loop stream_step "\<lambda>(cur, prev). used_stream cur" stream_upd "\<lambda>_ i ptrs. ptrs @ [i]" stream_ok
  "\<lambda>n ptrs. length ptrs + n \<le> SI_NUM_STREAMS"
  by unfold_locales
    (auto simp: stream_step_eq stream_upd_def stream_ok_def used_stream_def copy_wf_def marked_def Let_def split: prod.split)

definition streams_since :: "nat set \<Rightarrow> sharedif_t \<Rightarrow> sharedif_t \<Rightarrow> stream_info_t carray" where
  "streams_since U cur prev = upd_on U (\<lambda>i. stream_since (aget (shm_streams prev) i) (aget (shm_streams cur) i)) (shm_streams cur)"

definition streams_seen :: "nat set \<Rightarrow> sharedif_t \<Rightarrow> sharedif_t \<Rightarrow> stream_info_t carray" where
  "streams_seen U cur prev = upd_on U (\<lambda>i. stream_seen (aget (shm_streams prev) i) (aget (shm_streams cur) i)) (shm_streams prev)"

lemma fold_stream_upd:
  assumes "distinct us"
  shows "fold stream_upd us (cur, prev) =
    (cur\<lparr>shm_streams := streams_since (set us) cur prev,
         shm_addrs := fold marked (map (aget (shm_streams cur)) us) (shm_addrs cur)\<rparr>,
     prev\<lparr>shm_streams := streams_seen (set us) cur prev\<rparr>)"
  using assms
proof (induction us arbitrary: cur prev)
  case Nil
  then show ?case by (simp add: streams_since_def streams_seen_def)
next
  case (Cons x us)
  obtain cur1 prev1 where 1: "stream_upd x (cur, prev) = (cur1, prev1)" by fastforce
  have x: "x \<notin> set us" using Cons.prems by simp
  have at: "aget (shm_streams cur1) i = aget (shm_streams cur) i" "aget (shm_streams prev1) i = aget (shm_streams prev) i"
    if "i \<in> set us" for i using that x 1 by (auto simp: stream_upd_def Let_def)
  have "streams_since (set us) cur1 prev1 = streams_since (insert x (set us)) cur prev"
    "streams_seen (set us) cur1 prev1 = streams_seen (insert x (set us)) cur prev"
    unfolding streams_since_def streams_seen_def using 1 x at
    by (auto simp: stream_upd_def Let_def intro!: upd_on_insert)
  moreover have "map (aget (shm_streams cur1)) us = map (aget (shm_streams cur)) us" using at by auto
  ultimately show ?case using Cons 1 by (auto simp: stream_upd_def Let_def)
qed

text \<open>The calls for the streams at the top of a sorted list.\<close>

definition stream_calls :: "SortBy \<Rightarrow> sharedif_t \<Rightarrow> nat list \<Rightarrow> report_call list" where
  "stream_calls k seg ptrs =
     map (\<lambda>(i, p). TopStream k 0 i p (unat (idx_left (aget (shm_streams seg) p))) (unat (idx_right (aget (shm_streams seg) p))))
       (top_n NUM_TOPN_STREAMS ptrs)"

lemma report_eqs:
  "report seg (TopStream sortby flags i stream aleft aright) = on_topn_stream seg sortby flags i stream aleft aright"
  "report seg (TopProtocol sortby flags i port proto p) = on_topn_protocol sortby flags i port proto p"
  "report seg (TopAddress sortby flags i addr) = on_topn_address seg sortby flags i addr"
  by (rule ext, simp)+

lemma report_streams_calls: "report_streams k seg ptrs ex = fold_r (report seg) (stream_calls k seg ptrs) ex"
  by (simp add: report_streams_def stream_calls_def fold_r_map report_eqs split_def Let_def)

lemma window_distinct [simp]: "distinct (window_of p)" "i \<in> set (window_of p) \<Longrightarrow> i < unat (idx_hi p)" "length (window_of p) \<le> unat (idx_hi p)"
  by (simp_all add: window_of_def)

text \<open>The window of streams lies in the table and its streams refer to addresses of the table.\<close>

definition streams_ok :: "sharedif_t \<Rightarrow> bool" where
  "streams_ok seg \<longleftrightarrow> unat (idx_hi (stream_indexes seg)) \<le> SI_NUM_STREAMS \<and>
     (\<forall>i \<in> set (window_of (stream_indexes seg)). used_stream seg i \<longrightarrow> refs_ok (aget (shm_streams seg) i))"

definition used_streams :: "sharedif_t \<Rightarrow> nat list" where
  "used_streams seg = filter (used_stream seg) (window_of (stream_indexes seg))"

text \<open>The copies after the streams have been processed.\<close>

definition streams_cur :: "sharedif_t \<Rightarrow> sharedif_t \<Rightarrow> sharedif_t" where
  "streams_cur cur prev = cur\<lparr>shm_streams := streams_since (set (used_streams cur)) cur prev,
     shm_addrs := fold marked (map (aget (shm_streams cur)) (used_streams cur)) (shm_addrs cur)\<rparr>"

definition streams_prev :: "sharedif_t \<Rightarrow> sharedif_t \<Rightarrow> sharedif_t" where
  "streams_prev cur prev = prev\<lparr>shm_streams := streams_seen (set (used_streams cur)) cur prev\<rparr>"

lemma process_streams_eq:
  assumes wf: "copy_wf cur" "copy_wf prev" and ok: "streams_ok cur"
  shows "\<exists>ys zs. mset ys = mset (used_streams cur) \<and> mset zs = mset (used_streams cur) \<and>
    sorted_wrt (\<lambda>i j. packets (aget (shm_streams (streams_cur cur prev)) j) \<le> packets (aget (shm_streams (streams_cur cur prev)) i)) ys \<and>
    sorted_wrt (\<lambda>i j. bytes (aget (shm_streams (streams_cur cur prev)) j) \<le> bytes (aget (shm_streams (streams_cur cur prev)) i)) zs \<and>
    (\<forall>ex. process_streams (cur, prev) ex =
      bind_r (fold_r (report (streams_cur cur prev))
          (stream_calls SortByPkt (streams_cur cur prev) ys @ stream_calls SortByBytes (streams_cur cur prev) zs) ex)
        (\<lambda>ex'. Inr ((streams_cur cur prev, streams_prev cur prev), ex')))"
proof -
  let ?w = "window_of (stream_indexes cur)" and ?cur1 = "streams_cur cur prev"
  have hi: "unat (idx_hi (stream_indexes cur)) \<le> SI_NUM_STREAMS" using ok by (simp add: streams_ok_def)
  have "\<forall>i \<in> set ?w. stream_ok (cur, prev) i"
    using ok wf less_le_trans [OF window_distinct(2) hi] by (simp add: streams_ok_def stream_ok_def)
  from stream_loop.loop [OF window_distinct(1) this, of "[]"] order_trans [OF window_distinct(3) hi]
  have loop: "fold_r stream_step ?w ((cur, prev), []) = Inr ((?cur1, streams_prev cur prev), used_streams cur)"
    by (simp add: fold_snoc fold_stream_upd streams_cur_def streams_prev_def used_streams_def)
  have len: "length (used_streams cur) \<le> SI_NUM_STREAMS"
    unfolding used_streams_def by (rule order_trans [OF length_filter_le order_trans [OF window_distinct(3) hi]])
  from sort_ptrs_ok [OF orders(1) len, of "shm_streams ?cur1"] obtain ys where
    ys: "sort_ptrs rcmp_stream_pkt (shm_streams ?cur1) (used_streams cur) = Inr ys" "mset ys = mset (used_streams cur)"
      "sorted_wrt (\<lambda>i j. packets (aget (shm_streams ?cur1) j) \<le> packets (aget (shm_streams ?cur1) i)) ys"
    by (auto simp: rcmp_le_zero)
  have "length ys \<le> SI_NUM_STREAMS" using len ys(2) by (metis size_mset)
  from sort_ptrs_ok [OF orders(2) this, of "shm_streams ?cur1"] obtain zs where
    zs: "sort_ptrs rcmp_stream_bytes (shm_streams ?cur1) ys = Inr zs" "mset zs = mset ys"
      "sorted_wrt (\<lambda>i j. bytes (aget (shm_streams ?cur1) j) \<le> bytes (aget (shm_streams ?cur1) i)) zs"
    by (auto simp: rcmp_le_zero)
  have "process_streams (cur, prev) ex =
      bind_r (fold_r (report ?cur1) (stream_calls SortByPkt ?cur1 ys @ stream_calls SortByBytes ?cur1 zs) ex)
        (\<lambda>ex'. Inr ((?cur1, streams_prev cur prev), ex'))" for ex
    by (simp add: process_streams_def loop ys(1) zs(1) report_streams_calls fold_r_append bind_r_assoc)
  with ys(2,3) zs(2,3) show ?thesis by (intro exI [of _ ys] exI [of _ zs]) simp
qed

subsection \<open>Protocols\<close>

definition used_proto :: "sharedif_t \<times> sharedif_t \<Rightarrow> nat \<Rightarrow> bool" where
  "used_proto = (\<lambda>(cur, prev) i. pi_packets (aget (shm_protos cur) i) \<noteq> 0 \<and>
     pi_packets (aget (shm_protos cur) i) \<noteq> pi_packets (aget (shm_protos prev) i))"

definition proto_upd :: "nat \<Rightarrow> sharedif_t \<times> sharedif_t \<Rightarrow> sharedif_t \<times> sharedif_t" where
  "proto_upd i = (\<lambda>(cur, prev).
     let p = aget (shm_protos cur) i; old = aget (shm_protos prev) i in
     (cur\<lparr>shm_protos := (shm_protos cur)\<lparr>aget := (aget (shm_protos cur))(i :=
        p\<lparr>pi_packets := u32diff (pi_packets old) (pi_packets p), pi_bytes := u32diff (pi_bytes old) (pi_bytes p)\<rparr>)\<rparr>\<rparr>,
      prev\<lparr>shm_protos := (shm_protos prev)\<lparr>aget := (aget (shm_protos prev))(i :=
        old\<lparr>pi_packets := pi_packets p, pi_bytes := pi_bytes p\<rparr>)\<rparr>\<rparr>))"

definition proto_ok :: "sharedif_t \<times> sharedif_t \<Rightarrow> nat \<Rightarrow> bool" where
  "proto_ok = (\<lambda>(cur, prev) i. copy_wf cur \<and> copy_wf prev \<and> i < SI_NUM_PROTOS)"

lemma proto_step_eq:
  assumes "proto_ok (cur, prev) i" "length ptrs < SI_NUM_PROTOS"
  shows "proto_step i ((cur, prev), ptrs) =
    Inr (if used_proto (cur, prev) i then (proto_upd i (cur, prev), ptrs @ [i]) else ((cur, prev), ptrs))"
  using assms by (simp add: proto_step_def proto_upd_def used_proto_def proto_ok_def copy_wf_def push_ptr_def Let_def)

interpretation proto_loop: slot_loop proto_step used_proto proto_upd "\<lambda>_ i ptrs. ptrs @ [i]" proto_ok
  "\<lambda>n ptrs. length ptrs + n \<le> SI_NUM_PROTOS"
  by unfold_locales
    (auto simp: proto_step_eq proto_upd_def proto_ok_def used_proto_def copy_wf_def Let_def split: prod.split)

definition proto_calls :: "sharedif_t \<Rightarrow> nat list \<Rightarrow> report_call list" where
  "proto_calls seg ptrs =
     map (\<lambda>(i, p). TopProtocol SortByPkt 0 i (fst (proto_port p)) (snd (proto_port p)) (aget (shm_protos seg) p)) (top_n TOPN_PROTOS ptrs)"

definition used_protos :: "sharedif_t \<times> sharedif_t \<Rightarrow> nat list" where
  "used_protos cp = filter (used_proto cp) [0 ..< SI_NUM_PROTOS]"

definition protos_done :: "sharedif_t \<times> sharedif_t \<Rightarrow> sharedif_t \<times> sharedif_t" where
  "protos_done cp = fold proto_upd (used_protos cp) cp"

lemma process_protocols_eq:
  assumes wf: "copy_wf cur" "copy_wf prev"
  defines "seg \<equiv> fst (protos_done (cur, prev))"
  shows "\<exists>ys. mset ys = mset (used_protos (cur, prev)) \<and>
    sorted_wrt (\<lambda>i j. pi_packets (aget (shm_protos seg) j) \<le> pi_packets (aget (shm_protos seg) i)) ys \<and>
    (\<forall>ex. process_protocols (cur, prev) ex =
      bind_r (fold_r (report seg) (proto_calls seg ys) ex) (\<lambda>ex'. Inr (protos_done (cur, prev), ex')))"
proof -
  have "\<forall>i \<in> set [0 ..< SI_NUM_PROTOS]. proto_ok (cur, prev) i" using wf by (simp add: proto_ok_def)
  from proto_loop.loop [OF distinct_upt this, of "[]"]
  have loop: "fold_r proto_step [0 ..< SI_NUM_PROTOS] ((cur, prev), []) = Inr (protos_done (cur, prev), used_protos (cur, prev))"
    by (simp add: fold_snoc protos_done_def used_protos_def)
  have "length (used_protos (cur, prev)) \<le> length [0 ..< SI_NUM_PROTOS]" unfolding used_protos_def by (rule length_filter_le)
  then have "length (used_protos (cur, prev)) \<le> SI_NUM_STREAMS" by (simp add: SI_NUM_PROTOS_def SI_NUM_STREAMS_def SI_NUM_TCP_PROTOS_def)
  from sort_ptrs_ok [OF orders(3) this, of "shm_protos seg"] obtain ys where
    ys: "sort_ptrs rcmp_protos_pkt (shm_protos seg) (used_protos (cur, prev)) = Inr ys" "mset ys = mset (used_protos (cur, prev))"
      "sorted_wrt (\<lambda>i j. pi_packets (aget (shm_protos seg) j) \<le> pi_packets (aget (shm_protos seg) i)) ys"
    by (auto simp: rcmp_le_zero)
  have "process_protocols (cur, prev) ex =
      bind_r (fold_r (report seg) (proto_calls seg ys) ex) (\<lambda>ex'. Inr (protos_done (cur, prev), ex'))" for ex
    using ys(1) by (simp add: process_protocols_def loop proto_calls_def fold_r_map report_eqs split_def Let_def seg_def)
  with ys(2,3) show ?thesis by blast
qed

subsection \<open>Addresses\<close>

definition lan_pass :: "u32 \<Rightarrow> bool" where
  "lan_pass flags \<longleftrightarrow> flags = ucast FLOW_TYPE_INTERNAL"

definition addr_tally :: "u32 \<Rightarrow> addr_info_t \<Rightarrow> addr_info_t" where
  "addr_tally flags a = (if lan_pass flags then a\<lparr>resvd := count_bits16 (resvd a), resvd2 := count_bits16 (resvd2 a)\<rparr> else a)"

definition used_addr :: "sharedif_t \<times> sharedif_t \<Rightarrow> nat \<Rightarrow> bool" where
  "used_addr cp i \<longleftrightarrow> \<not> IS_EMPTY_SLOT (ai_tstart (aget (shm_addrs (fst cp)) i))"

definition addr_since :: "addr_info_t \<Rightarrow> addr_info_t \<Rightarrow> addr_info_t" where
  "addr_since old a =
     (if ai_tstart a = ai_tstart old
      then a\<lparr>txpackets := u32diff (txpackets old) (txpackets a), txbytes := u32diff (txbytes old) (txbytes a),
             rxpackets := u32diff (rxpackets old) (rxpackets a), rxbytes := u32diff (rxbytes old) (rxbytes a)\<rparr> else a)"

definition addr_seen :: "addr_info_t \<Rightarrow> addr_info_t \<Rightarrow> addr_info_t" where
  "addr_seen old a =
     (if ai_tstart a = ai_tstart old
      then old\<lparr>txpackets := txpackets a, txbytes := txbytes a, rxpackets := rxpackets a, rxbytes := rxbytes a\<rparr> else a)"

definition addr_upd :: "u32 \<Rightarrow> nat \<Rightarrow> sharedif_t \<times> sharedif_t \<Rightarrow> sharedif_t \<times> sharedif_t" where
  "addr_upd flags i = (\<lambda>(cur, prev).
     let a = addr_tally flags (aget (shm_addrs cur) i); old = aget (shm_addrs prev) i in
     (cur\<lparr>shm_addrs := (shm_addrs cur)\<lparr>aget := (aget (shm_addrs cur))(i := addr_since old a)\<rparr>\<rparr>,
      prev\<lparr>shm_addrs := (shm_addrs prev)\<lparr>aget := (aget (shm_addrs prev))(i := addr_seen old a)\<rparr>\<rparr>))"

definition is_scanner :: "u32 \<Rightarrow> sharedif_t \<times> sharedif_t \<Rightarrow> nat \<Rightarrow> bool" where
  "is_scanner flags cp i \<longleftrightarrow> lan_pass flags \<and> count_bits16 (resvd (aget (shm_addrs (fst cp)) i)) > SUSPICIOUS_PORTS_MIN"

definition is_target :: "u32 \<Rightarrow> sharedif_t \<times> sharedif_t \<Rightarrow> nat \<Rightarrow> bool" where
  "is_target flags cp i \<longleftrightarrow> lan_pass flags \<and> count_bits16 (resvd2 (aget (shm_addrs (fst cp)) i)) > SUSPICIOUS_PORTS_MIN"

definition addr_push ::
  "u32 \<Rightarrow> sharedif_t \<times> sharedif_t \<Rightarrow> nat \<Rightarrow> nat list \<times> nat list \<times> nat list \<Rightarrow> nat list \<times> nat list \<times> nat list"
where
  "addr_push flags cp i = (\<lambda>(ptrs, scanners, targets).
     (ptrs @ [i], if is_scanner flags cp i then scanners @ [i] else scanners, if is_target flags cp i then targets @ [i] else targets))"

definition addr_ok :: "sharedif_t \<times> sharedif_t \<Rightarrow> nat \<Rightarrow> bool" where
  "addr_ok = (\<lambda>(cur, prev) i. copy_wf cur \<and> copy_wf prev \<and> i < SI_NUM_ADDRS)"

definition addr_space :: "u32 \<Rightarrow> nat \<Rightarrow> nat list \<times> nat list \<times> nat list \<Rightarrow> bool" where
  "addr_space flags n = (\<lambda>(ptrs, scanners, targets). length ptrs + n \<le> SI_NUM_ADDRS \<and>
     (lan_pass flags \<longrightarrow> length scanners + n \<le> SI_NUM_ADDRS div 2 \<and> length targets + n \<le> SI_NUM_ADDRS div 2))"

lemma diff_addr_eq:
  assumes "copy_wf cur" "copy_wf prev" "i < SI_NUM_ADDRS"
  shows "diff_addr i a (cur, prev) =
    Inr (cur\<lparr>shm_addrs := (shm_addrs cur)\<lparr>aget := (aget (shm_addrs cur))(i := addr_since (aget (shm_addrs prev) i) a)\<rparr>\<rparr>,
         prev\<lparr>shm_addrs := (shm_addrs prev)\<lparr>aget := (aget (shm_addrs prev))(i := addr_seen (aget (shm_addrs prev) i) a)\<rparr>\<rparr>)"
  using assms by (simp add: diff_addr_def copy_wf_def tval_cmp_zero addr_since_def addr_seen_def)

lemma addr_step_eq:
  assumes "addr_ok (cur, prev) i" "addr_space flags (Suc n) p"
  shows "addr_step flags i ((cur, prev), p) =
    Inr (if used_addr (cur, prev) i then (addr_upd flags i (cur, prev), addr_push flags (cur, prev) i p) else ((cur, prev), p))"
proof -
  obtain ptrs sc tg where p: "p = (ptrs, sc, tg)" by (cases p)
  have wf: "copy_wf cur" "copy_wf prev" "i < SI_NUM_ADDRS" using assms(1) by (simp_all add: addr_ok_def)
  show ?thesis
    using assms(2) wf diff_addr_eq [OF wf]
    by (cases "lan_pass flags")
      (simp_all add: addr_step_def addr_upd_def addr_push_def addr_space_def used_addr_def addr_tally_def is_scanner_def is_target_def
        lan_pass_def [symmetric] p copy_wf_def push_ptr_def Let_def)
qed

interpretation addr_loop: slot_loop "addr_step flags" used_addr "addr_upd flags" "addr_push flags" addr_ok "addr_space flags" for flags
proof
  show "addr_ok s i \<Longrightarrow> addr_space flags (Suc n) p \<Longrightarrow>
      addr_step flags i (s, p) = Inr (if used_addr s i then (addr_upd flags i s, addr_push flags s i p) else (s, p))" for s i n p
    by (cases s) (simp only: addr_step_eq)
qed (auto simp: addr_upd_def addr_ok_def used_addr_def copy_wf_def addr_push_def addr_space_def is_scanner_def is_target_def Let_def
      split: prod.split)

lemma fold_addr_push:
  "fold (addr_push flags cp) us (ptrs, sc, tg) = (ptrs @ us, sc @ filter (is_scanner flags cp) us, tg @ filter (is_target flags cp) us)"
  by (induction us arbitrary: ptrs sc tg) (simp_all add: addr_push_def)

definition used_addrs :: "mga_info_t \<Rightarrow> sharedif_t \<times> sharedif_t \<Rightarrow> nat list" where
  "used_addrs p cp = filter (used_addr cp) (window_of p)"

definition addrs_done :: "u32 \<Rightarrow> mga_info_t \<Rightarrow> sharedif_t \<times> sharedif_t \<Rightarrow> sharedif_t \<times> sharedif_t" where
  "addrs_done flags p cp = fold (addr_upd flags) (used_addrs p cp) cp"

definition addr_calls :: "SortBy \<Rightarrow> u32 \<Rightarrow> nat list \<Rightarrow> report_call list" where
  "addr_calls k flags ptrs = map (\<lambda>(i, p). TopAddress k flags i p) (top_n 10 ptrs)"

lemma report_addrs_sorted:
  assumes "comparator (\<lambda>a b. cmp (aget (shm_addrs seg) a) (aget (shm_addrs seg) b))" "length us \<le> SI_NUM_STREAMS"
  obtains ys where "mset ys = mset us" "sorted_wrt (\<lambda>a b. cmp (aget (shm_addrs seg) a) (aget (shm_addrs seg) b) \<le> 0) ys"
    "\<And>ex. report_addrs cmp k flags seg us ex = fold_r (report seg) (addr_calls k flags ys) ex"
    "\<And>ex. (if us = [] then Inr ex else report_addrs cmp k flags seg us ex) = fold_r (report seg) (addr_calls k flags ys) ex"
proof -
  obtain ys where ys: "sort_ptrs cmp (shm_addrs seg) us = Inr ys" "mset ys = mset us"
      "sorted_wrt (\<lambda>a b. cmp (aget (shm_addrs seg) a) (aget (shm_addrs seg) b) \<le> 0) ys"
    using sort_ptrs_ok [OF assms] by blast
  have eq: "report_addrs cmp k flags seg us ex = fold_r (report seg) (addr_calls k flags ys) ex" for ex
    using ys(1) by (simp add: report_addrs_def addr_calls_def fold_r_map report_eqs split_def)
  have "us = [] \<longrightarrow> ys = []" using ys(2) by auto
  then have "(if us = [] then Inr ex else report_addrs cmp k flags seg us ex) = fold_r (report seg) (addr_calls k flags ys) ex" for ex
    using eq by (auto simp: addr_calls_def top_n_def)
  with ys(2,3) eq show ?thesis using that by blast
qed

lemma process_addrs2_eq:
  assumes wf: "copy_wf cur" "copy_wf prev" and win: "unat (idx_hi p) \<le> SI_NUM_ADDRS" "lan_pass flags \<longrightarrow> unat (idx_hi p) \<le> SI_NUM_ADDRS div 2"
  defines "seg \<equiv> fst (addrs_done flags p (cur, prev))" and "us \<equiv> used_addrs p (cur, prev)"
  shows "\<exists>xs ys zs. mset xs = mset us \<and> sorted_wrt (\<lambda>i j. txpackets (aget (shm_addrs seg) j) \<le> txpackets (aget (shm_addrs seg) i)) xs \<and>
    mset ys = mset (filter (is_scanner flags (cur, prev)) us) \<and> sorted_wrt (\<lambda>i j. resvd (aget (shm_addrs seg) j) \<le> resvd (aget (shm_addrs seg) i)) ys \<and>
    mset zs = mset (filter (is_target flags (cur, prev)) us) \<and> sorted_wrt (\<lambda>i j. resvd2 (aget (shm_addrs seg) j) \<le> resvd2 (aget (shm_addrs seg) i)) zs \<and>
    (\<forall>ex. process_addrs2 flags p (cur, prev) ex =
      bind_r (fold_r (report seg) (addr_calls SortByTxPkt flags xs @ addr_calls SortByScannedPorts flags ys @ addr_calls SortByServedPorts flags zs) ex)
        (\<lambda>ex'. Inr (addrs_done flags p (cur, prev), ex')))"
proof -
  let ?sc = "filter (is_scanner flags (cur, prev)) us" and ?tg = "filter (is_target flags (cur, prev)) us"
  have "\<forall>i \<in> set (window_of p). addr_ok (cur, prev) i"
    using wf less_le_trans [OF window_distinct(2) win(1)] by (simp add: addr_ok_def)
  moreover have "addr_space flags (length (window_of p)) ([], [], [])"
    using order_trans [OF window_distinct(3) win(1)] order_trans [OF window_distinct(3)] win(2) by (simp add: addr_space_def)
  ultimately have loop: "fold_r (addr_step flags) (window_of p) ((cur, prev), [], [], []) = Inr (addrs_done flags p (cur, prev), us, ?sc, ?tg)"
    using addr_loop.loop [of "window_of p" "(cur, prev)" flags "([], [], [])"]
    by (simp add: fold_addr_push addrs_done_def us_def used_addrs_def)
  have len: "length us \<le> SI_NUM_STREAMS"
    using order_trans [OF length_filter_le order_trans [OF window_distinct(3) win(1)], of "used_addr (cur, prev)"]
    by (simp add: us_def used_addrs_def SI_NUM_ADDRS_def SI_NUM_STREAMS_def)
  then have lens: "length ?sc \<le> SI_NUM_STREAMS" "length ?tg \<le> SI_NUM_STREAMS"
    using length_filter_le order_trans by blast+
  obtain xs where xs: "mset xs = mset us" "sorted_wrt (\<lambda>i j. rcmp_addr_txpkt (aget (shm_addrs seg) i) (aget (shm_addrs seg) j) \<le> 0) xs"
      "\<And>ex. report_addrs rcmp_addr_txpkt SortByTxPkt flags seg us ex = fold_r (report seg) (addr_calls SortByTxPkt flags xs) ex"
    by (rule report_addrs_sorted [OF orders(4) len, where seg = seg and k = SortByTxPkt and flags = flags]) (rule that)
  obtain ys where ys: "mset ys = mset ?sc" "sorted_wrt (\<lambda>i j. rcmp_addr_scanned_ports (aget (shm_addrs seg) i) (aget (shm_addrs seg) j) \<le> 0) ys"
      "\<And>ex. (if ?sc = [] then Inr ex else report_addrs rcmp_addr_scanned_ports SortByScannedPorts flags seg ?sc ex) =
        fold_r (report seg) (addr_calls SortByScannedPorts flags ys) ex"
    by (rule report_addrs_sorted [OF orders(5) lens(1), where seg = seg and k = SortByScannedPorts and flags = flags]) (rule that)
  obtain zs where zs: "mset zs = mset ?tg" "sorted_wrt (\<lambda>i j. rcmp_addr_served_ports (aget (shm_addrs seg) i) (aget (shm_addrs seg) j) \<le> 0) zs"
      "\<And>ex. (if ?tg = [] then Inr ex else report_addrs rcmp_addr_served_ports SortByServedPorts flags seg ?tg ex) =
        fold_r (report seg) (addr_calls SortByServedPorts flags zs) ex"
    by (rule report_addrs_sorted [OF orders(6) lens(2), where seg = seg and k = SortByServedPorts and flags = flags]) (rule that)
  obtain prev1 where d: "addrs_done flags p (cur, prev) = (seg, prev1)" by (metis prod.collapse seg_def)
  have "process_addrs2 flags p (cur, prev) ex =
      bind_r (fold_r (report seg) (addr_calls SortByTxPkt flags xs) ex) (\<lambda>ex1.
      bind_r (fold_r (report seg) (addr_calls SortByScannedPorts flags ys) ex1) (\<lambda>ex2.
      bind_r (fold_r (report seg) (addr_calls SortByServedPorts flags zs) ex2) (\<lambda>ex3.
        Inr (addrs_done flags p (cur, prev), ex3))))" for ex
    unfolding process_addrs2_def loop d bind_r_simps prod.case xs(3) ys(3) zs(3) ..
  then have "process_addrs2 flags p (cur, prev) ex =
      bind_r (fold_r (report seg) (addr_calls SortByTxPkt flags xs @ addr_calls SortByScannedPorts flags ys @ addr_calls SortByServedPorts flags zs) ex)
        (\<lambda>ex'. Inr (addrs_done flags p (cur, prev), ex'))" for ex
    by (simp add: fold_r_append bind_r_assoc)
  with xs(1,2) ys(1,2) zs(1,2) show ?thesis unfolding rcmp_le_zero by blast
qed

subsection \<open>The report is completed\<close>

definition window_in :: "mga_info_t \<Rightarrow> nat \<Rightarrow> bool" where
  "window_in p n \<longleftrightarrow> idx_lo p \<le> idx_hi p \<and> unat (idx_hi p) \<le> n"

text \<open>A segment that can be reported: its windows lie in the tables and its streams refer to addresses.\<close>

definition reportable :: "sharedif_t \<Rightarrow> bool" where
  "reportable shm \<longleftrightarrow> copy_wf shm \<and> window_in (stream_indexes shm) SI_NUM_STREAMS \<and>
     window_in (addr_lan_indexes shm) (SI_NUM_ADDRS div 2) \<and> window_in (addr_wan_indexes shm) SI_NUM_ADDRS \<and> streams_ok shm"

text \<open>The memory for the reports is there.\<close>

definition minute_ready :: "stat_state \<Rightarrow> bool" where
  "minute_ready sp \<longleftrightarrow> ex_heap (sp_export sp) \<and> \<not> ex_initialized (sp_export sp) \<and>
     (\<exists>copy prev. shm_copy sp = Some copy \<and> copy_wf copy \<and> shm_last sp = Some prev \<and> copy_wf prev)"

lemma window_bounds:
  assumes "window_in p n" "n < 2 ^ 32 - 1" "i \<in> set (window_of p)"
  shows "unat (idx_lo p) \<le> i" "i < unat (idx_hi p)"
proof -
  have le: "unat (idx_lo p) \<le> unat (idx_hi p)" "unat (idx_hi p) \<le> n" using assms(1) by (simp_all add: window_in_def word_le_nat_alt)
  then have "unat (idx_lo p + 1) = unat (idx_lo p) + 1"
    using assms(2) by (intro unat_plus1) simp
  then show "unat (idx_lo p) \<le> i" "i < unat (idx_hi p)" using assms(3) by (simp_all add: window_of_def)
qed

lemma copy_segment_ok:
  assumes "reportable shm" "copy_wf copy"
  shows "\<exists>cur. copy_segment shm copy = Inr cur \<and> copy_wf cur \<and> stream_indexes cur = stream_indexes shm \<and>
    addr_lan_indexes cur = addr_lan_indexes shm \<and> addr_wan_indexes cur = addr_wan_indexes shm \<and>
    (\<forall>i \<in> set (window_of (stream_indexes shm)). aget (shm_streams cur) i = aget (shm_streams shm) i)"
proof -
  have w: "window_in (stream_indexes shm) SI_NUM_STREAMS" "window_in (addr_lan_indexes shm) SI_NUM_ADDRS"
    "window_in (addr_wan_indexes shm) SI_NUM_ADDRS" "copy_wf shm"
    using assms(1) by (auto simp: reportable_def window_in_def)
  have in': "unat (idx_lo (stream_indexes shm)) \<le> i \<and> i < unat (idx_hi (stream_indexes shm))" if "i \<in> set (window_of (stream_indexes shm))" for i
    using window_bounds [OF w(1) _ that] by (simp add: SI_NUM_STREAMS_def)
  show ?thesis
    using w assms(2) in' by (simp add: copy_segment_def copy_window_def copy_wf_def window_in_def word_le_nat_alt Let_def)
qed

lemma used_streams_copy:
  assumes "stream_indexes cur = stream_indexes shm"
    "\<forall>i \<in> set (window_of (stream_indexes shm)). aget (shm_streams cur) i = aget (shm_streams shm) i"
  shows "used_streams cur = used_streams shm" "streams_ok shm \<Longrightarrow> streams_ok cur"
proof -
  show "used_streams cur = used_streams shm"
    unfolding used_streams_def assms(1) using assms(2) by (intro filter_cong refl) (simp add: used_stream_def)
  show "streams_ok shm \<Longrightarrow> streams_ok cur" using assms by (simp add: streams_ok_def used_stream_def)
qed

text \<open>What processing keeps of a working copy.\<close>

definition same_shape :: "sharedif_t \<times> sharedif_t \<Rightarrow> sharedif_t \<times> sharedif_t \<Rightarrow> bool" where
  "same_shape cp cp' \<longleftrightarrow> (copy_wf (fst cp) \<and> copy_wf (snd cp) \<longrightarrow> copy_wf (fst cp') \<and> copy_wf (snd cp')) \<and>
     addr_lan_indexes (fst cp') = addr_lan_indexes (fst cp) \<and> addr_wan_indexes (fst cp') = addr_wan_indexes (fst cp)"

lemma fold_same_shape:
  assumes "\<And>i cp. same_shape cp (f i cp)"
  shows "same_shape cp (fold f xs cp)"
proof (induction xs arbitrary: cp)
  case (Cons x xs)
  have "same_shape cp (f x cp)" "same_shape (f x cp) (fold f xs (f x cp))" by (rule assms, rule Cons)
  then show ?case by (simp add: same_shape_def)
qed (simp add: same_shape_def)

lemma shapes:
  "same_shape cp (fold stream_upd us cp)" "same_shape cp (protos_done cp)" "same_shape cp (addrs_done flags p cp)"
  unfolding protos_done_def addrs_done_def
  by (rule fold_same_shape; auto simp: same_shape_def stream_upd_def proto_upd_def addr_upd_def marked_def copy_wf_def Let_def)+

lemma streams_done: "(streams_cur cur prev, streams_prev cur prev) = fold stream_upd (used_streams cur) (cur, prev)"
  by (simp add: streams_cur_def streams_prev_def fold_stream_upd used_streams_def)

text \<open>No call changes the flags of the export.\<close>

lemma append_flags:
  "append_addrs l ex = Inr ex' \<Longrightarrow> ex_initialized ex' = ex_initialized ex"
  "append_streams l ex = Inr ex' \<Longrightarrow> ex_initialized ex' = ex_initialized ex"
  "append_stats l ex = Inr ex' \<Longrightarrow> ex_initialized ex' = ex_initialized ex"
  by (auto simp: append_addrs_def append_streams_def append_stats_def c_simps split: option.splits)

lemma note_addr_flags: "note_addr seg i ex = Inr ex' \<Longrightarrow> ex_initialized ex' = ex_initialized ex"
  by (auto simp: note_addr_def seen_addr_def on_new_addr_def c_simps split: if_splits dest!: append_flags)

lemma note_stream_flags: "note_stream seg i l r ex = Inr ex' \<Longrightarrow> ex_initialized ex' = ex_initialized ex"
  by (auto simp: note_stream_def seen_stream_def on_new_stream_def c_simps split: if_splits dest!: append_flags note_addr_flags)

lemma report_flags: "report seg c ex = Inr ex' \<Longrightarrow> ex_initialized ex' = ex_initialized ex"
  by (cases c) (auto simp: on_topn_stream_def on_topn_protocol_def on_topn_address_def c_simps Let_def
      split: if_splits dest!: append_flags note_addr_flags note_stream_flags)

text \<open>
  While nothing is reported about a stream the buffer of streams is as it was allocated, and so is that of
  addresses while there is no address.
\<close>

definition quiet :: "export_state \<Rightarrow> bool" where
  "quiet ex \<longleftrightarrow> ex_streams ex = [] \<and> sbuf_streams ex = sbuf_new True 8192 \<and> (ex_addrs ex = [] \<longrightarrow> sbuf_addrs ex = sbuf_new True 8192)"

lemma out_append_frame:
  "append_addrs l ex = Inr ex' \<Longrightarrow> sbuf_streams ex' = sbuf_streams ex \<and> ex_streams ex' = ex_streams ex \<and> ex_addrs ex' = ex_addrs ex"
  "append_stats l ex = Inr ex' \<Longrightarrow> sbuf_streams ex' = sbuf_streams ex \<and> ex_streams ex' = ex_streams ex \<and> ex_addrs ex' = ex_addrs ex \<and>
     sbuf_addrs ex' = sbuf_addrs ex"
  by (auto simp: append_addrs_def append_stats_def c_simps split: option.splits)

lemma append_stats_quiet: "append_stats l ex = Inr ex' \<Longrightarrow> quiet ex' = quiet ex"
  using out_append_frame(2) by (simp add: quiet_def)

lemma note_addr_quiet: "note_addr seg i ex = Inr ex' \<Longrightarrow> quiet ex \<Longrightarrow> quiet ex'"
  by (auto simp: quiet_def note_addr_def seen_addr_def on_new_addr_def c_simps split: if_splits dest!: out_append_frame(1))

lemma report_quiet:
  assumes "report seg c ex = Inr ex'" "\<not> is_stream c" "quiet ex"
  shows "quiet ex'"
  using assms
  by (cases c) (auto simp: on_topn_protocol_def on_topn_address_def c_simps Let_def append_stats_quiet
      split: if_splits dest: note_addr_quiet)

lemma top_n_bounds: "length (top_n n ptrs) \<le> n" "(i, p) \<in> set (top_n n ptrs) \<Longrightarrow> i < n" "ptrs \<noteq> [] \<Longrightarrow> 0 < n \<Longrightarrow> top_n n ptrs \<noteq> []"
  by (auto simp: top_n_def dest: set_zip_leftD)

lemma call_bounds:
  "length (stream_calls k seg ptrs) \<le> 20" "length (proto_calls seg ptrs) \<le> 20" "length (addr_calls k f ptrs) \<le> 10"
  "\<forall>c \<in> set (stream_calls k seg ptrs). call_pos c < 1000" "\<forall>c \<in> set (proto_calls seg ptrs). call_pos c < 1000"
  "\<forall>c \<in> set (addr_calls k f ptrs). call_pos c < 1000"
  "ptrs \<noteq> [] \<Longrightarrow> \<exists>c \<in> set (stream_calls k seg ptrs). is_stream c"
  using top_n_bounds(1) [of 20 ptrs] top_n_bounds(1) [of 10 ptrs] top_n_bounds(3) [of ptrs 20]
  by (fastforce simp: stream_calls_def proto_calls_def addr_calls_def NUM_TOPN_STREAMS_def TOPN_PROTOS_def neq_Nil_conv dest: top_n_bounds(2))+

lemma call_kinds:
  "\<forall>c \<in> set (proto_calls seg ptrs). \<not> is_stream c" "\<forall>c \<in> set (addr_calls k f ptrs). \<not> is_stream c"
  "stream_calls k seg [] = []"
  by (auto simp: stream_calls_def proto_calls_def addr_calls_def top_n_def)

text \<open>One part of a report.\<close>

lemma stage_ok:
  assumes "reported n ex" "n + length cs \<le> m" "m \<le> 500" "\<forall>c \<in> set cs. call_pos c < 1000"
  obtains ex' n' where "fold_r (report seg) cs ex = Inr ex'" "reported n' ex'" "n' \<le> m"
    "ex_streams ex \<noteq> [] \<or> (\<exists>c \<in> set cs. is_stream c) \<longrightarrow> ex_streams ex' \<noteq> []" "ex_initialized ex' = ex_initialized ex"
    "quiet ex \<and> (\<forall>c \<in> set cs. \<not> is_stream c) \<longrightarrow> quiet ex'"
proof -
  have "n + length cs \<le> 500" using assms(2,3) by simp
  from reports_ok [OF assms(1) this assms(4), of seg] obtain ex' where
    ex': "fold_r (report seg) cs ex = Inr ex'" "reported (n + length cs) ex'"
      "ex_streams ex \<noteq> [] \<or> (\<exists>c \<in> set cs. is_stream c) \<longrightarrow> ex_streams ex' \<noteq> []" by blast
  have "ex_initialized ex' = ex_initialized ex"
    using fold_r_keeps [of cs "\<lambda>e. ex_initialized e = ex_initialized ex" "report seg" ex ex'] ex'(1) report_flags by fastforce
  moreover have "quiet ex \<and> (\<forall>c \<in> set cs. \<not> is_stream c) \<longrightarrow> quiet ex'"
    using fold_r_keeps [of cs quiet "report seg" ex ex'] ex'(1) report_quiet by blast
  ultimately show ?thesis using ex' assms(2) that by blast
qed

lemma reported_print [simp]:
  "reported n (print s ex) = reported n ex" "ex_streams (print s ex) = ex_streams ex" "ex_initialized (print s ex) = ex_initialized ex"
  "ex_heap (print s ex) = ex_heap ex"
  by (simp_all add: reported_def period_def ex_text_def print_def)

lemma close_reported:
  assumes "reported n ex" "ex_streams ex \<noteq> []"
  obtains ex' where "on_stat_period_close secs ex = Inr ex'" "ex_heap ex'" "ex_initialized ex' = ex_initialized ex"
proof -
  from assms have p: "period (2 * n) n (2 * n) ex" "ex_addrs ex \<noteq> []" by (simp_all add: reported_def)
  then obtain ta ts tt where t: "ex_text ex ta ts tt" "ta \<noteq> []" "ts \<noteq> []" "tt \<noteq> []" "ex_heap ex"
    using assms(2) by (elim periodE) (auto simp: ex_text_def)
  from close_ok [OF t(1-4), of secs] obtain ex' where ex': "on_stat_period_close secs ex = Inr ex'" by blast
  moreover have "ex_heap ex' = ex_heap ex \<and> ex_initialized ex' = ex_initialized ex"
    using ex' by (auto simp: on_stat_period_close_def puts_sbuf_def c_simps Let_def split: option.splits)
  ultimately show ?thesis using that t(5) by simp
qed

text \<open>The parts of a report one after the other.\<close>

lemma streams_stage:
  assumes "copy_wf cur" "copy_wf prev" "streams_ok cur" "reported 0 ex"
  obtains cp ex' n where "process_streams (cur, prev) ex = Inr (cp, ex')" "same_shape (cur, prev) cp" "reported n ex'" "n \<le> 40"
    "used_streams cur \<noteq> [] \<longrightarrow> ex_streams ex' \<noteq> []" "ex_initialized ex' = ex_initialized ex" "used_streams cur = [] \<and> quiet ex \<longrightarrow> quiet ex'"
proof -
  let ?seg = "streams_cur cur prev"
  obtain ys zs where p: "mset ys = mset (used_streams cur)" "mset zs = mset (used_streams cur)"
    "\<forall>ex. process_streams (cur, prev) ex = bind_r (fold_r (report ?seg) (stream_calls SortByPkt ?seg ys @ stream_calls SortByBytes ?seg zs) ex)
        (\<lambda>ex'. Inr ((?seg, streams_prev cur prev), ex'))"
    using process_streams_eq [OF assms(1-3)] by blast
  let ?cs = "stream_calls SortByPkt ?seg ys @ stream_calls SortByBytes ?seg zs"
  have st: "used_streams cur \<noteq> [] \<longrightarrow> (\<exists>c \<in> set ?cs. is_stream c)" using p(1) call_bounds(7) [of ys SortByPkt ?seg] by (cases "ys = []") auto
  have no: "used_streams cur = [] \<longrightarrow> ?cs = []" using p(1,2) call_kinds(3) by auto
  have len: "0 + length ?cs \<le> 40" using call_bounds(1) [of SortByPkt ?seg ys] call_bounds(1) [of SortByBytes ?seg zs] by simp
  have pos: "\<forall>c \<in> set ?cs. call_pos c < 1000" using call_bounds(4) by auto
  obtain ex' n where r: "fold_r (report ?seg) ?cs ex = Inr ex'" "reported n ex'" "n \<le> 40"
    "ex_streams ex \<noteq> [] \<or> (\<exists>c \<in> set ?cs. is_stream c) \<longrightarrow> ex_streams ex' \<noteq> []" "ex_initialized ex' = ex_initialized ex"
    "quiet ex \<and> (\<forall>c \<in> set ?cs. \<not> is_stream c) \<longrightarrow> quiet ex'"
    by (rule stage_ok [OF assms(4) len _ pos]) simp
  have "process_streams (cur, prev) ex = Inr ((?seg, streams_prev cur prev), ex')" using p(3) r(1) by simp
  moreover have "same_shape (cur, prev) (?seg, streams_prev cur prev)"
    unfolding streams_done by (rule shapes(1))
  moreover have "used_streams cur \<noteq> [] \<longrightarrow> ex_streams ex' \<noteq> []" "used_streams cur = [] \<and> quiet ex \<longrightarrow> quiet ex'"
    using r(4,6) st no by auto
  ultimately show ?thesis using that r(2,3,5) by blast
qed

lemma protocols_stage:
  assumes "copy_wf (fst cp)" "copy_wf (snd cp)" "reported n ex" "n \<le> 40"
  obtains ex' m where "process_protocols cp ex = Inr (protos_done cp, ex')" "reported m ex'" "m \<le> 60"
    "ex_streams ex \<noteq> [] \<longrightarrow> ex_streams ex' \<noteq> []" "ex_initialized ex' = ex_initialized ex" "quiet ex \<longrightarrow> quiet ex'"
proof -
  let ?seg = "fst (protos_done cp)"
  obtain ys where p: "\<forall>ex. process_protocols cp ex = bind_r (fold_r (report ?seg) (proto_calls ?seg ys) ex) (\<lambda>ex'. Inr (protos_done cp, ex'))"
    using process_protocols_eq [OF assms(1,2)] by auto
  have "n + length (proto_calls ?seg ys) \<le> 60" using call_bounds(2) [of ?seg ys] assms(4) by simp
  then obtain ex' m where "fold_r (report ?seg) (proto_calls ?seg ys) ex = Inr ex'" "reported m ex'" "m \<le> 60"
    "ex_streams ex \<noteq> [] \<longrightarrow> ex_streams ex' \<noteq> []" "ex_initialized ex' = ex_initialized ex" "quiet ex \<longrightarrow> quiet ex'"
    using stage_ok [OF assms(3) _ _ call_bounds(5), of ?seg ys 60 ?seg] call_kinds(1) [of ?seg ys] by auto
  then show ?thesis using that p by simp
qed

lemma addrs_stage:
  assumes "copy_wf (fst cp)" "copy_wf (snd cp)" "unat (idx_hi p) \<le> SI_NUM_ADDRS" "lan_pass flags \<longrightarrow> unat (idx_hi p) \<le> SI_NUM_ADDRS div 2"
    "reported n ex" "n \<le> k" "k \<le> 100"
  obtains ex' m where "process_addrs2 flags p cp ex = Inr (addrs_done flags p cp, ex')" "reported m ex'" "m \<le> k + 30"
    "ex_streams ex \<noteq> [] \<longrightarrow> ex_streams ex' \<noteq> []" "ex_initialized ex' = ex_initialized ex" "quiet ex \<longrightarrow> quiet ex'"
proof -
  let ?seg = "fst (addrs_done flags p cp)"
  obtain xs ys zs where p: "\<forall>ex. process_addrs2 flags p cp ex =
      bind_r (fold_r (report ?seg) (addr_calls SortByTxPkt flags xs @ addr_calls SortByScannedPorts flags ys @ addr_calls SortByServedPorts flags zs) ex)
        (\<lambda>ex'. Inr (addrs_done flags p cp, ex'))"
    using process_addrs2_eq [OF assms(1-4)] by auto
  let ?cs = "addr_calls SortByTxPkt flags xs @ addr_calls SortByScannedPorts flags ys @ addr_calls SortByServedPorts flags zs"
  have "n + length ?cs \<le> k + 30" "k + 30 \<le> 500"
    using call_bounds(3) [of SortByTxPkt flags xs] call_bounds(3) [of SortByScannedPorts flags ys] call_bounds(3) [of SortByServedPorts flags zs] assms(6,7)
    by simp_all
  moreover have "\<forall>c \<in> set ?cs. call_pos c < 1000" using call_bounds(6) by auto
  moreover have "\<forall>c \<in> set ?cs. \<not> is_stream c" using call_kinds(2) by auto
  ultimately obtain ex' m where "fold_r (report ?seg) ?cs ex = Inr ex'" "reported m ex'" "m \<le> k + 30"
    "ex_streams ex \<noteq> [] \<longrightarrow> ex_streams ex' \<noteq> []" "ex_initialized ex' = ex_initialized ex" "quiet ex \<longrightarrow> quiet ex'"
    using stage_ok [OF assms(5), of ?cs "k + 30" ?seg] by metis
  then show ?thesis using that p by simp
qed

lemma same_shapeD:
  assumes "same_shape cp cp'" "copy_wf (fst cp)" "copy_wf (snd cp)"
  shows "copy_wf (fst cp')" "copy_wf (snd cp')" "addr_lan_indexes (fst cp') = addr_lan_indexes (fst cp)" "addr_wan_indexes (fst cp') = addr_wan_indexes (fst cp)"
  using assms by (simp_all add: same_shape_def)

lemma process_all_ok:
  assumes wf: "copy_wf cur" "copy_wf prev" and st: "streams_ok cur"
    and win: "unat (idx_hi (addr_lan_indexes cur)) \<le> SI_NUM_ADDRS div 2" "unat (idx_hi (addr_wan_indexes cur)) \<le> SI_NUM_ADDRS"
    and ex: "reported 0 ex"
  obtains cp1 ex1 cp2 ex2 cp3 ex3 n where "process_streams (cur, prev) ex = Inr (cp1, ex1)" "process_protocols cp1 ex1 = Inr (cp2, ex2)"
    "process_addrs cp2 ex2 = Inr (cp3, ex3)" "copy_wf (fst cp3)" "copy_wf (snd cp3)" "reported n ex3"
    "used_streams cur \<noteq> [] \<longrightarrow> ex_streams ex3 \<noteq> []" "ex_initialized ex3 = ex_initialized ex" "used_streams cur = [] \<and> quiet ex \<longrightarrow> quiet ex3"
proof -
  obtain cp1 ex1 n1 where 1: "process_streams (cur, prev) ex = Inr (cp1, ex1)" "same_shape (cur, prev) cp1" "reported n1 ex1" "n1 \<le> 40"
      "used_streams cur \<noteq> [] \<longrightarrow> ex_streams ex1 \<noteq> []" "ex_initialized ex1 = ex_initialized ex" "used_streams cur = [] \<and> quiet ex \<longrightarrow> quiet ex1"
    by (rule streams_stage [OF wf st ex])
  note s1 = same_shapeD [OF 1(2), simplified, OF wf]
  obtain ex2 n2 where 2: "process_protocols cp1 ex1 = Inr (protos_done cp1, ex2)" "reported n2 ex2" "n2 \<le> 60"
      "ex_streams ex1 \<noteq> [] \<longrightarrow> ex_streams ex2 \<noteq> []" "ex_initialized ex2 = ex_initialized ex1" "quiet ex1 \<longrightarrow> quiet ex2"
    by (rule protocols_stage [OF s1(1,2) 1(3,4)])
  note s2 = same_shapeD [OF shapes(2) s1(1,2)]
  let ?p = "addr_lan_indexes cur" and ?q = "addr_wan_indexes cur" and ?f = "ucast FLOW_TYPE_INTERNAL :: u32"
  have lan: "unat (idx_hi ?p) \<le> SI_NUM_ADDRS" "lan_pass ?f \<longrightarrow> unat (idx_hi ?p) \<le> SI_NUM_ADDRS div 2" using win(1) by simp_all
  have wan: "lan_pass 0 \<longrightarrow> unat (idx_hi ?q) \<le> SI_NUM_ADDRS div 2" by (simp add: lan_pass_def FLOW_TYPE_INTERNAL_def)
  obtain ex3 n3 where 3: "process_addrs2 ?f ?p (protos_done cp1) ex2 = Inr (addrs_done ?f ?p (protos_done cp1), ex3)" "reported n3 ex3" "n3 \<le> 60 + 30"
      "ex_streams ex2 \<noteq> [] \<longrightarrow> ex_streams ex3 \<noteq> []" "ex_initialized ex3 = ex_initialized ex2" "quiet ex2 \<longrightarrow> quiet ex3"
    by (rule addrs_stage [OF s2(1,2) lan 2(2,3)]) simp
  note s3 = same_shapeD [OF shapes(3) [of _ ?f ?p] s2(1,2)]
  let ?cp = "addrs_done ?f ?p (protos_done cp1)"
  obtain ex4 n4 where 4: "process_addrs2 0 ?q ?cp ex3 = Inr (addrs_done 0 ?q ?cp, ex4)" "reported n4 ex4" "n4 \<le> 60 + 30 + 30"
      "ex_streams ex3 \<noteq> [] \<longrightarrow> ex_streams ex4 \<noteq> []" "ex_initialized ex4 = ex_initialized ex3" "quiet ex3 \<longrightarrow> quiet ex4"
    by (rule addrs_stage [OF s3(1,2) win(2) wan 3(2,3)]) simp
  note s4 = same_shapeD [OF shapes(3) [of _ 0 ?q] s3(1,2)]
  have "process_addrs (protos_done cp1) ex2 = Inr (addrs_done 0 ?q ?cp, ex4)"
    using 3(1) 4(1) s1(3,4) s2(3,4) s3(3,4) by (simp add: process_addrs_def)
  then show ?thesis using that 1(1,5-7) 2(1,4-6) 3(4-6) 4(2,4-6) s4(1,2) by simp
qed

text \<open>The state after a report at second \<open>ts\<close>.\<close>

definition minute_done :: "u32 \<Rightarrow> sharedif_t \<Rightarrow> sharedif_t \<Rightarrow> export_state \<Rightarrow> stat_state \<Rightarrow> stat_state" where
  "minute_done ts copy prev ex sp =
     sp\<lparr>gProfileNumMins := gProfileNumMins sp + 1, shm_copy := Some copy, shm_last := Some prev, last_min_packets := 0,
        last_min_bytes := 0, tlast_min := ts div 60 * 60, sec_i := int (unat (ts mod 60)), sp_export := ex\<rparr>"

text \<open>The report up to its end, with a segment that has streams or not.\<close>

lemma minute_processed:
  fixes ts :: u32
  assumes ready: "minute_ready sp" and seg: "reportable shm"
  defines "t \<equiv> if ts = 0 then tlast_min sp + 60 else ts"
  obtains copy prev ex n where "copy_wf copy" "copy_wf prev" "reported n ex" "used_streams shm \<noteq> [] \<longrightarrow> ex_streams ex \<noteq> []"
    "\<not> ex_initialized ex" "used_streams shm = [] \<longrightarrow> quiet ex"
    "check_minute ts shm sp = bind_r (on_stat_period_close 60 ex) (\<lambda>ex'. Inr (minute_done t copy prev ex' sp))"
proof -
  obtain copy0 prev0 where c: "shm_copy sp = Some copy0" "copy_wf copy0" "shm_last sp = Some prev0" "copy_wf prev0"
    and e: "ex_heap (sp_export sp)" "\<not> ex_initialized (sp_export sp)"
    using ready by (auto simp: minute_ready_def)
  obtain cur where cur: "copy_segment shm copy0 = Inr cur" "copy_wf cur" "stream_indexes cur = stream_indexes shm"
      "addr_lan_indexes cur = addr_lan_indexes shm" "addr_wan_indexes cur = addr_wan_indexes shm"
      "\<forall>i \<in> set (window_of (stream_indexes shm)). aget (shm_streams cur) i = aget (shm_streams shm) i"
    using copy_segment_ok [OF seg c(2)] by blast
  have st: "streams_ok cur" "used_streams cur = used_streams shm"
    using used_streams_copy [OF cur(3,6)] seg by (simp_all add: reportable_def)
  have win: "unat (idx_hi (addr_lan_indexes cur)) \<le> SI_NUM_ADDRS div 2" "unat (idx_hi (addr_wan_indexes cur)) \<le> SI_NUM_ADDRS"
    using seg cur(4,5) by (simp_all add: reportable_def window_in_def)
  define ex4 where "ex4 = print (''STAT,I,streams:'' @ dec_int (sint (num_entries (stream_indexes cur))) @ '',lanaddrs:'' @
        dec_int (sint (num_entries (addr_lan_indexes cur))) @ '',wanaddrs:'' @
        dec_int (sint (num_entries (addr_wan_indexes cur))) @ [LF])
      (print (PRINT_SEC 3 (sec_flows sp) @ PRINT_SEC 1 (sec_flows sp) @ PRINT_SEC 2 (sec_flows sp) @
         PRINT_SEC 0 (sec_flows sp) @ PRINT_SEC 4 (sec_flows sp))
      (print (''STAT,T,'' @ dec (unat (last_min_packets sp)) @ '','' @ dec (unat (last_min_bytes sp)) @ [LF])
      (on_stat_period_open t (sec_i sp) (sp_export sp))))"
  have ex4: "reported 0 ex4" "ex_initialized ex4 = ex_initialized (sp_export sp)" "quiet ex4"
    using open_reported(1) [OF e] e
    by (simp_all add: ex4_def) (simp_all add: quiet_def print_def on_stat_period_open_def Let_def)
  obtain cp1 ex5 cp2 ex6 cp3 ex7 n where p: "process_streams (cur, prev0) ex4 = Inr (cp1, ex5)" "process_protocols cp1 ex5 = Inr (cp2, ex6)"
      "process_addrs cp2 ex6 = Inr (cp3, ex7)" "copy_wf (fst cp3)" "copy_wf (snd cp3)" "reported n ex7"
      "used_streams cur \<noteq> [] \<longrightarrow> ex_streams ex7 \<noteq> []" "ex_initialized ex7 = ex_initialized ex4" "used_streams cur = [] \<and> quiet ex4 \<longrightarrow> quiet ex7"
    by (rule process_all_ok [OF cur(2) c(4) st(1) win ex4(1)])
  have "check_minute ts shm sp = bind_r (on_stat_period_close 60 ex7) (\<lambda>ex'. Inr (minute_done t (fst cp3) (snd cp3) ex' sp))"
    unfolding check_minute_def Let_def t_def [symmetric] c(1,3) deref_seg_def option.case bind_r_simps cur(1) ex4_def [symmetric]
      p(1-3) prod.case minute_done_def ..
  with p(4-9) ex4(2,3) e(2) st(2) show ?thesis by (intro that [of "fst cp3" "snd cp3" n ex7]) simp_all
qed

lemma minute_ok:
  fixes ts :: u32
  assumes "minute_ready sp" "reportable shm" "used_streams shm \<noteq> []"
  defines "t \<equiv> if ts = 0 then tlast_min sp + 60 else ts"
  obtains copy prev ex where "check_minute ts shm sp = Inr (minute_done t copy prev ex sp)" "minute_ready (minute_done t copy prev ex sp)"
proof -
  obtain copy prev ex n where p: "copy_wf copy" "copy_wf prev" "reported n ex" "ex_streams ex \<noteq> []" "\<not> ex_initialized ex"
    "check_minute ts shm sp = bind_r (on_stat_period_close 60 ex) (\<lambda>ex'. Inr (minute_done t copy prev ex' sp))"
    using minute_processed [OF assms(1,2), of ts] assms(3) unfolding t_def by metis
  obtain ex' where cl: "on_stat_period_close 60 ex = Inr ex'" "ex_heap ex'" "ex_initialized ex' = ex_initialized ex"
    by (rule close_reported [OF p(3,4)])
  have "minute_ready (minute_done t copy prev ex' sp)" using cl p(1,2,5) by (simp add: minute_ready_def minute_done_def)
  then show ?thesis using that p(6) cl(1) by simp
qed

lemma quiet_close:
  assumes "reported n ex" "quiet ex"
  shows "on_stat_period_close secs ex = Inl Uninit"
proof -
  obtain b where b: "sbuf_new True 8192 = Some b" "c_string (sbuf_to_s b) = Inl Uninit"
    by (simp add: sbuf_new_def sbuf_to_s_def c_string_fresh)
  from assms(1) obtain ta ts tt where t: "ex_text ex ta ts tt" "ex_addrs ex = [] \<longleftrightarrow> ta = []"
    unfolding reported_def by (elim conjE periodE) blast
  then obtain ba where ba: "sbuf_addrs ex = Some ba" "report_text ba ta" by (auto simp: ex_text_def)
  have fail: "puts_sbuf (Some b) e = Inl Uninit" for e using b(2) by (simp add: puts_sbuf_def)
  have frame: "sbuf_addrs (print s e) = sbuf_addrs e" "sbuf_streams (print s e) = sbuf_streams e" for s e by (simp_all add: print_def)
  have bs: "sbuf_streams ex = Some b" "ta = [] \<longrightarrow> sbuf_addrs ex = Some b" using assms(2) t(2) b(1) by (simp_all add: quiet_def)
  show ?thesis
    using bs ba(1) puts_text [OF ba(2)]
    by (cases "ta = []") (simp_all add: on_stat_period_close_def frame fail Let_def)
qed

lemma minute_empty:
  assumes "minute_ready sp" "reportable shm" "used_streams shm = []"
  shows "check_minute ts shm sp = Inl Uninit"
proof -
  obtain copy prev ex n where "reported n ex" "quiet ex"
    "check_minute ts shm sp = bind_r (on_stat_period_close 60 ex)
       (\<lambda>ex'. Inr (minute_done (if ts = 0 then tlast_min sp + 60 else ts) copy prev ex' sp))"
    using minute_processed [OF assms(1,2), of ts] assms(3) by metis
  then show ?thesis using quiet_close by simp
qed

subsection \<open>Ports of an address\<close>

lemma marked_at:
  "internal (aget (marked s as) j) = internal (aget as j)"
  "internal (aget as j) \<noteq> 0 \<Longrightarrow>
    resvd (aget (marked s as) j) = (if unat (idx_left s) = j then set_port_bit (resvd (aget as j)) (si_rport s) else resvd (aget as j))"
  "internal (aget as j) \<noteq> 0 \<Longrightarrow>
    resvd2 (aget (marked s as) j) = (if unat (idx_right s) = j then set_port_bit (resvd2 (aget as j)) (si_rport s) else resvd2 (aget as j))"
  by (auto simp: marked_def mark_left_def mark_right_def mark_dest_port_def mark_serve_port_def Let_def)

lemma marked_ports:
  assumes "internal (aget as j) \<noteq> 0"
  shows "resvd (aget (fold marked ss as) j) =
      fold (\<lambda>p m. set_port_bit m p) (map si_rport (filter (\<lambda>s. unat (idx_left s) = j) ss)) (resvd (aget as j))"
    "resvd2 (aget (fold marked ss as) j) =
      fold (\<lambda>p m. set_port_bit m p) (map si_rport (filter (\<lambda>s. unat (idx_right s) = j) ss)) (resvd2 (aget as j))"
  using assms by (induction ss arbitrary: as) (simp_all add: marked_at)

lemma count_marked: "count_bits16 (fold (\<lambda>p m. set_port_bit m p) ports 0) = of_nat (card (set ports \<inter> set BF_PORTS))"
  by (simp add: count_bits16_card bit_marked_ports card_marked_ports)

subsection \<open>Properties\<close>

text \<open>Two streams between a local and a remote address, and the statistics before and after their start.\<close>

definition demo_stream :: "u32 \<Rightarrow> u32 \<Rightarrow> u16 \<Rightarrow> stream_info_t" where
  "demo_stream n len port = zero_stream_info\<lparr>si_tstart := \<lparr>tv_sec = 1, tv_usec = 0\<rparr>, packets := n, bytes := len, idx_left := 127,
     idx_right := 8320, si_rport := port\<rparr>"

definition demo_shm :: sharedif_t where
  "demo_shm = zero_sharedif\<lparr>
     stream_indexes := \<lparr>num_entries = 2, idx_lo = 16383, idx_hi = 16386\<rparr>,
     shm_streams := (shm_streams zero_sharedif)\<lparr>aget := (\<lambda>i. if i = 16384 then demo_stream 3 900 443
       else if i = 16385 then demo_stream 7 500 53 else zero_stream_info)\<rparr>,
     shm_addrs := (shm_addrs zero_sharedif)\<lparr>aget := (\<lambda>i. if i = 127 then zero_addr_info\<lparr>internal := 1\<rparr> else zero_addr_info)\<rparr>\<rparr>"

definition stat_start :: stat_state where
  "stat_start = \<lparr>sec_flows = replicate 6 (replicate 68 \<lparr>fs_packets = 0, fs_bytes = 0\<rparr>), sec_i = 0,
     stats_last_sec = snapshot zero_sharedif, stats_cur_sec = snapshot zero_sharedif, sp_initialized = False, tlast_min = 0,
     last_min_packets = 0, last_min_bytes = 0, gProfileNumMins = 0, shm_copy = None, shm_last = None, sp_export = export_start\<rparr>"

lemma zero_copy_wf [simp]: "copy_wf zero_sharedif" "copy_wf demo_shm"
  by (simp_all add: copy_wf_def demo_shm_def zero_sharedif_def)

lemma demo_used: "used_streams demo_shm = [16384, 16385]"
proof -
  have "window_of (stream_indexes demo_shm) = [16384, 16385]"
    by (simp add: window_of_def demo_shm_def upt_rec [of 16384] upt_rec [of 16385])
  then show ?thesis by (simp add: used_streams_def used_stream_def demo_shm_def demo_stream_def IS_EMPTY_SLOT_def)
qed

lemma demo_streams_ok: "streams_ok demo_shm"
  by (auto simp: streams_ok_def demo_shm_def used_stream_def refs_ok_def demo_stream_def SI_NUM_STREAMS_def SI_NUM_ADDRS_def
      IS_EMPTY_SLOT_def zero_stream_info_def zero_tval_def)

lemma demo_reportable: "reportable demo_shm" "reportable zero_sharedif"
  using demo_streams_ok
  by (simp_all add: reportable_def window_in_def)
    (simp_all add: demo_shm_def zero_sharedif_def SI_NUM_STREAMS_def streams_ok_def window_of_def)

lemma init_ready: "minute_ready (init_state ts shm stat_start)"
  by (simp add: minute_ready_def init_state_def stat_start_def export_start_def Let_def)

text \<open>
  C14: Processing the streams leaves in the working copy what each stream has counted since the last report, and
  in the other copy the absolute counters, and reports the first twenty of all used streams in descending
  order of their packets and then of their bytes.
\<close>

theorem streams_top_n:
  assumes "copy_wf cur" "copy_wf prev" "streams_ok cur"
  defines "seg \<equiv> streams_cur cur prev"
  shows "\<exists>ys zs. mset ys = mset (used_streams cur) \<and> sorted_wrt (\<lambda>i j. packets (aget (shm_streams seg) j) \<le> packets (aget (shm_streams seg) i)) ys \<and>
    mset zs = mset (used_streams cur) \<and> sorted_wrt (\<lambda>i j. bytes (aget (shm_streams seg) j) \<le> bytes (aget (shm_streams seg) i)) zs \<and>
    (\<forall>ex. process_streams (cur, prev) ex =
      bind_r (fold_r (report seg) (stream_calls SortByPkt seg ys @ stream_calls SortByBytes seg zs) ex)
        (\<lambda>ex'. Inr ((seg, streams_prev cur prev), ex')))"
  using process_streams_eq [OF assms(1-3)] unfolding seg_def by blast

theorem streams_top_n_witness:
  "\<exists>ys zs. mset ys = mset [16384, 16385] \<and> mset zs = mset [16384, 16385 :: nat] \<and>
    process_streams (demo_shm, zero_sharedif) export_start =
      bind_r (fold_r (report (streams_cur demo_shm zero_sharedif)) (stream_calls SortByPkt (streams_cur demo_shm zero_sharedif) ys @
          stream_calls SortByBytes (streams_cur demo_shm zero_sharedif) zs) export_start)
        (\<lambda>ex'. Inr ((streams_cur demo_shm zero_sharedif, streams_prev demo_shm zero_sharedif), ex'))"
  using streams_top_n [of demo_shm zero_sharedif, OF zero_copy_wf(2,1) demo_streams_ok] unfolding demo_used by blast

text \<open>
  C15: The port masks count ports: after the streams have been processed, the number of bits in the mask of a
  local address is the number of different watched ports that its streams of the minute go to, and
  the second mask counts those that are served to others.
\<close>

theorem ports_counted:
  assumes "copy_wf cur" "copy_wf prev" "streams_ok cur" "process_streams (cur, prev) ex = Inr ((cur1, prev1), ex1)"
    and "internal (aget (shm_addrs cur) j) \<noteq> 0" "resvd (aget (shm_addrs cur) j) = 0" "resvd2 (aget (shm_addrs cur) j) = 0"
  defines "ss \<equiv> map (aget (shm_streams cur)) (used_streams cur)"
  shows "count_bits16 (resvd (aget (shm_addrs cur1) j)) = of_nat (card (si_rport ` {s \<in> set ss. unat (idx_left s) = j} \<inter> set BF_PORTS)) \<and>
    count_bits16 (resvd2 (aget (shm_addrs cur1) j)) = of_nat (card (si_rport ` {s \<in> set ss. unat (idx_right s) = j} \<inter> set BF_PORTS))"
proof -
  have "cur1 = streams_cur cur prev" using process_streams_eq [OF assms(1-3)] assms(4) by (auto simp: c_simps)
  then have "shm_addrs cur1 = fold marked ss (shm_addrs cur)" by (simp add: streams_cur_def ss_def)
  then show ?thesis using marked_ports [OF assms(5), of ss] by (simp add: assms(6,7) count_marked image_def conj_commute)
qed

theorem ports_counted_witness:
  "\<exists>cur1 prev1 ex1. process_streams (demo_shm, zero_sharedif) (on_stat_period_open 60 0 export_start) = Inr ((cur1, prev1), ex1) \<and>
     count_bits16 (resvd (aget (shm_addrs cur1) 127)) = 2"
proof -
  have e: "reported 0 (on_stat_period_open 60 0 export_start)" by (rule open_reported) (simp_all add: export_start_def)
  obtain cp ex1 where run: "process_streams (demo_shm, zero_sharedif) (on_stat_period_open 60 0 export_start) = Inr (cp, ex1)"
    by (rule streams_stage [OF zero_copy_wf(2,1) demo_streams_ok e])
  obtain cur1 prev1 where cp: "cp = (cur1, prev1)" by (cases cp)
  have ss: "map (aget (shm_streams demo_shm)) (used_streams demo_shm) = [demo_stream 3 900 443, demo_stream 7 500 53]"
    by (simp add: demo_used) (simp add: demo_shm_def)
  have "{s \<in> set [demo_stream 3 900 443, demo_stream 7 500 53]. unat (idx_left s) = 127} = {demo_stream 3 900 443, demo_stream 7 500 53}"
    by (auto simp: demo_stream_def)
  then have "si_rport ` {s \<in> set [demo_stream 3 900 443, demo_stream 7 500 53]. unat (idx_left s) = 127} \<inter> set BF_PORTS = {53, 443}"
    by (simp add: demo_stream_def BF_PORTS_def)
  moreover have "internal (aget (shm_addrs demo_shm) 127) \<noteq> 0" "resvd (aget (shm_addrs demo_shm) 127) = 0" "resvd2 (aget (shm_addrs demo_shm) 127) = 0"
    by (simp_all add: demo_shm_def zero_addr_info_def)
  ultimately have "count_bits16 (resvd (aget (shm_addrs cur1) 127)) = 2"
    using ports_counted [OF zero_copy_wf(2,1) demo_streams_ok run [unfolded cp], of 127] by (simp add: ss)
  with run cp show ?thesis by blast
qed

text \<open>
  C13: With a segment in order that has at least one stream, the report of a minute is completed: nothing is
  read or written out of bounds, the sorting ends, the text fits its buffers. After it the totals start from
  zero, the minute is that of the report, and the next report is possible.
\<close>

theorem minute_report_completes:
  fixes ts :: u32
  assumes "minute_ready sp" "reportable shm" "used_streams shm \<noteq> []"
  defines "t \<equiv> if ts = 0 then tlast_min sp + 60 else ts"
  shows "\<exists>sp'. check_minute ts shm sp = Inr sp' \<and> minute_ready sp' \<and> last_min_packets sp' = 0 \<and> last_min_bytes sp' = 0 \<and>
    tlast_min sp' = t div 60 * 60 \<and> sec_i sp' = int (unat (t mod 60)) \<and> gProfileNumMins sp' = gProfileNumMins sp + 1"
proof -
  obtain copy prev ex where "check_minute ts shm sp = Inr (minute_done t copy prev ex sp)" "minute_ready (minute_done t copy prev ex sp)"
    unfolding t_def by (rule minute_ok [OF assms(1-3)])
  then show ?thesis by (intro exI [of _ "minute_done t copy prev ex sp"]) (simp add: minute_done_def)
qed

theorem minute_report_completes_witness:
  "\<exists>sp'. check_minute 125 demo_shm (init_state \<lparr>tv_sec = 61, tv_usec = 0\<rparr> zero_sharedif stat_start) = Inr sp' \<and> minute_ready sp' \<and>
     tlast_min sp' = 120 \<and> sec_i sp' = 5"
  using minute_report_completes [of "init_state \<lparr>tv_sec = 61, tv_usec = 0\<rparr> zero_sharedif stat_start" demo_shm 125,
      OF init_ready demo_reportable(1)]
  by (auto simp: demo_used)

text \<open>
  C39: A minute without any stream cannot be reported: nothing is appended to the buffer of streams, and
  the report ends in printing memory that was never written.
\<close>

theorem quiet_minute_faults:
  assumes "minute_ready sp" "reportable shm" "used_streams shm = []"
  shows "check_minute ts shm sp = Inl Uninit"
  by (rule minute_empty [OF assms])

theorem quiet_minute_faults_witness:
  "check_minute 60 zero_sharedif (init_state \<lparr>tv_sec = 1, tv_usec = 0\<rparr> zero_sharedif stat_start) = Inl Uninit"
  by (rule quiet_minute_faults [OF init_ready demo_reportable(2)]) (simp add: used_streams_def window_of_def zero_sharedif_def)

end
