(* ===== verification/StatClock.thy ===== *)
theory StatClock
  imports StatReport
begin

text \<open>
  Seconds and minutes of the statistics (\<^verbatim>\<open>every_second\<close> of \<^verbatim>\<open>statproc/statproc_handlers.c\<close>, the loop of
  \<^verbatim>\<open>statproc/main.c\<close> and the time of a capture file in \<^verbatim>\<open>statproc/statproc_sim.c\<close>): the assertion on the second
  of the minute, the totals and the columns of a minute, and which runs are completed.
\<close>

subsection \<open>One second\<close>

text \<open>The state after a second of a minute.\<close>

definition second_done :: "sharedif_t \<Rightarrow> stat_state \<Rightarrow> stat_state" where
  "second_done shm sp =
     (let d = map2 flow_diff (sst_flow_stats (stats_last_sec sp)) (flow_stats shm) in
      sp\<lparr>stats_cur_sec := snapshot shm, sec_flows := map2 (\<lambda>row x. row[nat (sec_i sp) := x]) (sec_flows sp) d,
         last_min_packets := last_min_packets sp + ucast (fs_packets (d ! FLOW_TYPE_TOTAL)),
         last_min_bytes := last_min_bytes sp + ucast (fs_bytes (d ! FLOW_TYPE_TOTAL)),
         sec_i := sec_i sp + 1, stats_last_sec := snapshot shm\<rparr>)"

text \<open>
  The clock at second \<open>t\<close>: \<open>t\<close> is in the minute that is counted, and no more seconds have been counted than have
  passed.
\<close>

definition clock_ok :: "u32 \<Rightarrow> stat_state \<Rightarrow> bool" where
  "clock_ok t sp \<longleftrightarrow> sp_initialized sp \<and> unat (tlast_min sp) \<le> unat t \<and> unat t < unat (tlast_min sp) + 60 \<and>
     0 \<le> sec_i sp \<and> nat (sec_i sp) + unat (tlast_min sp) \<le> unat t"

lemma minute_of: "unat (t div 60 * 60 :: u32) = unat t div 60 * 60" "unat (t mod 60 :: u32) = unat t mod 60"
proof -
  have "unat t div 60 * 60 \<le> unat t" by simp
  then have "unat t div 60 * 60 < 2 ^ 32" using unsigned_less [of t, where 'a = nat] by simp
  then show "unat (t div 60 * 60 :: u32) = unat t div 60 * 60"
    by (simp add: unat_mult_lem [THEN iffD1] unat_div)
  show "unat (t mod 60 :: u32) = unat t mod 60" by (simp add: unat_mod)
qed

lemma clock_start:
  assumes "sp_initialized sp" "tlast_min sp = t div 60 * 60" "sec_i sp = int (unat (t mod 60))"
  shows "clock_ok t sp"
proof -
  have "unat t = unat t div 60 * 60 + unat t mod 60" "unat t mod 60 < 60" by simp_all
  then show ?thesis using assms unfolding clock_ok_def minute_of assms(2,3) by linarith
qed

lemma every_second_eq:
  assumes ok: "clock_ok t sp" and later: "t < tv_sec ts"
  shows "every_second ts shm sp =
    (if unat (tv_sec ts) < unat (tlast_min sp) + 60 then Inr (second_done shm sp)
     else check_minute (tv_sec ts) shm (second_done shm sp))"
proof -
  have u: "unat t < unat (tv_sec ts)" using later by (simp add: word_less_nat_alt)
  have s: "0 \<le> sec_i sp" "sec_i sp \<le> 59" using ok by (auto simp: clock_ok_def)
  have "tlast_min sp \<le> tv_sec ts" using ok u by (simp add: clock_ok_def word_le_nat_alt)
  then have "unat (tv_sec ts - tlast_min sp) = unat (tv_sec ts) - unat (tlast_min sp)" by (simp add: unat_sub)
  then have min: "tv_sec ts - tlast_min sp \<ge> 60 \<longleftrightarrow> \<not> unat (tv_sec ts) < unat (tlast_min sp) + 60"
    using \<open>tlast_min sp \<le> tv_sec ts\<close> by (auto simp: word_le_nat_alt)
  show ?thesis
    using ok s min by (simp add: every_second_def store_second_def second_done_def snapshot_def clock_ok_def Let_def)
qed

lemma second_clock:
  assumes "clock_ok t sp" "t < tv_sec ts" "unat (tv_sec ts) < unat (tlast_min sp) + 60"
  shows "clock_ok (tv_sec ts) (second_done shm sp)"
  using assms by (auto simp: clock_ok_def second_done_def word_less_nat_alt Let_def)

lemma ready_second: "minute_ready (second_done shm sp) = minute_ready sp"
  by (simp add: minute_ready_def second_done_def Let_def)

text \<open>
  A second after the first, whether it ends a minute or not. Without assumptions on the streams and the windows the
  end of a minute has two more outcomes: a window whose upper end is below its lower end makes the copy of the
  segment leave its bounds, and a minute without a stream is not reported.
\<close>

definition inverted :: "sharedif_t \<Rightarrow> bool" where
  "inverted shm \<longleftrightarrow> (\<exists>p \<in> {stream_indexes shm, addr_lan_indexes shm, addr_wan_indexes shm}. idx_hi p < idx_lo p)"

lemma inverted_copy:
  assumes "inverted shm"
  shows "copy_segment shm copy = Inl OutOfBounds"
  using assms by (auto simp: inverted_def copy_segment_def copy_window_def word_less_nat_alt Let_def)

lemma inverted_minute:
  assumes "inverted shm" "minute_ready sp"
  shows "check_minute ts shm sp = Inl OutOfBounds"
  using inverted_copy [OF assms(1)] assms(2) by (auto simp: check_minute_def minute_ready_def deref_seg_def Let_def)

lemma every_second_cases:
  assumes "clock_ok t sp" "minute_ready sp" "t < tv_sec ts" "reportable shm \<or> inverted shm"
  obtains sp' where "every_second ts shm sp = Inr sp'" "clock_ok (tv_sec ts) sp'" "minute_ready sp'"
  | "every_second ts shm sp = Inl OutOfBounds" "inverted shm"
  | "every_second ts shm sp = Inl Uninit" "used_streams shm = []"
proof (cases "unat (tv_sec ts) < unat (tlast_min sp) + 60")
  case True
  then show ?thesis
    using that(1) every_second_eq [OF assms(1,3), of shm] second_clock [OF assms(1,3) True] assms(2) by (simp add: ready_second)
next
  case False
  have pos: "tv_sec ts \<noteq> 0" using assms(3) by auto
  have ready: "minute_ready (second_done shm sp)" using assms(2) by (simp add: ready_second)
  have run: "every_second ts shm sp = check_minute (tv_sec ts) shm (second_done shm sp)"
    using every_second_eq [OF assms(1,3), of shm] False by simp
  consider "inverted shm" | "reportable shm" "used_streams shm = []" | "reportable shm" "used_streams shm \<noteq> []" using assms(4) by blast
  then show ?thesis
  proof cases
    case 1
    then show ?thesis using that(2) run inverted_minute [OF 1 ready] by simp
  next
    case 2
    then show ?thesis using that(3) run minute_empty [OF ready 2] by simp
  next
    case 3
    obtain copy prev ex where m: "check_minute (tv_sec ts) shm (second_done shm sp) = Inr (minute_done (tv_sec ts) copy prev ex (second_done shm sp))"
        "minute_ready (minute_done (tv_sec ts) copy prev ex (second_done shm sp))"
      by (rule minute_ok [OF ready 3, where ts = "tv_sec ts", unfolded if_not_P [OF pos]])
    have "clock_ok (tv_sec ts) (minute_done (tv_sec ts) copy prev ex (second_done shm sp))"
      using assms(1) by (intro clock_start) (simp_all add: minute_done_def second_done_def clock_ok_def Let_def)
    then show ?thesis using that(1) run m by simp
  qed
qed

lemma reportable_upright: "reportable shm \<Longrightarrow> \<not> inverted shm"
  by (auto simp: reportable_def inverted_def window_in_def)

subsection \<open>The statistics process\<close>

text \<open>The statistics have not started, or their clock is at second \<open>t\<close>.\<close>

definition stat_ok :: "u32 \<Rightarrow> stat_state \<Rightarrow> bool" where
  "stat_ok t sp \<longleftrightarrow>
     (if sp_initialized sp then clock_ok t sp \<and> minute_ready sp else ex_heap (sp_export sp) \<and> \<not> ex_initialized (sp_export sp))"

lemma stat_ok_start: "stat_ok t stat_start"
  by (simp add: stat_ok_def stat_start_def export_start_def)

lemma stat_second_cases:
  assumes "stat_ok t sp" "t < tv_sec ts" "reportable shm \<or> inverted shm"
  obtains sp' where "every_second ts shm sp = Inr sp'" "stat_ok (tv_sec ts) sp'" "sp_initialized sp'"
  | "every_second ts shm sp = Inl OutOfBounds" "inverted shm"
  | "every_second ts shm sp = Inl Uninit" "used_streams shm = []"
proof (cases "sp_initialized sp")
  case True
  then have ok: "clock_ok t sp" "minute_ready sp" using assms(1) by (simp_all add: stat_ok_def)
  show ?thesis
    by (rule every_second_cases [OF ok assms(2,3)]) (use that in \<open>auto simp: stat_ok_def clock_ok_def\<close>)
next
  case False
  have "clock_ok (tv_sec ts) (init_state ts shm sp)" by (rule clock_start) (simp_all add: init_state_def Let_def)
  moreover have "minute_ready (init_state ts shm sp)"
    using False assms(1) by (simp add: minute_ready_def init_state_def stat_ok_def Let_def)
  ultimately show ?thesis using that(1) False by (simp add: every_second_def stat_ok_def clock_ok_def)
qed

lemma every_second_ok:
  assumes "stat_ok t sp" "t < tv_sec ts" "reportable shm" "used_streams shm \<noteq> []"
  obtains sp' where "every_second ts shm sp = Inr sp'" "stat_ok (tv_sec ts) sp'" "sp_initialized sp'"
  by (rule stat_second_cases [OF assms(1,2), of shm]) (use assms(3,4) reportable_upright that in auto)

text \<open>The state of the process between two iterations.\<close>

definition proc_ok :: "tval_t \<times> stat_state \<Rightarrow> bool" where
  "proc_ok = (\<lambda>(ts, sp). stat_ok (tv_sec ts) sp \<and> (tv_sec ts = 0 \<longrightarrow> \<not> sp_initialized sp))"

lemma proc_ok_start: "proc_ok (zero_tval, stat_start)"
  by (simp add: proc_ok_def stat_ok_start) (simp add: stat_start_def)

lemma statproc_step_cases:
  assumes "proc_ok s" "now \<le> now'" "reportable shm \<or> inverted shm"
  obtains s' where "statproc_step (now, now', shm) s = Inr s'" "proc_ok s'"
  | "statproc_step (now, now', shm) s = Inl OutOfBounds" "inverted shm"
  | "statproc_step (now, now', shm) s = Inl Uninit" "used_streams shm = []"
proof -
  obtain ts sp where s: "s = (ts, sp)" by (cases s)
  consider "tv_sec ts = 0" | "tv_sec ts \<noteq> 0" "tv_sec ts < now" | "tv_sec ts \<noteq> 0" "\<not> tv_sec ts < now" by blast
  then show ?thesis
  proof cases
    case 1
    then show ?thesis using that(1) assms(1) by (simp add: statproc_step_def stat_ok_def proc_ok_def s)
  next
    case 2
    have "unat (tv_sec ts) < unat now" using 2(2) by (simp add: word_less_nat_alt)
    then have now: "int (unat now) - int (unat (tv_sec ts)) \<ge> 1" by linarith
    have later: "tv_sec ts < tv_sec (ts\<lparr>tv_sec := now'\<rparr>)" "now' \<noteq> 0" using 2(2) assms(2) by (auto intro: order.strict_trans2)
    have "stat_ok (tv_sec ts) sp" using assms(1) by (simp add: proc_ok_def s)
    from stat_second_cases [OF this later(1) assms(3)] show ?thesis
      by cases (use now later 2(1) that in \<open>simp_all add: statproc_step_def proc_ok_def s\<close>)
  next
    case 3
    have "\<not> unat (tv_sec ts) < unat now" using 3(2) by (simp add: word_less_nat_alt)
    then have "\<not> int (unat now) - int (unat (tv_sec ts)) \<ge> 1" by linarith
    then show ?thesis using that(1) 3(1) assms(1) by (simp add: statproc_step_def s)
  qed
qed

text \<open>
  C11: The statistics process runs to its end: whatever times its iterations see, also when the clock stands
  still or goes back between two iterations, and whatever is in the segment, as long as it is in order and has a
  stream, no assertion fails, no memory is accessed out of bounds, and every report is completed.
\<close>

theorem statproc_runs:
  assumes "\<forall>(now, now', shm) \<in> set iterations. now \<le> now' \<and> reportable shm \<and> used_streams shm \<noteq> []"
  shows "\<exists>ts sp. statproc_main attached iterations stat_start = Inr (ts, sp) \<and> (sp_initialized sp \<longrightarrow> clock_ok (tv_sec ts) sp)"
proof -
  have "\<exists>s'. statproc_step x s = Inr s' \<and> proc_ok s'" if "x \<in> set (take 3600 iterations)" "proc_ok s" for x s
  proof -
    obtain now now' shm where x: "x = (now, now', shm)" by (cases x)
    have "x \<in> set iterations" using that(1) by (rule in_set_takeD)
    then have "now \<le> now'" "reportable shm" "used_streams shm \<noteq> []" using assms x by auto
    with statproc_step_cases [OF that(2), of now now' shm] reportable_upright x show ?thesis by metis
  qed
  then have "\<exists>s'. fold_r statproc_step (take 3600 iterations) (zero_tval, stat_start) = Inr s' \<and> proc_ok s'"
    using proc_ok_start by (rule fold_r_total)
  moreover have "\<not> sp_initialized stat_start" by (simp add: stat_start_def)
  ultimately show ?thesis by (auto simp: statproc_main_def stat_ok_def proc_ok_def)
qed

theorem statproc_runs_witness:
  "\<exists>ts sp. statproc_main True [(50, 50, demo_shm), (51, 51, demo_shm), (55, 56, demo_shm), (130, 130, demo_shm), (131, 131, demo_shm)]
     stat_start = Inr (ts, sp)"
  using statproc_runs [of "[(50, 50, demo_shm), (51, 51, demo_shm), (55, 56, demo_shm), (130, 130, demo_shm), (131, 131, demo_shm)]" True]
  by (auto simp: demo_reportable demo_used)

subsection \<open>The time of a capture file\<close>

text \<open>Two timestamps of a capture in their order, at most 45 days apart.\<close>

definition in_order :: "tval_t \<Rightarrow> tval_t \<Rightarrow> bool" where
  "in_order prev cur \<longleftrightarrow> tv_usec prev < 1000000 \<and> tv_usec cur < 1000000 \<and> 0 \<le> elapsed_us prev cur \<and>
     uint (tv_sec cur) - uint (tv_sec prev) \<le> 4000000"

lemma whole_ms:
  fixes ds du :: int
  assumes "0 \<le> ds * 1000000 + du" "ds \<le> 4000000" "- 1000000 < du" "du < 1000000"
  shows "0 \<le> ds * 1000 + du div 1000" "ds * 1000 + du div 1000 \<le> 4000001000"
    "0 \<le> du \<Longrightarrow> 1000 \<le> ds * 1000 + du div 1000 \<longleftrightarrow> 1 \<le> ds" "du < 0 \<Longrightarrow> 1 \<le> ds"
proof -
  define q where "q = du div 1000"
  have "du = 1000 * q + du mod 1000" "0 \<le> du mod 1000" "du mod 1000 < 1000" by (simp_all add: q_def)
  then have q: "1000 * q \<le> du" "du < 1000 * q + 1000" by linarith+
  show "0 \<le> ds * 1000 + du div 1000" "ds * 1000 + du div 1000 \<le> 4000001000" using q assms unfolding q_def [symmetric] by linarith+
  show "1 \<le> ds" if "du < 0" using that assms(1) by linarith
  show "1000 \<le> ds * 1000 + du div 1000 \<longleftrightarrow> 1 \<le> ds" if "0 \<le> du"
  proof
    assume "1000 \<le> ds * 1000 + du div 1000"
    then have "0 < ds * 1000" using q assms(4) unfolding q_def [symmetric] by linarith
    then show "1 \<le> ds" by simp
  next
    assume "1 \<le> ds"
    moreover have "0 \<le> du div 1000" using that by simp
    ultimately show "1000 \<le> ds * 1000 + du div 1000" by linarith
  qed
qed

lemma new_second:
  assumes "in_order prev cur"
  shows "tval_diff_ms prev cur \<ge> 1000 \<longleftrightarrow> tv_sec prev < tv_sec cur"
proof -
  define ds where "ds = uint (tv_sec cur) - uint (tv_sec prev)"
  define du where "du = uint (tv_usec cur) - uint (tv_usec prev)"
  have "uint (tv_usec prev) < 1000000" "uint (tv_usec cur) < 1000000" "0 \<le> uint (tv_usec prev)" "0 \<le> uint (tv_usec cur)"
    using assms by (simp_all add: in_order_def word_less_def)
  then have us: "- 1000000 < du" "du < 1000000" unfolding du_def by linarith+
  have nn: "0 \<le> ds * 1000000 + du" "ds \<le> 4000000" using assms by (simp_all add: in_order_def elapsed_us_def ds_def du_def)
  have ms: "elapsed_us prev cur div 1000 = ds * 1000 + du div 1000" unfolding ds_def du_def by (rule elapsed_ms)
  note w = whole_ms [OF nn us]
  have sec: "tv_sec prev < tv_sec cur \<longleftrightarrow> 1 \<le> ds" by (auto simp: word_less_def ds_def)
  have big: "1000 \<le> (of_int x :: u32) \<longleftrightarrow> 1000 \<le> x" if "0 \<le> x" "x < 4294967296" for x
  proof -
    have "uint (of_int x :: u32) = x" using that by (simp add: uint_word_of_int)
    then show ?thesis by (simp add: word_le_def)
  qed
  show ?thesis
  proof (cases "tv_usec prev \<le> tv_usec cur")
    case True
    then have "0 \<le> du" by (simp add: word_le_def du_def)
    then show ?thesis unfolding diff_ms_exact [OF True] ms sec using w(1-3) big [of "ds * 1000 + du div 1000"] by simp
  next
    case False
    then have less: "tv_usec cur < tv_usec prev" by simp
    then have "du < 0" by (simp add: word_less_def du_def)
    moreover have "1000 \<le> tval_diff_ms prev cur"
      using diff_ms_borrow [OF less] big [of "ds * 1000 + du div 1000 + 4294967"] big [of "ds * 1000 + du div 1000 + 4294968"] w(1,2)
      unfolding ms by auto
    ultimately show ?thesis using w(4) sec by simp
  qed
qed

text \<open>
  C26: For timestamps in their order the time of a capture file advances exactly with the second: a call
  for a packet counts a second when the packet's second is later than that of the last count, and does
  nothing else otherwise. The error of \<^verbatim>\<open>tval_diff_ms\<close> at a borrow makes no difference here.
\<close>

theorem sim_counts_seconds:
  assumes "in_order (sim_last_sec sim) ts" "tv_sec (sim_last_sec sim) \<noteq> 0"
  shows "sim_before_packet ts shm sim =
    (if tv_sec (sim_last_sec sim) < tv_sec ts
     then bind_r (every_second ts shm (sim_stat sim)) (\<lambda>sp. Inr (sim\<lparr>sim_last_sec := ts, sim_stat := sp\<rparr>)) else Inr sim)"
  using assms by (simp add: sim_before_packet_def new_second)

definition sim_start :: sim_state where
  "sim_start = \<lparr>sim_last_sec = zero_tval, sim_stat = stat_start\<rparr>"

theorem sim_counts_seconds_witness:
  "let sim = sim_start\<lparr>sim_last_sec := \<lparr>tv_sec = 5, tv_usec = 900000\<rparr>\<rparr> in
   in_order (sim_last_sec sim) \<lparr>tv_sec = 6, tv_usec = 100\<rparr> \<and>
   sim_before_packet \<lparr>tv_sec = 6, tv_usec = 100\<rparr> zero_sharedif sim =
     Inr \<lparr>sim_last_sec = \<lparr>tv_sec = 6, tv_usec = 100\<rparr>, sim_stat = init_state \<lparr>tv_sec = 6, tv_usec = 100\<rparr> zero_sharedif stat_start\<rparr>"
proof -
  let ?sim = "sim_start\<lparr>sim_last_sec := \<lparr>tv_sec = 5, tv_usec = 900000\<rparr>\<rparr>" and ?ts = "\<lparr>tv_sec = 6, tv_usec = 100\<rparr>"
  have o: "in_order (sim_last_sec ?sim) ?ts" by (simp add: in_order_def elapsed_us_def)
  have "every_second ?ts zero_sharedif stat_start = Inr (init_state ?ts zero_sharedif stat_start)"
    by (simp add: every_second_def stat_start_def)
  with sim_counts_seconds [OF o, of zero_sharedif] o show ?thesis by (simp add: sim_start_def Let_def)
qed

text \<open>The invariant of the file mode.\<close>

definition sim_ok :: "sim_state \<Rightarrow> bool" where
  "sim_ok sim \<longleftrightarrow> stat_ok (tv_sec (sim_last_sec sim)) (sim_stat sim) \<and> (tv_sec (sim_last_sec sim) = 0 \<longrightarrow> \<not> sp_initialized (sim_stat sim))"

subsection \<open>Totals of a minute\<close>

text \<open>Seconds of one minute, one after the other.\<close>

definition total_packets :: "flow_stats_t list \<Rightarrow> u32" where
  "total_packets fs = fs_packets (fs ! FLOW_TYPE_TOTAL)"

lemma second_total:
  assumes "length (sst_flow_stats (stats_last_sec sp)) = SI_NUM_FLOWTYPES" "length (flow_stats shm) = SI_NUM_FLOWTYPES"
    and "total_packets (sst_flow_stats (stats_last_sec sp)) \<le> total_packets (flow_stats shm)"
  shows "last_min_packets (second_done shm sp) =
      last_min_packets sp + (ucast (total_packets (flow_stats shm)) - ucast (total_packets (sst_flow_stats (stats_last_sec sp))))"
    "stats_last_sec (second_done shm sp) = snapshot shm" "tlast_min (second_done shm sp) = tlast_min sp"
proof -
  have sub: "ucast (b - a) = (ucast b - ucast a :: u64)" if "a \<le> b" for a b :: u32
  proof -
    have u: "uint (ucast x :: u64) = uint x" for x :: u32
      using unsigned_less [of x, where 'a = int] by (simp add: unsigned_ucast_eq take_bit_int_eq_self_iff)
    have ab: "(ucast a :: u64) \<le> ucast b" using that by (simp add: word_le_def u)
    have "uint (ucast (b - a) :: u64) = uint b - uint a" using that by (simp add: u uint_minus_simple_alt)
    also have "\<dots> = uint (ucast b - ucast a :: u64)" using ab by (simp add: u uint_minus_simple_alt)
    finally show ?thesis by (simp only: word_uint_eq_iff)
  qed
  show "last_min_packets (second_done shm sp) =
      last_min_packets sp + (ucast (total_packets (flow_stats shm)) - ucast (total_packets (sst_flow_stats (stats_last_sec sp))))"
    using assms sub [OF assms(3)]
    by (simp add: second_done_def total_packets_def flow_diff_def u32diff_def SI_NUM_FLOWTYPES_def FLOW_TYPE_TOTAL_def Let_def)
qed (simp_all add: second_done_def Let_def)

text \<open>
  C25: While a minute lasts, the total of the minute is the difference between the packet counter now and the
  one at its beginning: the counts of the single seconds add up, however many seconds are left out, as
  long as the counter does not wrap around.
\<close>

theorem minute_total:
  assumes "clock_ok t sp" "sorted_wrt (<) (t # map (\<lambda>(ts, shm). tv_sec ts) evs)"
    and "\<forall>(ts, shm) \<in> set evs. unat (tv_sec ts) < unat (tlast_min sp) + 60 \<and> length (flow_stats shm) = SI_NUM_FLOWTYPES"
    and "length (sst_flow_stats (stats_last_sec sp)) = SI_NUM_FLOWTYPES"
    and "sorted (map total_packets (sst_flow_stats (stats_last_sec sp) # map (\<lambda>(ts, shm). flow_stats shm) evs))"
  shows "\<exists>sp'. fold_r (\<lambda>(ts, shm). every_second ts shm) evs sp = Inr sp' \<and>
    last_min_packets sp' = last_min_packets sp +
      (ucast (total_packets (sst_flow_stats (stats_last_sec sp'))) - ucast (total_packets (sst_flow_stats (stats_last_sec sp)))) \<and>
    sst_flow_stats (stats_last_sec sp') = last (sst_flow_stats (stats_last_sec sp) # map (\<lambda>(ts, shm). flow_stats shm) evs)"
  using assms
proof (induction evs arbitrary: t sp)
  case (Cons e evs)
  obtain ts shm where e: "e = (ts, shm)" by (cases e)
  have later: "t < tv_sec ts" "unat (tv_sec ts) < unat (tlast_min sp) + 60" using Cons.prems(2,3) e by auto
  have step: "every_second ts shm sp = Inr (second_done shm sp)" using every_second_eq [OF Cons.prems(1) later(1)] later(2) by simp
  have "total_packets (sst_flow_stats (stats_last_sec sp)) \<le> total_packets (flow_stats shm)" using Cons.prems(5) e by simp
  note tot = second_total [OF Cons.prems(4) _ this]
  have len: "length (flow_stats shm) = SI_NUM_FLOWTYPES" using Cons.prems(3) e by simp
  have snap: "sst_flow_stats (snapshot shm) = flow_stats shm" by (simp add: snapshot_def)
  have "\<exists>sp'. fold_r (\<lambda>(ts, shm). every_second ts shm) evs (second_done shm sp) = Inr sp' \<and>
    last_min_packets sp' = last_min_packets (second_done shm sp) +
      (ucast (total_packets (sst_flow_stats (stats_last_sec sp'))) - ucast (total_packets (sst_flow_stats (stats_last_sec (second_done shm sp))))) \<and>
    sst_flow_stats (stats_last_sec sp') = last (sst_flow_stats (stats_last_sec (second_done shm sp)) # map (\<lambda>(ts, shm). flow_stats shm) evs)"
    by (rule Cons.IH [OF second_clock [OF Cons.prems(1) later]]) (use Cons.prems(2-5) e tot(2,3) len snap in auto)
  then show ?case using step e tot len snap by (auto simp: algebra_simps)
qed simp

theorem minute_total_witness:
  "let seg = (\<lambda>n. zero_sharedif\<lparr>flow_stats := replicate 6 \<lparr>fs_packets = n, fs_bytes = 0\<rparr>\<rparr>);
       sp = init_state \<lparr>tv_sec = 61, tv_usec = 0\<rparr> (seg 10) stat_start in
   \<exists>sp'. fold_r (\<lambda>(ts, shm). every_second ts shm) [(\<lparr>tv_sec = 62, tv_usec = 0\<rparr>, seg 15), (\<lparr>tv_sec = 70, tv_usec = 0\<rparr>, seg 40)] sp = Inr sp' \<and>
     last_min_packets sp' = 30"
proof -
  define seg where "seg = (\<lambda>n. zero_sharedif\<lparr>flow_stats := replicate 6 \<lparr>fs_packets = n, fs_bytes = 0\<rparr>\<rparr>)"
  define sp where "sp = init_state \<lparr>tv_sec = 61, tv_usec = 0\<rparr> (seg 10) stat_start"
  have seg: "length (flow_stats (seg n)) = 6" "total_packets (flow_stats (seg n)) = n" for n
    by (simp_all add: seg_def total_packets_def FLOW_TYPE_TOTAL_def)
  have "clock_ok 61 sp" by (rule clock_start) (simp_all add: sp_def init_state_def Let_def)
  moreover have f: "sst_flow_stats (stats_last_sec sp) = flow_stats (seg 10)" "tlast_min sp = 60" "last_min_packets sp = 0"
    by (simp_all add: sp_def init_state_def snapshot_def stat_start_def Let_def)
  ultimately have "\<exists>sp'. fold_r (\<lambda>(ts, shm). every_second ts shm) [(\<lparr>tv_sec = 62, tv_usec = 0\<rparr>, seg 15), (\<lparr>tv_sec = 70, tv_usec = 0\<rparr>, seg 40)] sp = Inr sp' \<and>
     last_min_packets sp' = 30"
    using minute_total [of 61 sp "[(\<lparr>tv_sec = 62, tv_usec = 0\<rparr>, seg 15), (\<lparr>tv_sec = 70, tv_usec = 0\<rparr>, seg 40)]"]
    by (auto simp: seg SI_NUM_FLOWTYPES_def)
  then show ?thesis by (simp only: Let_def seg_def sp_def)
qed

subsection \<open>The columns of a minute\<close>

text \<open>
  The table of the seconds after calls that have seen the counters \<open>snaps\<close>, when the first of them was seen before column \<open>i\<close>: a
  column has the differences between one call and the next, for every flow type, and the columns that no call has reached are
  as they were.
\<close>

definition columns_of :: "nat \<Rightarrow> flow_stats_t list list \<Rightarrow> flow_stats_t list list \<Rightarrow> flow_stats_t list list \<Rightarrow> bool" where
  "columns_of i snaps old new \<longleftrightarrow> length new = length old \<and> (\<forall>f < length old. length (new ! f) = length (old ! f) \<and>
     (\<forall>c < length (old ! f). new ! f ! c =
       (if i \<le> c \<and> c + 1 < i + length snaps then flow_diff (snaps ! (c - i) ! f) (snaps ! (c - i + 1) ! f) else old ! f ! c)))"

text \<open>The table as the process declares it: a row of at least 60 columns for each flow type.\<close>

definition table_wf :: "stat_state \<Rightarrow> bool" where
  "table_wf sp \<longleftrightarrow> length (sec_flows sp) = SI_NUM_FLOWTYPES \<and> (\<forall>f < SI_NUM_FLOWTYPES. 60 \<le> length (sec_flows sp ! f)) \<and>
     length (sst_flow_stats (stats_last_sec sp)) = SI_NUM_FLOWTYPES"

lemma columns_none: "columns_of i [s] rows rows"
  by (auto simp: columns_of_def)

lemma columns_first:
  assumes "columns_of (i + 1) (s' # snaps) mid new" "columns_of i [s, s'] old mid"
  shows "columns_of i (s # s' # snaps) old new"
  unfolding columns_of_def
proof (intro conjI allI impI)
  show "length new = length old" using assms by (simp add: columns_of_def)
  fix f assume f: "f < length old"
  then show "length (new ! f) = length (old ! f)" using assms by (simp add: columns_of_def)
  fix c assume c: "c < length (old ! f)"
  have mid: "mid ! f ! c = (if c = i then flow_diff (s ! f) (s' ! f) else old ! f ! c)"
    using assms(2) f c by (auto simp: columns_of_def)
  have new: "new ! f ! c = (if i + 1 \<le> c \<and> c + 1 < i + 1 + length (s' # snaps)
      then flow_diff ((s' # snaps) ! (c - (i + 1)) ! f) ((s' # snaps) ! (c - (i + 1) + 1) ! f) else mid ! f ! c)"
    using assms f c by (simp add: columns_of_def)
  show "new ! f ! c = (if i \<le> c \<and> c + 1 < i + length (s # s' # snaps)
      then flow_diff ((s # s' # snaps) ! (c - i) ! f) ((s # s' # snaps) ! (c - i + 1) ! f) else old ! f ! c)"
  proof (cases "i < c")
    case True
    then have "c - i = Suc (c - (i + 1))" by simp
    then show ?thesis using new mid True by simp
  qed (use new mid in auto)
qed

lemma columns_last:
  assumes "columns_of i snaps old mid" "columns_of j [last snaps, s] mid new" "j + 1 = i + length snaps" "snaps \<noteq> []"
  shows "columns_of i (snaps @ [s]) old new"
  unfolding columns_of_def
proof (intro conjI allI impI)
  show "length new = length old" using assms by (simp add: columns_of_def)
  fix f assume f: "f < length old"
  then show "length (new ! f) = length (old ! f)" using assms by (simp add: columns_of_def)
  fix c assume c: "c < length (old ! f)"
  have mid: "mid ! f ! c = (if i \<le> c \<and> c + 1 < i + length snaps then flow_diff (snaps ! (c - i) ! f) (snaps ! (c - i + 1) ! f) else old ! f ! c)"
    using assms(1) f c by (simp add: columns_of_def)
  have new: "new ! f ! c = (if c = j then flow_diff (last snaps ! f) (s ! f) else mid ! f ! c)"
    using assms(1,2) f c by (auto simp: columns_of_def)
  have j: "j - i = length snaps - 1" "i \<le> j" using assms(3,4) by (cases snaps; simp)+
  show "new ! f ! c = (if i \<le> c \<and> c + 1 < i + length (snaps @ [s])
      then flow_diff ((snaps @ [s]) ! (c - i) ! f) ((snaps @ [s]) ! (c - i + 1) ! f) else old ! f ! c)"
  proof (cases "c = j")
    case True
    have "(snaps @ [s]) ! (c - i) = last snaps" "(snaps @ [s]) ! (c - i + 1) = s"
      using assms(4) j by (simp_all add: True nth_append last_conv_nth)
    then show ?thesis using new j assms(3) True by simp
  next
    case False
    then have "i \<le> c \<and> c + 1 < i + length (snaps @ [s]) \<longleftrightarrow> i \<le> c \<and> c + 1 < i + length snaps" using assms(3) by auto
    moreover have "(snaps @ [s]) ! (c - i) = snaps ! (c - i)" "(snaps @ [s]) ! (c - i + 1) = snaps ! (c - i + 1)"
      if "i \<le> c \<and> c + 1 < i + length snaps" using that by (auto simp: nth_append)
    ultimately show ?thesis using new mid False by auto
  qed
qed

lemma second_columns:
  assumes "table_wf sp" "0 \<le> sec_i sp" "sec_i sp < 60" "length (flow_stats shm) = SI_NUM_FLOWTYPES"
  shows "columns_of (nat (sec_i sp)) [sst_flow_stats (stats_last_sec sp), flow_stats shm] (sec_flows sp) (sec_flows (second_done shm sp))"
    "table_wf (second_done shm sp)"
  using assms by (auto simp: columns_of_def table_wf_def second_done_def snapshot_def nth_list_update Let_def)

lemma columns_run:
  assumes "clock_ok t sp" "sorted_wrt (<) (t # map (\<lambda>(ts, shm). tv_sec ts) evs)" "table_wf sp" "minute_ready sp"
    and "\<forall>(ts, shm) \<in> set evs. unat (tv_sec ts) < unat (tlast_min sp) + 60 \<and> length (flow_stats shm) = SI_NUM_FLOWTYPES"
  shows "\<exists>sp'. fold_r (\<lambda>(ts, shm). every_second ts shm) evs sp = Inr sp' \<and> sec_i sp' = sec_i sp + int (length evs) \<and>
    clock_ok (last (t # map (\<lambda>(ts, shm). tv_sec ts) evs)) sp' \<and> table_wf sp' \<and> minute_ready sp' \<and> tlast_min sp' = tlast_min sp \<and>
    sst_flow_stats (stats_last_sec sp') = last (sst_flow_stats (stats_last_sec sp) # map (\<lambda>(ts, shm). flow_stats shm) evs) \<and>
    columns_of (nat (sec_i sp)) (sst_flow_stats (stats_last_sec sp) # map (\<lambda>(ts, shm). flow_stats shm) evs) (sec_flows sp) (sec_flows sp')"
  using assms
proof (induction evs arbitrary: t sp)
  case (Cons e evs)
  obtain ts shm where e: "e = (ts, shm)" by (cases e)
  let ?sp = "second_done shm sp"
  have later: "t < tv_sec ts" "unat (tv_sec ts) < unat (tlast_min sp) + 60" and len: "length (flow_stats shm) = SI_NUM_FLOWTYPES"
    using Cons.prems(2,5) e by auto
  have step: "every_second ts shm sp = Inr ?sp" using every_second_eq [OF Cons.prems(1) later(1)] later(2) by simp
  have i: "0 \<le> sec_i sp" "sec_i sp < 60" using Cons.prems(1) by (auto simp: clock_ok_def)
  note sc = second_columns [OF Cons.prems(3) i len]
  have f: "sec_i ?sp = sec_i sp + 1" "tlast_min ?sp = tlast_min sp" "sst_flow_stats (stats_last_sec ?sp) = flow_stats shm"
    by (simp_all add: second_done_def snapshot_def Let_def)
  have ready: "minute_ready ?sp" using Cons.prems(4) by (simp add: ready_second)
  obtain sp' where sp': "fold_r (\<lambda>(ts, shm). every_second ts shm) evs ?sp = Inr sp'" "sec_i sp' = sec_i ?sp + int (length evs)"
    "clock_ok (last (tv_sec ts # map (\<lambda>(ts, shm). tv_sec ts) evs)) sp'" "table_wf sp'" "minute_ready sp'" "tlast_min sp' = tlast_min ?sp"
    "sst_flow_stats (stats_last_sec sp') = last (flow_stats shm # map (\<lambda>(ts, shm). flow_stats shm) evs)"
    and col: "columns_of (nat (sec_i ?sp)) (flow_stats shm # map (\<lambda>(ts, shm). flow_stats shm) evs) (sec_flows ?sp) (sec_flows sp')"
    using Cons.IH [OF second_clock [OF Cons.prems(1) later] _ sc(2) ready] Cons.prems(2,5) e f by auto
  have "nat (sec_i ?sp) = nat (sec_i sp) + 1" using i f(1) by simp
  from columns_first [OF col [unfolded this] sc(1)] sp' step e f show ?case by simp
qed (simp add: columns_none)

text \<open>
  C27: The table of the seconds in a minute. The calls of a running minute, at later and later seconds, fill one column each, from the
  column where the minute stands: it has the differences of every flow type between this call and the call before, and the columns that the
  calls do not reach keep what a minute before had there. So when seconds have been left out, the columns that follow
  are not those of their seconds. The call that ends the minute fills one more column before it reports, and sets the column of the next
  minute by its own second. (The first call of the process stores nothing: it sets the column.)
\<close>

theorem minute_columns:
  assumes "clock_ok t sp" "sorted_wrt (<) (t # map (\<lambda>(ts, shm). tv_sec ts) evs)" "table_wf sp" "minute_ready sp"
    and "\<forall>(ts, shm) \<in> set evs. unat (tv_sec ts) < unat (tlast_min sp) + 60 \<and> length (flow_stats shm) = SI_NUM_FLOWTYPES"
  defines "snaps \<equiv> sst_flow_stats (stats_last_sec sp) # map (\<lambda>(ts, shm). flow_stats shm) evs"
  shows "\<exists>sp'. fold_r (\<lambda>(ts, shm). every_second ts shm) evs sp = Inr sp' \<and> sec_i sp' = sec_i sp + int (length evs) \<and>
    columns_of (nat (sec_i sp)) snaps (sec_flows sp) (sec_flows sp') \<and>
    (\<forall>ts shm. last (t # map (\<lambda>(ts, shm). tv_sec ts) evs) < tv_sec ts \<longrightarrow> unat (tlast_min sp) + 60 \<le> unat (tv_sec ts) \<longrightarrow>
      reportable shm \<longrightarrow> used_streams shm \<noteq> [] \<longrightarrow> length (flow_stats shm) = SI_NUM_FLOWTYPES \<longrightarrow>
      (\<exists>sp''. every_second ts shm sp' = Inr sp'' \<and> sec_i sp'' = int (unat (tv_sec ts) mod 60) \<and>
        columns_of (nat (sec_i sp)) (snaps @ [flow_stats shm]) (sec_flows sp) (sec_flows sp'')))"
proof -
  let ?last = "last (t # map (\<lambda>(ts, shm). tv_sec ts) evs)"
  from columns_run [OF assms(1-5)] obtain sp' where
    run: "fold_r (\<lambda>(ts, shm). every_second ts shm) evs sp = Inr sp'" "sec_i sp' = sec_i sp + int (length evs)"
      "clock_ok ?last sp'" "table_wf sp'" "minute_ready sp'" "tlast_min sp' = tlast_min sp"
      "sst_flow_stats (stats_last_sec sp') = last snaps"
    and col: "columns_of (nat (sec_i sp)) snaps (sec_flows sp) (sec_flows sp')"
    unfolding snaps_def by blast
  have "\<exists>sp''. every_second ts shm sp' = Inr sp'' \<and> sec_i sp'' = int (unat (tv_sec ts) mod 60) \<and>
      columns_of (nat (sec_i sp)) (snaps @ [flow_stats shm]) (sec_flows sp) (sec_flows sp'')"
    if h: "?last < tv_sec ts" "unat (tlast_min sp) + 60 \<le> unat (tv_sec ts)" "reportable shm" "used_streams shm \<noteq> []"
      "length (flow_stats shm) = SI_NUM_FLOWTYPES" for ts shm
  proof -
    have i: "0 \<le> sec_i sp'" "sec_i sp' < 60" using run(3) by (auto simp: clock_ok_def)
    have ready: "minute_ready (second_done shm sp')" using run(5) by (simp add: ready_second)
    have pos: "tv_sec ts \<noteq> 0" using h(1) by auto
    obtain copy prev ex where m: "check_minute (tv_sec ts) shm (second_done shm sp') = Inr (minute_done (tv_sec ts) copy prev ex (second_done shm sp'))"
      by (rule minute_ok [OF ready h(3,4), where ts = "tv_sec ts", unfolded if_not_P [OF pos]])
    let ?sp = "minute_done (tv_sec ts) copy prev ex (second_done shm sp')"
    have "every_second ts shm sp' = Inr ?sp" using every_second_eq [OF run(3) h(1), of shm] h(2) run(6) m by simp
    moreover have "sec_i ?sp = int (unat (tv_sec ts) mod 60)" by (simp add: minute_done_def minute_of)
    moreover have "columns_of (nat (sec_i sp')) [last snaps, flow_stats shm] (sec_flows sp') (sec_flows ?sp)"
      using second_columns(1) [OF run(4) i h(5)] run(7) by (simp add: minute_done_def)
    moreover have "nat (sec_i sp') + 1 = nat (sec_i sp) + length snaps"
      using run(2) assms(1) by (auto simp: clock_ok_def snaps_def)
    ultimately show ?thesis using columns_last [OF col] by (metis snaps_def list.distinct(1))
  qed
  with run(1,2) col show ?thesis by blast
qed

text \<open>
  Calls at the seconds 62 and 70 of a minute that stands at column 1: columns 1 and 2 are filled, and column 3 is not. The call at
  second 125 ends the minute, and the next one begins at column 5.
\<close>

theorem minute_columns_witness:
  "let seg = (\<lambda>n. zero_sharedif\<lparr>flow_stats := replicate 6 \<lparr>fs_packets = n, fs_bytes = 0\<rparr>\<rparr>);
       sp = init_state \<lparr>tv_sec = 61, tv_usec = 0\<rparr> (seg 10) stat_start in
   \<exists>sp' sp''. fold_r (\<lambda>(ts, shm). every_second ts shm) [(\<lparr>tv_sec = 62, tv_usec = 0\<rparr>, seg 15), (\<lparr>tv_sec = 70, tv_usec = 0\<rparr>, seg 40)] sp = Inr sp' \<and>
     map fs_packets (take 4 (sec_flows sp' ! 2)) = [0, 5, 25, 0] \<and>
     every_second \<lparr>tv_sec = 125, tv_usec = 0\<rparr> demo_shm sp' = Inr sp'' \<and> sec_i sp'' = 5"
proof -
  define seg where "seg = (\<lambda>n. zero_sharedif\<lparr>flow_stats := replicate 6 \<lparr>fs_packets = n, fs_bytes = 0\<rparr>\<rparr>)"
  define sp where "sp = init_state \<lparr>tv_sec = 61, tv_usec = 0\<rparr> (seg 10) stat_start"
  let ?evs = "[(\<lparr>tv_sec = 62, tv_usec = 0\<rparr>, seg 15), (\<lparr>tv_sec = 70, tv_usec = 0\<rparr>, seg 40)]"
  have seg: "flow_stats (seg n) = replicate 6 \<lparr>fs_packets = n, fs_bytes = 0\<rparr>" for n by (simp add: seg_def)
  have clock: "clock_ok 61 sp" by (rule clock_start) (simp_all add: sp_def init_state_def Let_def)
  have f: "sst_flow_stats (stats_last_sec sp) = flow_stats (seg 10)" "tlast_min sp = 60" "sec_i sp = 1"
    "sec_flows sp = replicate 6 (replicate 68 \<lparr>fs_packets = 0, fs_bytes = 0\<rparr>)"
    by (simp_all add: sp_def init_state_def snapshot_def stat_start_def Let_def)
  have ready: "table_wf sp" "minute_ready sp" by (simp_all add: table_wf_def f seg SI_NUM_FLOWTYPES_def) (simp add: sp_def init_ready)
  have demo: "length (flow_stats demo_shm) = SI_NUM_FLOWTYPES" by (simp add: demo_shm_def zero_sharedif_def SI_NUM_FLOWTYPES_def)
  obtain sp' where run: "fold_r (\<lambda>(ts, shm). every_second ts shm) ?evs sp = Inr sp'"
    and col: "columns_of 1 (map (\<lambda>n. flow_stats (seg n)) [10, 15, 40]) (sec_flows sp) (sec_flows sp')"
    and last: "\<forall>ts shm. 70 < tv_sec ts \<longrightarrow> 120 \<le> unat (tv_sec ts) \<longrightarrow> reportable shm \<longrightarrow> used_streams shm \<noteq> [] \<longrightarrow>
      length (flow_stats shm) = SI_NUM_FLOWTYPES \<longrightarrow>
      (\<exists>sp''. every_second ts shm sp' = Inr sp'' \<and> sec_i sp'' = int (unat (tv_sec ts) mod 60) \<and>
        columns_of 1 (map (\<lambda>n. flow_stats (seg n)) [10, 15, 40] @ [flow_stats shm]) (sec_flows sp) (sec_flows sp''))"
    using minute_columns [OF clock _ ready, of ?evs] by (auto simp: f seg SI_NUM_FLOWTYPES_def simp del: fold_r.simps)
  obtain sp'' where run2: "every_second \<lparr>tv_sec = 125, tv_usec = 0\<rparr> demo_shm sp' = Inr sp''" "sec_i sp'' = 5"
    using last [rule_format, of "\<lparr>tv_sec = 125, tv_usec = 0\<rparr>" demo_shm] demo_reportable(1) demo_used demo by auto
  have len: "length (sec_flows sp' ! 2) = 68" using col by (simp add: columns_of_def f)
  let ?S = "map (\<lambda>n. flow_stats (seg n)) [10, 15, 40]"
  have "\<forall>c < length (sec_flows sp ! 2). sec_flows sp' ! 2 ! c =
      (if 1 \<le> c \<and> c + 1 < 1 + length ?S then flow_diff (?S ! (c - 1) ! 2) (?S ! (c - 1 + 1) ! 2) else sec_flows sp ! 2 ! c)"
    using col unfolding columns_of_def by (elim conjE allE [of _ 2]) (simp only: f(4), simp)
  then have "sec_flows sp' ! 2 ! c = (if 1 \<le> c \<and> c + 1 < 1 + length ?S then flow_diff (?S ! (c - 1) ! 2) (?S ! (c - 1 + 1) ! 2)
      else sec_flows sp ! 2 ! c)" if "c < 68" for c
    using that by (simp only: f(4)) simp
  from this [of 0] this [of 1] this [of 2] this [of 3] have
    "fs_packets (sec_flows sp' ! 2 ! 0) = 0" "fs_packets (sec_flows sp' ! 2 ! 1) = 5" "fs_packets (sec_flows sp' ! 2 ! 2) = 25"
    "fs_packets (sec_flows sp' ! 2 ! 3) = 0" by (simp_all add: f(4) seg flow_diff_def u32diff_def)
  moreover have "take 4 xs = [xs ! 0, xs ! 1, xs ! 2, xs ! 3]" if "length xs = 68" for xs :: "flow_stats_t list"
    using that by (auto simp: take_Suc_conv_app_nth numeral_eq_Suc)
  ultimately have "map fs_packets (take 4 (sec_flows sp' ! 2)) = [0, 5, 25, 0]" using len by simp
  with run run2 show ?thesis unfolding Let_def seg_def [symmetric] sp_def [symmetric] by (intro exI conjI)
qed

end
