(* ===== verification/TwoProcesses.thy ===== *)
theory TwoProcesses
  imports CaptureRun StatClock
begin

text \<open>
  The live system: the capture process, which handles the packets of libpcap (\<^verbatim>\<open>capture/capmain.c\<close>), and the
  statistics process (\<^verbatim>\<open>statproc/main.c\<close>), which share the segment. Their steps interleave in any order; a step of
  the one sees the segment as the other has left it. What the capture process keeps of the segment is what the
  statistics process relies on.
\<close>

subsection \<open>From the capture to the statistics\<close>

text \<open>
  A segment in order can be reported, unless a window is inverted, which releasing the last entry left of the middle
  leads to.
\<close>

lemma seg_reportable:
  assumes "seg_ok st"
  shows "reportable (g_shm st) \<or> inverted (g_shm st)"
proof (cases "inverted (g_shm st)")
  case False
  have lay: "shm_layout st" and win: "windows_ok (g_shm st)" and ent: "\<And>i. entry_ok (aget (shm_streams (g_shm st)) i)"
    using assms by (simp_all add: seg_ok_def)
  have "streams_ok (g_shm st)"
    using win ent by (simp add: streams_ok_def windows_ok_def win_ok_def refs_ok_def entry_ok_def)
  moreover have "window_in (stream_indexes (g_shm st)) SI_NUM_STREAMS" "window_in (addr_lan_indexes (g_shm st)) (SI_NUM_ADDRS div 2)"
    "window_in (addr_wan_indexes (g_shm st)) SI_NUM_ADDRS"
    using win False by (auto simp: window_in_def windows_ok_def win_ok_def inverted_def SI_NUM_ADDRS_def not_less)
  moreover have "copy_wf (g_shm st)" using lay by (simp add: shm_layout_def copy_wf_def)
  ultimately show ?thesis by (simp add: reportable_def)
qed simp

lemma capstats_seg: "seg_ok st \<Longrightarrow> seg_ok (shm_update_capstats st recv ifdr kdr)"
  by (simp add: shm_update_capstats_def seg_ok_def shm_layout_def windows_ok_def)

lemma callback_seg:
  assumes "callback kp ck pstat sec usec cap len bs s = Inr s'" "seg_ok (cap_shm (snd s))"
  shows "seg_ok (cap_shm (snd s'))"
proof -
  obtain t c where s: "s = (t, c)" by (cases s)
  define q where "q = (if t = 0 then (of_int sec, c)
    else if sec - int (unat t) \<ge> 1 then
      let (recv, ifdr, kdr) = get_libpcap_stats pstat in (of_int sec, c\<lparr>cap_shm := shm_update_capstats (cap_shm c) recv ifdr kdr\<rparr>)
    else (t, c))"
  have c1: "seg_ok (cap_shm (snd q))" using assms(2) capstats_seg by (simp add: q_def s Let_def split: prod.split)
  obtain hdr ret where "on_packet False (\<lambda>_ _ s. Inr s) (\<lambda>_ _ s. Inr s) kp ck hdr bs (snd q) = Inr (ret, snd s')"
    using assms(1) unfolding s callback_def prod.case q_def [symmetric] Let_def [of "\<lparr>hdr_ts = _, caplen = _, pkt_len = _\<rparr>"]
    by (cases q) (auto simp: bind_r_Inr_iff)
  from packet_flow [OF this c1] show ?thesis by simp
qed

subsection \<open>The system\<close>

type_synonym system_state = "(u32 \<times> unit cap_state) \<times> (tval_t \<times> stat_state)"

abbreviation segment :: "system_state \<Rightarrow> sharedif_t" where
  "segment w \<equiv> g_shm (cap_shm (snd (fst w)))"

inductive system :: "nat \<Rightarrow> nat \<Rightarrow> system_state \<Rightarrow> bool"
  for kp ck :: nat
where
  start: "shm_data_init skaddr akaddr True st0 = Inr (True, st) \<Longrightarrow>
    system kp ck ((0, \<lparr>cap_shm = cleanup_init st, last_sec = 0, cap_sim = ()\<rparr>), (zero_tval, stat_start))"
| packet: "system kp ck (c, s) \<Longrightarrow> callback kp ck pstat sec usec cap len bs c = Inr c' \<Longrightarrow> system kp ck (c', s)"
| iteration: "system kp ck (c, s) \<Longrightarrow> now \<le> now' \<Longrightarrow> statproc_step (now, now', segment (c, s)) s = Inr s' \<Longrightarrow> system kp ck (c, s')"

inductive_cases system_startE: "system kp ck ((0, c), (zero_tval, stat_start))"

lemma system_inv:
  assumes "system kp ck w"
  shows "seg_ok (cap_shm (snd (fst w))) \<and> proc_ok (snd w)"
  using assms
proof (induction rule: system.induct)
  case (start skaddr akaddr st0 st)
  from init_segment(1) [OF start] proc_ok_start show ?case by simp
next
  case (packet c s pstat sec usec cap len bs c')
  from callback_seg [OF packet.hyps(2)] packet.IH show ?case by simp
next
  case (iteration c s now now' s')
  then have "seg_ok (cap_shm (snd c))" "proc_ok s" by simp_all
  from statproc_step_cases [OF this(2) iteration.hyps(2) seg_reportable [OF this(1)]] iteration.hyps(3)
  have "proc_ok s'" by cases simp_all
  with iteration.IH show ?case by simp
qed

text \<open>
  C12: In every state that the two processes reach, however their steps interleave, an iteration of the statistics
  process completes, with two exceptions: a window of the segment is inverted and the copy of the segment leaves its
  bounds, or there is no stream in use and the empty report is read. No assertion fails in it, and no other access
  is out of bounds.
\<close>

theorem statistics_fail_only:
  assumes "system kp ck w" "now \<le> now'"
  defines "r \<equiv> statproc_step (now, now', segment w) (snd w)"
  shows "(\<exists>s'. r = Inr s' \<and> system kp ck (fst w, s')) \<or> r = Inl OutOfBounds \<and> inverted (segment w) \<or>
    r = Inl Uninit \<and> used_streams (segment w) = []"
proof -
  have inv: "seg_ok (cap_shm (snd (fst w)))" "proc_ok (snd w)" using system_inv [OF assms(1)] by simp_all
  from statproc_step_cases [OF inv(2) assms(2) seg_reportable [OF inv(1)]] show ?thesis
  proof cases
    case (1 s')
    moreover have "system kp ck (fst w, s')" using system.iteration [of kp ck "fst w" "snd w"] assms 1(1) by simp
    ultimately show ?thesis by (simp add: r_def)
  qed (simp_all add: r_def)
qed

theorem statistics_fail_only_witness:
  "\<exists>w s'. system 7 8 w \<and> statproc_step (50, 50, segment w) (snd w) = Inr s' \<and> system 7 8 (fst w, s')"
proof -
  have heap: "heap_ok (shm_statics True)" by (simp add: shm_statics_def)
  obtain st where st: "shm_data_init (\<lambda>_. 0) (\<lambda>_. 0) True (shm_statics True) = Inr (True, st)"
    by (rule shm_init_ok [OF heap, of "\<lambda>_. 0" "\<lambda>_. 0"])
  let ?w = "((0, \<lparr>cap_shm = cleanup_init st, last_sec = 0, cap_sim = ()\<rparr>), (zero_tval, stat_start))"
  have w: "system 7 8 ?w" by (rule system.start [OF st])
  have "statproc_step (50, 50, segment ?w) (snd ?w) = Inr (zero_tval\<lparr>tv_sec := 50\<rparr>, stat_start)"
    by (simp add: statproc_step_def zero_tval_def)
  with statistics_fail_only [OF w, of 50 50] w show ?thesis by fastforce
qed

end
