(* ===== verification/Sigsegv.thy ===== *)
theory Sigsegv
  imports Prelude
begin

text \<open>
  The handler for segmentation faults (\<^verbatim>\<open>utils/sigsegv.c\<close>) as it is compiled on x86-64 with the GNU C library
  (\<^verbatim>\<open>REG_RIP\<close> is defined): it prints what the kernel says of the fault, the registers and the chain of stack frames,
  and ends the process. The programs of the repository do not link it, and its calls are commented out;
  where it is linked, a constructor installs it before \<^verbatim>\<open>main\<close>.

  The memory is a partial function from addresses to the words there: reading where nothing is mapped is a second fault,
  inside the handler. \<^verbatim>\<open>dladdr\<close> and \<^verbatim>\<open>__cxa_demangle\<close> are arguments. What goes to \<^verbatim>\<open>stderr\<close> is text.
\<close>

subsection \<open>Formats\<close>

definition hex_digit :: "nat \<Rightarrow> char" where
  "hex_digit d = char_of (if d < 10 then 48 + d else 87 + d)"

fun hex :: "nat \<Rightarrow> string" where
  "hex n = (if n < 16 then [] else hex (n div 16)) @ [hex_digit (n mod 16)]"

declare hex.simps [simp del]

text \<open>The conversions \<^verbatim>\<open>%p\<close>, \<^verbatim>\<open>%016lx\<close>, \<^verbatim>\<open>%02d\<close>, \<^verbatim>\<open>% 2d\<close> of a positive number, and \<^verbatim>\<open>%s\<close> of a pointer that may be null.\<close>

definition fmt_ptr :: "u64 \<Rightarrow> string" where
  "fmt_ptr p = (if p = 0 then ''(nil)'' else ''0x'' @ hex (unat p))"

definition zero_pad :: "nat \<Rightarrow> string \<Rightarrow> string" where
  "zero_pad w s = replicate (w - length s) (CHR ''0'') @ s"

definition fmt_str :: "string option \<Rightarrow> string" where
  "fmt_str s = (case s of None \<Rightarrow> ''(null)'' | Some t \<Rightarrow> t)"

abbreviation nl :: char where "nl \<equiv> CHR 0x0A"

subsection \<open>The handler\<close>

record siginfo_t =
  si_errno :: int
  si_code :: int
  si_addr :: u64

record Dl_info =
  dli_fname :: string
  dli_sname :: "string option"
  dli_saddr :: u64

type_synonym memory = "u64 \<Rightarrow> u64 option"
type_synonym symbols = "u64 \<Rightarrow> Dl_info option"

definition NGREG :: nat where "NGREG = 23"
definition REG_RBP :: nat where "REG_RBP = 10"
definition REG_RIP :: nat where "REG_RIP = 16"

definition si_codes :: "string list" where
  "si_codes = ['''', ''SEGV_MAPERR'', ''SEGV_ACCERR'']"

definition si_code_name :: "int \<Rightarrow> string c_result" where
  "si_code_name i = (if 0 \<le> i \<and> nat i < length si_codes then Inr (si_codes ! nat i) else Inl OutOfBounds)"

definition reg_line :: "(nat \<Rightarrow> u64) \<Rightarrow> nat \<Rightarrow> string" where
  "reg_line gregs i = ''reg['' @ zero_pad 2 (dec i) @ '']       = 0x'' @ zero_pad 16 (hex (unat (gregs i))) @ [nl]"

text \<open>The line of a frame. The offset is cut to 32 bits.\<close>

definition frame_line :: "(string option \<Rightarrow> string option) \<Rightarrow> int \<Rightarrow> u64 \<Rightarrow> Dl_info \<Rightarrow> string" where
  "frame_line demangle f ip dlinfo =
     (let symname = (case demangle (dli_sname dlinfo) of Some tmp \<Rightarrow> Some tmp | None \<Rightarrow> dli_sname dlinfo) in
      '' '' @ dec_int f @ '': '' @ fmt_ptr ip @ '' <'' @ fmt_str symname @ ''+'' @ dec (unat (ucast (ip - dli_saddr dlinfo) :: u32)) @
      ''> ('' @ dli_fname dlinfo @ '')'' @ [nl])"

definition read_word :: "memory \<Rightarrow> u64 \<Rightarrow> u64 c_result" where
  "read_word mem a = (case mem a of None \<Rightarrow> Inl OutOfBounds | Some w \<Rightarrow> Inr w)"

text \<open>
  The loop over the frames: each holds the frame of its caller and, above it, the address that it returns to. \<open>f\<close> counts
  the lines in an \<^verbatim>\<open>int\<close>.
\<close>

function stack_walk :: "symbols \<Rightarrow> (string option \<Rightarrow> string option) \<Rightarrow> memory \<Rightarrow> int \<Rightarrow> u64 \<Rightarrow> u64 \<Rightarrow> string \<Rightarrow> string c_result" where
  "stack_walk dladdr demangle mem f bp ip err =
     (if bp = 0 \<or> ip = 0 then Inr err
      else case dladdr ip of
        None \<Rightarrow> Inr err
      | Some dlinfo \<Rightarrow>
          if f \<ge> INT_MAX then Inl IntOverflow
          else
            let err1 = err @ frame_line demangle (f + 1) ip dlinfo in
            if dli_sname dlinfo = Some ''main'' then Inr err1
            else
              bind_r (read_word mem (bp + 8)) (\<lambda>ip1.
              bind_r (read_word mem bp) (\<lambda>bp1.
                stack_walk dladdr demangle mem (f + 1) bp1 ip1 err1)))"
  by pat_completeness auto
termination
  by (relation "measure (\<lambda>(_, _, _, f, _). nat (INT_MAX - f))") auto

declare stack_walk.simps [simp del]

text \<open>The result is what has been printed and the argument of \<^verbatim>\<open>exit\<close>.\<close>

definition signal_segv ::
  "symbols \<Rightarrow> (string option \<Rightarrow> string option) \<Rightarrow> memory \<Rightarrow> int \<Rightarrow> siginfo_t \<Rightarrow> (nat \<Rightarrow> u64) \<Rightarrow> (string \<times> int) c_result"
where
  "signal_segv dladdr demangle mem signum info gregs =
     bind_r (si_code_name (si_code info)) (\<lambda>code.
     let err =
       ''Segmentation Fault!'' @ [nl] @
       ''info.si_signo = '' @ dec_int signum @ [nl] @
       ''info.si_errno = '' @ dec_int (si_errno info) @ [nl] @
       ''info.si_code  = '' @ dec_int (si_code info) @ '' ('' @ code @ '')'' @ [nl] @
       ''info.si_addr  = '' @ fmt_ptr (si_addr info) @ [nl] @
       concat (map (reg_line gregs) [0..<NGREG]) @
       ''Stack trace:'' @ [nl] in
     bind_r (stack_walk dladdr demangle mem 0 (gregs REG_RBP) (gregs REG_RIP) err) (\<lambda>err1.
       Inr (err1 @ ''End of stack trace'' @ [nl], -1)))"

text \<open>
  Installing the handler. The result of \<^verbatim>\<open>sigaction\<close>, and the text of \<^verbatim>\<open>errno\<close> where it fails, are arguments. \<open>Default\<close> is what
  happens on a signal without a handler.
\<close>

datatype disposition = Default | Handler_signal_segv

record sigaction_t =
  sa_sigaction :: disposition
  sa_flags :: u32

definition SIGSEGV :: int where "SIGSEGV = 11"
definition SA_SIGINFO :: u32 where "SA_SIGINFO = 4"

record signal_state =
  actions :: "int \<Rightarrow> sigaction_t"
  sig_stderr :: string

definition setup_sigsegv :: "int \<Rightarrow> string \<Rightarrow> signal_state \<Rightarrow> int \<times> signal_state" where
  "setup_sigsegv status errtext s =
     (let action = \<lparr>sa_sigaction = Handler_signal_segv, sa_flags = SA_SIGINFO\<rparr> in
      if status < 0 then (0, s\<lparr>sig_stderr := sig_stderr s @ ''sigaction: '' @ errtext @ [nl]\<rparr>)
      else (1, s\<lparr>actions := (actions s)(SIGSEGV := action)\<rparr>))"

definition init :: "int \<Rightarrow> string \<Rightarrow> signal_state \<Rightarrow> signal_state" where
  "init status errtext s = snd (setup_sigsegv status errtext s)"

subsection \<open>Chains of frames\<close>

text \<open>
  The chain that starts with frame pointer \<open>bp\<close> and address \<open>ip\<close>: the addresses, from the fault outwards, up to \<^verbatim>\<open>main\<close>, a
  null pointer or an address without a symbol table.
\<close>

fun chain :: "symbols \<Rightarrow> memory \<Rightarrow> u64 \<Rightarrow> u64 \<Rightarrow> u64 list \<Rightarrow> bool" where
  "chain dladdr mem bp ip [] \<longleftrightarrow> bp = 0 \<or> ip = 0 \<or> dladdr ip = None"
| "chain dladdr mem bp ip (a # as) \<longleftrightarrow> a = ip \<and> bp \<noteq> 0 \<and> ip \<noteq> 0 \<and>
     (case dladdr ip of
        None \<Rightarrow> False
      | Some d \<Rightarrow>
          if dli_sname d = Some ''main'' then as = []
          else case (mem bp, mem (bp + 8)) of (Some bp1, Some ip1) \<Rightarrow> chain dladdr mem bp1 ip1 as | _ \<Rightarrow> False)"

primrec trace_text :: "symbols \<Rightarrow> (string option \<Rightarrow> string option) \<Rightarrow> int \<Rightarrow> u64 list \<Rightarrow> string" where
  "trace_text dladdr demangle f [] = []"
| "trace_text dladdr demangle f (a # as) =
     frame_line demangle (f + 1) a (the (dladdr a)) @ trace_text dladdr demangle (f + 1) as"

lemma walk_chain:
  assumes "chain dladdr mem bp ip as" "f + int (length as) \<le> INT_MAX"
  shows "stack_walk dladdr demangle mem f bp ip err = Inr (err @ trace_text dladdr demangle f as)"
  using assms
proof (induction as arbitrary: f bp ip err)
  case Nil
  then show ?case by (subst stack_walk.simps) auto
next
  case (Cons a as)
  from Cons.prems(1) obtain d where d: "dladdr ip = Some d" "a = ip" "bp \<noteq> 0" "ip \<noteq> 0" by (auto split: option.splits)
  have f: "\<not> INT_MAX \<le> f" "f + 1 + int (length as) \<le> INT_MAX" using Cons.prems(2) by auto
  show ?case
  proof (cases "dli_sname d = Some ''main''")
    case True
    then show ?thesis using Cons.prems(1) d f(1) by (subst stack_walk.simps) simp
  next
    case False
    then obtain bp1 ip1 where next1: "mem bp = Some bp1" "mem (bp + 8) = Some ip1" "chain dladdr mem bp1 ip1 as"
      using Cons.prems(1) d by (auto split: option.splits)
    show ?thesis using Cons.IH [OF next1(3) f(2)] d f(1) False next1(1,2) by (subst stack_walk.simps) (simp add: read_word_def)
  qed
qed

lemma walk_returns:
  assumes "stack_walk dladdr demangle mem f bp ip err = Inr err'" "f \<le> INT_MAX"
  shows "\<exists>as. chain dladdr mem bp ip as \<and> f + int (length as) \<le> INT_MAX"
  using assms
proof (induction dladdr demangle mem f bp ip err rule: stack_walk.induct)
  case (1 dladdr demangle mem f bp ip err)
  show ?case
  proof (cases "bp = 0 \<or> ip = 0 \<or> dladdr ip = None")
    case True
    then show ?thesis using 1(3) by (intro exI [of _ "[]"]) simp
  next
    case False
    then obtain d where d: "dladdr ip = Some d" by auto
    from 1(2) have f: "\<not> INT_MAX \<le> f" using False d by (subst (asm) stack_walk.simps) auto
    show ?thesis
    proof (cases "dli_sname d = Some ''main''")
      case True
      then show ?thesis using False d f by (intro exI [of _ "[ip]"]) simp
    next
      case other: False
      from 1(2) obtain bp1 ip1 where n: "mem (bp + 8) = Some ip1" "mem bp = Some bp1"
        "stack_walk dladdr demangle mem (f + 1) bp1 ip1 (err @ frame_line demangle (f + 1) ip d) = Inr err'"
        using False d f other
        by (subst (asm) stack_walk.simps) (auto simp: bind_r_Inr_iff read_word_def split: option.splits)
      have "\<not> (bp = 0 \<or> ip = 0)" "f + 1 \<le> INT_MAX" using False f by simp_all
      from 1(1) [OF this(1) d f refl other _ _ n(3) this(2)] n(1,2)
      obtain as where "chain dladdr mem bp1 ip1 as" "f + 1 + int (length as) \<le> INT_MAX" by (auto simp: read_word_def)
      then show ?thesis using False d f other n by (intro exI [of _ "ip # as"]) auto
    qed
  qed
qed

text \<open>Frames that lead to each other for ever.\<close>

definition endless :: "symbols \<Rightarrow> memory \<Rightarrow> (u64 \<times> u64) set \<Rightarrow> bool" where
  "endless dladdr mem S \<longleftrightarrow> (\<forall>(bp, ip) \<in> S. bp \<noteq> 0 \<and> ip \<noteq> 0 \<and> (\<exists>d. dladdr ip = Some d \<and> dli_sname d \<noteq> Some ''main'') \<and>
     (\<exists>bp1 ip1. mem bp = Some bp1 \<and> mem (bp + 8) = Some ip1 \<and> (bp1, ip1) \<in> S))"

lemma walk_endless:
  assumes "endless dladdr mem S" "(bp, ip) \<in> S"
  shows "stack_walk dladdr demangle mem f bp ip err = Inl IntOverflow"
  using assms
proof (induction dladdr demangle mem f bp ip err rule: stack_walk.induct)
  case (1 dladdr demangle mem f bp ip err)
  from 1(2,3) obtain d bp1 ip1 where s: "bp \<noteq> 0" "ip \<noteq> 0" "dladdr ip = Some d" "dli_sname d \<noteq> Some ''main''"
    "mem bp = Some bp1" "mem (bp + 8) = Some ip1" "(bp1, ip1) \<in> S" by (fastforce simp: endless_def)
  have rd: "read_word mem (bp + 8) = Inr ip1" "read_word mem bp = Inr bp1" using s by (simp_all add: read_word_def)
  show ?case
  proof (cases "INT_MAX \<le> f")
    case True
    then show ?thesis using s by (subst stack_walk.simps) simp
  next
    case False
    have "\<not> (bp = 0 \<or> ip = 0)" using s by simp
    from 1(1) [OF this s(3) False refl s(4) rd 1(2) s(7)]
    show ?thesis using s(1-4) rd False by (subst stack_walk.simps) simp
  qed
qed

subsection \<open>Properties\<close>

definition segv_head :: "int \<Rightarrow> siginfo_t \<Rightarrow> (nat \<Rightarrow> u64) \<Rightarrow> string" where
  "segv_head signum info gregs =
     ''Segmentation Fault!'' @ [nl] @ ''info.si_signo = '' @ dec_int signum @ [nl] @ ''info.si_errno = '' @ dec_int (si_errno info) @ [nl] @
     ''info.si_code  = '' @ dec_int (si_code info) @ '' ('' @ si_codes ! nat (si_code info) @ '')'' @ [nl] @
     ''info.si_addr  = '' @ fmt_ptr (si_addr info) @ [nl] @ concat (map (reg_line gregs) [0..<NGREG]) @ ''Stack trace:'' @ [nl]"

lemma code_name: "si_code_name i = (if i \<in> {0..2} then Inr (si_codes ! nat i) else Inl OutOfBounds)"
  by (auto simp: si_code_name_def si_codes_def)

lemma segv_run:
  assumes "si_code info \<in> {0..2}"
  shows "signal_segv dladdr demangle mem signum info gregs =
    bind_r (stack_walk dladdr demangle mem 0 (gregs REG_RBP) (gregs REG_RIP) (segv_head signum info gregs)) (\<lambda>err.
      Inr (err @ ''End of stack trace'' @ [nl], -1))"
  using assms by (simp add: signal_segv_def code_name segv_head_def)

text \<open>
  C36: The handler returns exactly when the kernel's code for the fault is one of the three it knows and the frames form a chain
  that ends, in \<^verbatim>\<open>main\<close>, a null pointer or an address without symbols; then it has printed the description of the fault, the
  registers and one line per frame, numbered from one, from the fault outwards, and it ends the process with status -1.
\<close>

theorem segv_report:
  "signal_segv dladdr demangle mem signum info gregs = Inr (out, ret) \<longleftrightarrow>
    si_code info \<in> {0..2} \<and> ret = -1 \<and>
    (\<exists>as. chain dladdr mem (gregs REG_RBP) (gregs REG_RIP) as \<and> int (length as) \<le> INT_MAX \<and>
      out = segv_head signum info gregs @ trace_text dladdr demangle 0 as @ ''End of stack trace'' @ [nl])"
proof (cases "si_code info \<in> {0..2}")
  case False
  then show ?thesis by (auto simp: signal_segv_def code_name)
next
  case True
  let ?w = "stack_walk dladdr demangle mem 0 (gregs REG_RBP) (gregs REG_RIP) (segv_head signum info gregs)"
  show ?thesis
  proof
    assume "signal_segv dladdr demangle mem signum info gregs = Inr (out, ret)"
    then obtain err where w: "?w = Inr err" "out = err @ ''End of stack trace'' @ [nl]" "ret = -1"
      by (auto simp: segv_run [OF True] bind_r_Inr_iff)
    from walk_returns [OF w(1)] obtain as where as: "chain dladdr mem (gregs REG_RBP) (gregs REG_RIP) as" "int (length as) \<le> INT_MAX"
      using INT_MAX_def by auto
    moreover have "err = segv_head signum info gregs @ trace_text dladdr demangle 0 as"
      using walk_chain [OF as(1), of 0] as(2) w(1) by simp
    ultimately show "si_code info \<in> {0..2} \<and> ret = -1 \<and>
      (\<exists>as. chain dladdr mem (gregs REG_RBP) (gregs REG_RIP) as \<and> int (length as) \<le> INT_MAX \<and>
        out = segv_head signum info gregs @ trace_text dladdr demangle 0 as @ ''End of stack trace'' @ [nl])"
      using True w by auto
  next
    assume "si_code info \<in> {0..2} \<and> ret = -1 \<and>
      (\<exists>as. chain dladdr mem (gregs REG_RBP) (gregs REG_RIP) as \<and> int (length as) \<le> INT_MAX \<and>
        out = segv_head signum info gregs @ trace_text dladdr demangle 0 as @ ''End of stack trace'' @ [nl])"
    then show "signal_segv dladdr demangle mem signum info gregs = Inr (out, ret)"
      using walk_chain [of dladdr mem "gregs REG_RBP" "gregs REG_RIP" _ 0] by (auto simp: segv_run)
  qed
qed

text \<open>
  C37: What else can happen: a fault whose code is not one of the three reads past the end of the table of names (a general
  protection fault has the code 128, a signal that was sent by another thread a negative one), and a chain of frames that
  never ends, such as a frame that is its own caller, is printed until the counter overflows.
\<close>

theorem segv_fails:
  assumes "si_code info \<notin> {0..2} \<or> endless dladdr mem S \<and> (gregs REG_RBP, gregs REG_RIP) \<in> S"
  shows "signal_segv dladdr demangle mem signum info gregs = Inl (if si_code info \<in> {0..2} then IntOverflow else OutOfBounds)"
proof (cases "si_code info \<in> {0..2}")
  case True
  then show ?thesis using assms walk_endless [of dladdr mem S "gregs REG_RBP" "gregs REG_RIP" demangle 0] by (simp add: segv_run)
next
  case False
  then show ?thesis by (simp only: signal_segv_def code_name if_False bind_r_simps)
qed

theorem segv_fails_witness:
  "signal_segv (\<lambda>_. None) (\<lambda>_. None) (\<lambda>_. None) 11 \<lparr>si_errno = 0, si_code = 128, si_addr = 0\<rparr> (\<lambda>_. 0) = Inl OutOfBounds \<and>
   signal_segv (\<lambda>_. Some \<lparr>dli_fname = ''minflocap'', dli_sname = Some ''loop'', dli_saddr = 0x400000\<rparr>) (\<lambda>_. None)
     (\<lambda>a. if a = 0x7000 then Some 0x7000 else if a = 0x7008 then Some 0x400010 else None) 11
     \<lparr>si_errno = 0, si_code = 1, si_addr = 0\<rparr> (\<lambda>i. if i = REG_RBP then 0x7000 else 0x400010) = Inl IntOverflow"
proof -
  let ?dl = "\<lambda>_ :: u64. Some \<lparr>dli_fname = ''minflocap'', dli_sname = Some ''loop'', dli_saddr = 0x400000\<rparr>"
  let ?mem = "\<lambda>a :: u64. if a = 0x7000 then Some 0x7000 else if a = 0x7008 then Some 0x400010 else None :: u64 option"
  have "endless ?dl ?mem {(0x7000, 0x400010)}" by (simp add: endless_def)
  then show ?thesis
    using segv_fails [of "\<lparr>si_errno = 0, si_code = 128, si_addr = 0\<rparr>" "\<lambda>_. None" "\<lambda>_. None" "{}" "\<lambda>_. 0" "\<lambda>_. None" 11]
      segv_fails [of "\<lparr>si_errno = 0, si_code = 1, si_addr = 0\<rparr>" ?dl ?mem "{(0x7000, 0x400010)}"
        "\<lambda>i. if i = REG_RBP then 0x7000 else 0x400010" "\<lambda>_. None" 11]
    by (simp add: REG_RBP_def REG_RIP_def)
qed

text \<open>The constructor installs the handler exactly when \<^verbatim>\<open>sigaction\<close> succeeds, and touches no other signal.\<close>

lemma init_installs:
  "sa_sigaction (actions (init status errtext s) SIGSEGV) = (if status < 0 then sa_sigaction (actions s SIGSEGV) else Handler_signal_segv)"
  "sig \<noteq> SIGSEGV \<Longrightarrow> actions (init status errtext s) sig = actions s sig"
  by (simp_all add: init_def setup_sigsegv_def Let_def)

text \<open>Three frames: the fault in \<^verbatim>\<open>f\<close>, its caller, whose name is not known, and \<^verbatim>\<open>main\<close>.\<close>

definition demo_symbols :: symbols where
  "demo_symbols a = Some \<lparr>dli_fname = ''rminflo'',
     dli_sname = (if a < 0x400100 then Some ''f'' else if a < 0x400200 then None else Some ''main''), dli_saddr = 0x400000\<rparr>"

lemma demo_frames:
  "chain demo_symbols [0x7000 \<mapsto> 0x7100, 0x7008 \<mapsto> 0x400110, 0x7100 \<mapsto> 0x7200, 0x7108 \<mapsto> 0x400220] 0x7000 0x400010 [0x400010, 0x400110, 0x400220]"
  "trace_text demo_symbols (\<lambda>_. None) 0 [0x400010, 0x400110, 0x400220] =
    '' 1: 0x400010 <f+16> (rminflo)'' @ [nl] @ '' 2: 0x400110 <(null)+272> (rminflo)'' @ [nl] @ '' 3: 0x400220 <main+544> (rminflo)'' @ [nl]"
  by (simp add: demo_symbols_def)
    (simp add: demo_symbols_def frame_line_def fmt_ptr_def fmt_str_def dec_int_def hex.simps dec.simps hex_digit_def, simp add: char_of_def bit_numeral_rec bit_0)

end
