(* ===== verification/EndToEnd.thy ===== *)
theory EndToEnd
  imports Conversations TwoProcesses
begin

text \<open>
  The components together: what the capture keeps of the segment while no connection ends is what the statistics need of it,
  in the file mode (\<^verbatim>\<open>rminflo\<close>: \<^verbatim>\<open>capture/main.c\<close>, \<^verbatim>\<open>capture/readcap.c\<close> and \<^verbatim>\<open>statproc/statproc_sim.c\<close> in one process) and in the
  live system of two processes.
\<close>

subsection \<open>The segment between the packets\<close>

lemma conv_upright:
  assumes "conv_ok A kp tr st"
  shows "\<not> inverted (g_shm st)"
proof -
  have "mga_inv stream_array (stream_indexes (g_shm st)) (shm_streams (g_shm st))"
    and addrs: "\<And>b. mga_inv (part_array b) (part_info st b) (shm_addrs (g_shm st))"
    using assms by (auto simp: conv_ok_def quiet_streams_def Conversations.addr_ok_def addr_parts_def)
  then show ?thesis
    using addrs [of True] addrs [of False] by (simp add: inverted_def mga_inv_def part_info_def word_less_nat_alt not_less)
qed

lemma conv_reportable: "conv_ok A kp tr st \<Longrightarrow> reportable (g_shm st)"
  using conv_upright [of A kp tr st] seg_reportable [of st] by (simp add: conv_ok_def)

lemma conv_used:
  assumes "conv_ok A kp tr st" "tr \<noteq> []"
  shows "used_streams (g_shm st) \<noteq> []"
proof -
  let ?p = "stream_indexes (g_shm st)" and ?es = "shm_streams (g_shm st)"
  obtain T where q: "quiet_streams kp T st" "tracks tr T st" using assms(1) by (auto simp: conv_ok_def)
  have inv: "mga_inv stream_array ?p ?es" and ran: "ran T = taken_slots stream_array ?es" using q(1) by (simp_all add: quiet_streams_def)
  let ?b = "bucket (fst (hd tr))"
  have "of_bucket ?b tr \<noteq> []" using assms(2) by (cases tr) (simp_all add: of_bucket_def)
  then obtain i where "T ?b = Some i" using q(2) [unfolded tracks_def, rule_format, of ?b] by (cases "T ?b") simp_all
  then have "i \<in> window stream_array ?p ?es" using ran strm.taken_slots_window [OF inv] by (auto simp: ran_def)
  then have i: "unat (idx_lo ?p) < i" "i < unat (idx_hi ?p)" "tv_sec (si_tstart (aget ?es i)) \<noteq> 0" by (simp_all add: window_def taken_stream)
  have "unat (idx_lo ?p + 1) = unat (idx_lo ?p) + 1" using inv by (intro unat_plus1_less [of _ "idx_hi ?p"]) (simp add: mga_inv_def word_less_nat_alt)
  then have "i \<in> set (window_of ?p)" using i by (simp add: window_of_def)
  then have "i \<in> set (used_streams (g_shm st))" using i(3) by (simp add: used_streams_def used_stream_def IS_EMPTY_SLOT_def)
  then show ?thesis by auto
qed

subsection \<open>The two processes\<close>

text \<open>
  The runs of the live system in which the packets are plain and their addresses are from \<open>A\<close>. \<open>tr\<close> are the packets that have been
  tracked.
\<close>

inductive calm_system :: "u32 set \<Rightarrow> nat \<Rightarrow> nat \<Rightarrow> trace \<Rightarrow> system_state \<Rightarrow> bool"
  for A :: "u32 set" and kp ck :: nat
where
  start: "heap_ok st0 \<Longrightarrow> shm_data_init skaddr akaddr True st0 = Inr (True, st) \<Longrightarrow>
    calm_system A kp ck [] ((0, \<lparr>cap_shm = cleanup_init st, last_sec = 0, cap_sim = ()\<rparr>), (zero_tval, stat_start))"
| packet: "calm_system A kp ck tr (c, s) \<Longrightarrow> plain_packet (pstat, sec, usec, cap, len, bs) \<Longrightarrow>
    trace_addrs (live_trace [(pstat, sec, usec, cap, len, bs)]) \<subseteq> A \<Longrightarrow> callback kp ck pstat sec usec cap len bs c = Inr c' \<Longrightarrow>
    calm_system A kp ck (tr @ live_trace [(pstat, sec, usec, cap, len, bs)]) (c', s)"
| iteration: "calm_system A kp ck tr (c, s) \<Longrightarrow> now \<le> now' \<Longrightarrow> statproc_step (now, now', segment (c, s)) s = Inr s' \<Longrightarrow>
    calm_system A kp ck tr (c, s')"

lemma calm_is_system: "calm_system A kp ck tr w \<Longrightarrow> system kp ck w"
  by (induction rule: calm_system.induct) (blast intro: system.intros)+

lemma calm_inv:
  assumes "calm_system A kp ck tr w" "addrs_fit A"
  shows "conv_ok A kp tr (cap_shm (snd (fst w)))"
  using assms(1)
proof (induction rule: calm_system.induct)
  case (start st0 skaddr akaddr st)
  obtain st' where "shm_data_init skaddr akaddr True st0 = Inr (True, st')" "conv_ok A kp [] (cleanup_init st')"
    by (rule conv_start [OF start(1)])
  with start(2) show ?case by simp
next
  case (packet tr c s pstat sec usec cap len bs c')
  obtain t c0 where c: "c = (t, c0)" by (cases c)
  with packet.IH have "conv_ok A kp tr (cap_shm c0)" by simp
  then obtain t' c1 where "callback kp ck pstat sec usec cap len bs (t, c0) = Inr (t', c1)"
    "conv_ok A kp (tr @ live_trace [(pstat, sec, usec, cap, len, bs)]) (cap_shm c1)"
    by (rule callback_total [OF _ assms(2) packet.hyps(2,3)])
  with packet.hyps(4) c show ?case by auto
qed simp

lemma conv_iteration:
  assumes "conv_ok A kp tr (cap_shm (snd c))" "proc_ok s" "now \<le> now'"
  obtains s' where "statproc_step (now, now', segment (c, s)) s = Inr s'"
  | "tr = []" "statproc_step (now, now', segment (c, s)) s = Inl Uninit"
proof -
  have seg: "reportable (segment (c, s))" "\<not> inverted (segment (c, s))" "tr \<noteq> [] \<Longrightarrow> used_streams (segment (c, s)) \<noteq> []"
    using conv_reportable [OF assms(1)] conv_upright [OF assms(1)] conv_used [OF assms(1)] by simp_all
  from statproc_step_cases [OF assms(2,3), of "segment (c, s)"] seg(1) show ?thesis
    by cases (use that seg(2,3) in blast)+
qed

text \<open>
  C2: While no connection ends and the addresses fit their table, the two processes run: in every state that they reach by
  interleaving their steps, the segment has the counts of the conversations so far, the next packet is handled without a fault,
  and the next iteration of the statistics completes, with one exception: a minute can end before any packet has been
  tracked.
\<close>

theorem calm_system_runs:
  assumes "calm_system A kp ck tr w" "addrs_fit A" and "now \<le> now'"
    and "plain_packet (pstat, sec, usec, cap, len, bs)" "trace_addrs (live_trace [(pstat, sec, usec, cap, len, bs)]) \<subseteq> A"
  defines "r \<equiv> statproc_step (now, now', segment w) (snd w)"
  shows "conversations_counted kp tr (cap_shm (snd (fst w))) \<and>
    (\<exists>c'. callback kp ck pstat sec usec cap len bs (fst w) = Inr c' \<and>
      calm_system A kp ck (tr @ live_trace [(pstat, sec, usec, cap, len, bs)]) (c', snd w)) \<and>
    ((\<exists>s'. r = Inr s' \<and> calm_system A kp ck tr (fst w, s')) \<or> tr = [] \<and> r = Inl Uninit)"
proof (intro conjI)
  have w: "calm_system A kp ck tr (fst w, snd w)" using assms(1) by simp
  have ok: "conv_ok A kp tr (cap_shm (snd (fst w)))" by (rule calm_inv [OF assms(1,2)])
  show "conversations_counted kp tr (cap_shm (snd (fst w)))" by (rule conv_counted [OF ok])
  obtain t' c' where "callback kp ck pstat sec usec cap len bs (fst (fst w), snd (fst w)) = Inr (t', c')"
    by (rule callback_total [OF ok assms(2,4,5)])
  then have "callback kp ck pstat sec usec cap len bs (fst w) = Inr (t', c')" by simp
  with calm_system.packet [OF w assms(4,5)]
  show "\<exists>c'. callback kp ck pstat sec usec cap len bs (fst w) = Inr c' \<and>
      calm_system A kp ck (tr @ live_trace [(pstat, sec, usec, cap, len, bs)]) (c', snd w)" by blast
  have "proc_ok (snd w)" using system_inv [OF calm_is_system [OF assms(1)]] by blast
  from conv_iteration [OF ok this assms(3)]
  show "(\<exists>s'. r = Inr s' \<and> calm_system A kp ck tr (fst w, s')) \<or> tr = [] \<and> r = Inl Uninit"
  proof cases
    case (1 s')
    then have "statproc_step (now, now', segment (fst w, snd w)) (snd w) = Inr s'" by simp
    from calm_system.iteration [OF w assms(3) this] 1 show ?thesis by (simp add: r_def)
  qed (simp add: r_def)
qed

theorem calm_system_runs_witness:
  "\<exists>w w' s'. calm_system (trace_addrs (live_trace demo_traffic)) 7 8 [] w \<and>
     calm_system (trace_addrs (live_trace demo_traffic)) 7 8 [(dns, 100)] w' \<and> fst w' \<noteq> fst w \<and>
     statproc_step (50, 50, segment w') (snd w') = Inr s' \<and> calm_system (trace_addrs (live_trace demo_traffic)) 7 8 [(dns, 100)] (fst w', s')"
proof -
  let ?A = "trace_addrs (live_trace demo_traffic)"
  obtain pstat sec usec cap len bs where p: "hd demo_traffic = (pstat, sec, usec, cap, len, bs)" by (cases "hd demo_traffic")
  have plain: "plain_packet (pstat, sec, usec, cap, len, bs)" unfolding p [symmetric] using demo_plain by (simp add: demo_traffic_def)
  have tr: "live_trace [(pstat, sec, usec, cap, len, bs)] = [(dns, 100)]" unfolding p [symmetric] by code_simp
  then have addrs: "trace_addrs (live_trace [(pstat, sec, usec, cap, len, bs)]) \<subseteq> ?A" by (simp add: trace_addrs_def demo_trace)
  have heap: "heap_ok (shm_statics True)" by (simp add: shm_statics_def)
  obtain st where st: "shm_data_init (\<lambda>_. 0) (\<lambda>_. 0) True (shm_statics True) = Inr (True, st)"
    by (rule shm_init_ok [OF heap, of "\<lambda>_. 0" "\<lambda>_. 0"])
  let ?w = "((0, \<lparr>cap_shm = cleanup_init st, last_sec = 0, cap_sim = ()\<rparr>), (zero_tval, stat_start))"
  have w: "calm_system ?A 7 8 [] ?w" by (rule calm_system.start [OF heap st])
  from calm_system_runs [OF w demo_fit order.refl [of 50] plain addrs] obtain c' where
    c': "calm_system ?A 7 8 [(dns, 100)] (c', (zero_tval, stat_start))" by (auto simp: tr)
  from calm_system_runs [OF this demo_fit order.refl [of 50] plain addrs] obtain s' where
    s': "statproc_step (50, 50, segment (c', (zero_tval, stat_start))) (zero_tval, stat_start) = Inr s'" "calm_system ?A 7 8 [(dns, 100)] (c', s')" by auto
  have "conv_ok ?A 7 [(dns, 100)] (cap_shm (snd c'))" "conv_ok ?A 7 [] (cap_shm (snd (fst ?w)))"
    using calm_inv [OF c' demo_fit] calm_inv [OF w demo_fit] by simp_all
  then have "conversations_counted 7 [(dns, 100)] (cap_shm (snd c'))" "conversations_counted 7 [] (cap_shm (snd (fst ?w)))"
    using conv_counted by blast+
  then have "c' \<noteq> fst ?w" by (auto simp: conversations_counted_def)
  with w c' s' show ?thesis by fastforce
qed

subsection \<open>Packets of a file\<close>

text \<open>One packet of a file: its bytes go to the start of the buffer, which is then handled.\<close>

definition handle_packet ::
  "'s sim_hook \<Rightarrow> 's sim_hook \<Rightarrow> nat \<Rightarrow> nat \<Rightarrow> pcap_pkthdr32_t \<times> u8 list \<Rightarrow> u8 list \<times> 's cap_state \<Rightarrow> (u8 list \<times> 's cap_state) c_result"
where
  "handle_packet before after kp ck = (\<lambda>(hdr, data) (buf, c).
     let buf1 = data @ drop (length data) buf in
     bind_r (on_packet True before after kp ck hdr buf1 c) (\<lambda>(_, c1). Inr (buf1, c1)))"

lemma finish_packet_zero: "finish_packet file after ck ts c = Inr (ret, c') \<Longrightarrow> ret = 0"
  by (auto simp: finish_packet_def c_simps split: if_splits)

lemma track_packet_zero: "track_packet file after kp ck hdr buf pkt key fl c = Inr (ret, c') \<Longrightarrow> ret = 0"
  by (auto simp: track_packet_def c_simps split: option.splits dest: finish_packet_zero)

lemma parsed_packet_zero: "parsed_packet file after kp ck hdr buf pkt c = Inr (ret, c') \<Longrightarrow> ret = 0"
  by (auto simp: parsed_packet_def c_simps Let_def split: if_splits dest: track_packet_zero)

lemma on_packet_zero: "on_packet file before after kp ck hdr buf c = Inr (ret, c') \<Longrightarrow> ret = 0"
  by (auto simp: on_packet_def bind_r_Inr_iff split: if_splits dest: parsed_packet_zero)

lemma feed_handles:
  "feed (\<lambda>hdr buf _. on_packet True before after kp ck hdr buf) pkts buf n c =
     bind_r (fold_r (handle_packet before after kp ck) pkts (buf, c)) (\<lambda>(_, c1). Inr (-1, c1))"
proof (induction pkts arbitrary: buf n c)
  case (Cons p pkts)
  let ?buf = "snd p @ drop (length (snd p)) buf"
  show ?case
  proof (cases "on_packet True before after kp ck (fst p) ?buf c")
    case (Inl e)
    then show ?thesis by (simp add: handle_packet_def split_def Let_def)
  next
    case (Inr r)
    then obtain c1 where "on_packet True before after kp ck (fst p) ?buf c = Inr (0, c1)"
      using on_packet_zero by (cases r) blast
    then show ?thesis using Cons by (simp add: handle_packet_def split_def Let_def)
  qed
qed simp

text \<open>The bytes of a capture file: the header of the file and the packets with their headers.\<close>

definition capture_file :: "u8 list \<Rightarrow> (pcap_pkthdr32_t \<times> u8 list) list \<Rightarrow> u8 list \<Rightarrow> u8 list" where
  "capture_file fhdr pkts tail = fhdr @ concat (map (\<lambda>(hdr, data). encode_hdr hdr @ data) pkts) @ tail"

lemma main_file_handles:
  assumes "length fhdr = PCAP_FILE_HEADER" "\<forall>(hdr, data) \<in> set pkts. unat (caplen hdr) = length data \<and> length data \<le> length buf"
    and "length tail < 16" "int (length pkts) \<le> INT_MAX"
  shows "main_file before after finish kp ck buf (Some (capture_file fhdr pkts tail)) c =
    bind_r (fold_r (handle_packet before after kp ck) pkts (buf, c)) (\<lambda>(_, c1).
      bind_r (finish 0 (g_shm (cap_shm c1)) (cap_sim c1)) (\<lambda>s. Inr (0, c1\<lparr>cap_sim := s\<rparr>)))"
proof -
  let ?cb = "\<lambda>hdr buf (_ :: int). on_packet True before after kp ck hdr buf"
  have "0 + int (length pkts) \<le> INT_MAX" using assms(4) by simp
  note read = read_pcap_feeds [OF assms(2,3) this, of ?cb c]
  show ?thesis
    unfolding main_file_def capture_file_def option.case append_eq_conv_conj using assms(1)
    by (simp add: read feed_handles bind_r_assoc) (simp add: split_def)
qed

text \<open>The final report as a function on the statistics of the file mode.\<close>

definition sim_end :: "u32 \<Rightarrow> sharedif_t \<Rightarrow> sim_state \<Rightarrow> sim_state c_result" where
  "sim_end sec shm sim = bind_r (sim_finish sec shm (sim_stat sim)) (\<lambda>sp. Inr (sim\<lparr>sim_stat := sp\<rparr>))"

subsection \<open>The time of the packets\<close>

text \<open>
  The statistics between two packets: \<open>ts\<close> is the time of the last one, \<open>later\<close> those of the packets to come, and the statistics
  have been initialised when the second of \<open>ts\<close> is later than \<open>s0\<close>, that of the first packet.
\<close>

definition sim_at :: "u32 \<Rightarrow> tval_t \<Rightarrow> tval_t list \<Rightarrow> sim_state \<Rightarrow> bool" where
  "sim_at s0 ts later sim \<longleftrightarrow> sim_ok sim \<and> tv_sec (sim_last_sec sim) = tv_sec ts \<and> (s0 < tv_sec ts \<longrightarrow> sp_initialized (sim_stat sim)) \<and>
     (\<forall>q \<in> set (ts # later). in_order (sim_last_sec sim) q)"

lemma in_order_sec:
  assumes "in_order p q"
  shows "tv_sec p \<le> tv_sec q"
proof -
  have int: "a \<le> b" if "0 \<le> (b - a) * 1000000 + (y - x)" "y < 1000000" "0 \<le> x" for a b x y :: int
  proof (rule ccontr)
    assume "\<not> a \<le> b"
    then have "b - a \<le> -1" by simp
    then have "(b - a) * 1000000 \<le> -1 * 1000000" by (rule mult_right_mono) simp
    with that show False by linarith
  qed
  show ?thesis unfolding word_le_def
    by (rule int [of _ _ "uint (tv_usec q)" "uint (tv_usec p)"])
      (use assms in \<open>simp_all add: in_order_def elapsed_us_def word_less_def\<close>)
qed

lemma sim_first:
  assumes "tv_sec ts \<noteq> 0" "\<forall>q \<in> set (ts # later). in_order ts q"
  shows "\<exists>sim. sim_before_packet ts shm sim_start = Inr sim \<and> sim_at (tv_sec ts) ts later sim"
  using assms by (simp add: sim_before_packet_def sim_start_def sim_at_def sim_ok_def zero_tval_def stat_ok_start)

lemma sim_next:
  assumes at: "sim_at s0 ts0 (ts # later) sim" and seg: "reportable shm" "used_streams shm \<noteq> []" and nz: "tv_sec ts0 \<noteq> 0"
    and ord: "\<forall>q \<in> set (ts # later). in_order ts q"
  shows "\<exists>sim'. sim_before_packet ts shm sim = Inr sim' \<and> sim_at s0 ts later sim'"
proof -
  let ?l = "sim_last_sec sim"
  have l: "sim_ok sim" "tv_sec ?l = tv_sec ts0" "s0 < tv_sec ts0 \<longrightarrow> sp_initialized (sim_stat sim)" "in_order ?l ts" "\<forall>q \<in> set later. in_order ?l q"
    using at by (simp_all add: sim_at_def)
  note sec = new_second [OF l(4)]
  show ?thesis
  proof (cases "tv_sec ts0 < tv_sec ts")
    case True
    have "stat_ok (tv_sec ?l) (sim_stat sim)" using l(1) by (simp add: sim_ok_def)
    moreover have "tv_sec ?l < tv_sec ts" using True l(2) by simp
    ultimately obtain sp where sp: "every_second ts shm (sim_stat sim) = Inr sp" "stat_ok (tv_sec ts) sp" "sp_initialized sp"
      by (rule every_second_ok [OF _ _ seg])
    have "tv_sec ts \<noteq> 0" using True by auto
    then show ?thesis using sp sec l(2) True nz ord by (simp add: sim_before_packet_def sim_at_def sim_ok_def)
  next
    case False
    then have "tv_sec ts = tv_sec ts0" using in_order_sec [OF l(4)] l(2) by simp
    then show ?thesis using sec l nz by (simp add: sim_before_packet_def sim_at_def)
  qed
qed

lemma sim_again:
  assumes "sim_at s0 ts later sim" "tv_sec ts \<noteq> 0"
  shows "sim_after_packet ts shm sim = Inr sim"
  using assms new_second [of "sim_last_sec sim" ts] by (simp add: sim_after_packet_def sim_before_packet_def sim_at_def)

subsection \<open>A run over a file\<close>

text \<open>
  The packets of a file as they are handled: each with the contents of the buffer then, which are its bytes and after them what
  earlier packets have left there. A packet of a file is always held, since the buffer is larger than all headers.
\<close>

type_synonym file_packet = "pcap_pkthdr32_t \<times> u8 list"

primrec handled :: "u8 list \<Rightarrow> file_packet list \<Rightarrow> file_packet list" where
  "handled buf [] = []"
| "handled buf (p # ps) = (let buf1 = snd p @ drop (length (snd p)) buf in (fst p, buf1) # handled buf1 ps)"

definition file_trace :: "file_packet list \<Rightarrow> trace" where
  "file_trace ps = concat (map (\<lambda>(hdr, buf). packet_trace hdr buf) ps)"

lemma large_held:
  assumes "96 \<le> length buf"
  shows "headers_held buf"
proof -
  obtain t off where skip: "ether_skip_vlan buf 0 = Inr (t, off)" "off \<le> 8" using skip_vlan_fits [of buf] assms by auto
  have "IP_HL (buf ! (14 + off)) \<le> 15" by (rule IP_HL_le)
  then show ?thesis using skip assms by (simp add: headers_held_def)
qed

lemma handled_step:
  assumes ok: "conv_ok A kp tr (cap_shm c)" and fit: "addrs_fit A" and key: "trace_addrs (packet_trace hdr buf) \<subseteq> A"
    and ts: "tv_sec (hdr_ts hdr) \<noteq> 0" and big: "96 \<le> length buf" and fin: "\<not> ends_connection hdr buf"
    and before: "sim_before_packet (hdr_ts hdr) (g_shm (cap_shm c)) (cap_sim c) = Inr sim"
    and after: "\<And>shm. sim_after_packet (hdr_ts hdr) shm sim = Inr sim"
  obtains c' where "on_packet True sim_before_packet sim_after_packet kp ck hdr buf c = Inr (0, c')"
    "conv_ok A kp (tr @ packet_trace hdr buf) (cap_shm c')" "cap_sim c' = sim"
proof -
  have "key_addrs k \<subseteq> A" if "packet_key hdr buf = Some k" for k using key that by (simp add: packet_trace_def trace_addrs_def)
  from on_packet_total [OF ok fit this ts large_held [OF big] fin, where ?file = True and before = sim_before_packet and after = sim_after_packet
      and s = sim and Q = "\<lambda>s. s = sim"]
  show ?thesis using that before after by (auto simp: hook_def)
qed

text \<open>
  What is asked of the packets of a file for the capture not to fault, whatever their times: they close no connection, their addresses
  are from \<open>A\<close>, and their time is not 0.
\<close>

definition steady_file :: "u32 set \<Rightarrow> u8 list \<Rightarrow> file_packet list \<Rightarrow> bool" where
  "steady_file A buf pkts \<longleftrightarrow>
     (\<forall>(hdr, b) \<in> set (handled buf pkts). tv_sec (hdr_ts hdr) \<noteq> 0 \<and> \<not> ends_connection hdr b) \<and>
     trace_addrs (file_trace (handled buf pkts)) \<subseteq> A \<and> 96 \<le> length buf"

lemma steady_cons:
  assumes "steady_file A buf (p # pkts)"
  defines "buf1 \<equiv> snd p @ drop (length (snd p)) buf"
  shows "tv_sec (hdr_ts (fst p)) \<noteq> 0" "\<not> ends_connection (fst p) buf1" "trace_addrs (packet_trace (fst p) buf1) \<subseteq> A" "96 \<le> length buf1"
    "steady_file A buf1 pkts"
proof -
  have tr: "file_trace (handled buf (p # pkts)) = packet_trace (fst p) buf1 @ file_trace (handled buf1 pkts)"
    by (simp add: file_trace_def Let_def buf1_def)
  have all: "\<forall>(hdr, b) \<in> set ((fst p, buf1) # handled buf1 pkts). tv_sec (hdr_ts hdr) \<noteq> 0 \<and> \<not> ends_connection hdr b"
    using assms(1) by (simp add: steady_file_def Let_def buf1_def)
  have sub: "trace_addrs (packet_trace (fst p) buf1) \<subseteq> A" "trace_addrs (file_trace (handled buf1 pkts)) \<subseteq> A"
    using assms(1) [unfolded steady_file_def tr] by (simp_all add: trace_addrs_def image_Un)
  have "96 \<le> length buf" using assms(1) by (simp add: steady_file_def)
  then have big: "96 \<le> length buf1" unfolding buf1_def length_append length_drop by linarith
  show "tv_sec (hdr_ts (fst p)) \<noteq> 0" "\<not> ends_connection (fst p) buf1" using all by simp_all
  show "trace_addrs (packet_trace (fst p) buf1) \<subseteq> A" "96 \<le> length buf1" by fact+
  show "steady_file A buf1 pkts" using all sub(2) big by (simp add: steady_file_def)
qed

lemma steady_times:
  assumes "steady_file A buf pkts"
  shows "\<forall>p \<in> set pkts. tv_sec (hdr_ts (fst p)) \<noteq> 0"
  using assms by (induction pkts arbitrary: buf) (auto dest: steady_cons)

text \<open>One packet of a file, for which the call of the statistics before the packet succeeds and the call after it does nothing.\<close>

lemma handled_cons:
  assumes ok: "conv_ok A kp tr (cap_shm c)" and fit: "addrs_fit A" and st: "steady_file A buf (p # pkts)"
    and before: "sim_before_packet (hdr_ts (fst p)) (g_shm (cap_shm c)) (cap_sim c) = Inr sim"
    and after: "\<And>shm. sim_after_packet (hdr_ts (fst p)) shm sim = Inr sim"
  obtains buf1 c1 where "handle_packet sim_before_packet sim_after_packet kp ck p (buf, c) = Inr (buf1, c1)"
    "handled buf (p # pkts) = (fst p, buf1) # handled buf1 pkts" "buf1 = snd p @ drop (length (snd p)) buf" "steady_file A buf1 pkts"
    "conv_ok A kp (tr @ packet_trace (fst p) buf1) (cap_shm c1)" "cap_sim c1 = sim"
proof -
  let ?buf = "snd p @ drop (length (snd p)) buf"
  note h = steady_cons [OF st]
  obtain c1 where "on_packet True sim_before_packet sim_after_packet kp ck (fst p) ?buf c = Inr (0, c1)"
    "conv_ok A kp (tr @ packet_trace (fst p) ?buf) (cap_shm c1)" "cap_sim c1 = sim"
    by (rule handled_step [OF ok fit h(3,1,4,2) before after])
  then show ?thesis using that [of ?buf c1] h(5) by (simp add: handle_packet_def split_def Let_def)
qed

text \<open>What is asked of the packets of a file for the statistics to run as well: the order of their times.\<close>

definition plain_file :: "u32 set \<Rightarrow> u8 list \<Rightarrow> file_packet list \<Rightarrow> bool" where
  "plain_file A buf pkts \<longleftrightarrow>
     (\<forall>(hdr, b) \<in> set (handled buf pkts). tv_sec (hdr_ts hdr) \<noteq> 0 \<and> tv_usec (hdr_ts hdr) < 1000000 \<and> \<not> ends_connection hdr b) \<and>
     trace_addrs (file_trace (handled buf pkts)) \<subseteq> A \<and> sorted_wrt in_order (map (\<lambda>p. hdr_ts (fst p)) pkts) \<and> 96 \<le> length buf"

lemma plain_steady: "plain_file A buf pkts \<Longrightarrow> steady_file A buf pkts"
  by (auto simp: plain_file_def steady_file_def)

lemma plain_file_cons:
  assumes "plain_file A buf (p # pkts)"
  defines "ts \<equiv> hdr_ts (fst p)"
  shows "tv_sec ts \<noteq> 0" "\<forall>q \<in> set (ts # map (\<lambda>p. hdr_ts (fst p)) pkts). in_order ts q"
    "plain_file A (snd p @ drop (length (snd p)) buf) pkts"
proof -
  let ?buf = "snd p @ drop (length (snd p)) buf"
  have all: "\<forall>(hdr, b) \<in> set ((fst p, ?buf) # handled ?buf pkts). tv_sec (hdr_ts hdr) \<noteq> 0 \<and> tv_usec (hdr_ts hdr) < 1000000 \<and> \<not> ends_connection hdr b"
    and ord: "sorted_wrt in_order (ts # map (\<lambda>p. hdr_ts (fst p)) pkts)"
    using assms(1) by (simp_all add: plain_file_def Let_def ts_def)
  show "tv_sec ts \<noteq> 0" using all by (simp add: ts_def)
  have "tv_usec ts < 1000000" using all by (simp add: ts_def)
  then show "\<forall>q \<in> set (ts # map (\<lambda>p. hdr_ts (fst p)) pkts). in_order ts q" using ord by (simp add: in_order_def elapsed_us_def)
  show "plain_file A ?buf pkts"
    using steady_cons(5) [OF plain_steady [OF assms(1)]] all ord unfolding plain_file_def steady_file_def by simp
qed

text \<open>One packet of such a file.\<close>

lemma plain_handled:
  assumes ok: "conv_ok A kp tr (cap_shm c)" and fit: "addrs_fit A" and pl: "plain_file A buf (p # pkts)"
    and before: "\<exists>sim. sim_before_packet (hdr_ts (fst p)) (g_shm (cap_shm c)) (cap_sim c) = Inr sim \<and>
      sim_at s0 (hdr_ts (fst p)) (map (\<lambda>p. hdr_ts (fst p)) pkts) sim"
  obtains buf1 c1 where "handle_packet sim_before_packet sim_after_packet kp ck p (buf, c) = Inr (buf1, c1)"
    "handled buf (p # pkts) = (fst p, buf1) # handled buf1 pkts" "plain_file A buf1 pkts"
    "conv_ok A kp (tr @ packet_trace (fst p) buf1) (cap_shm c1)" "sim_at s0 (hdr_ts (fst p)) (map (\<lambda>p. hdr_ts (fst p)) pkts) (cap_sim c1)"
proof -
  from before obtain sim where sim: "sim_before_packet (hdr_ts (fst p)) (g_shm (cap_shm c)) (cap_sim c) = Inr sim"
    "sim_at s0 (hdr_ts (fst p)) (map (\<lambda>p. hdr_ts (fst p)) pkts) sim" by blast
  note h = plain_file_cons [OF pl]
  show ?thesis
    by (rule handled_cons [OF ok fit plain_steady [OF pl] sim(1) sim_again [OF sim(2) h(1)]]) (use that sim(2) h(3) in blast)
qed

lemma file_trace_cons: "file_trace ((hdr, b) # ps) = packet_trace hdr b @ file_trace ps"
  by (simp add: file_trace_def)

lemma handled_run:
  assumes fit: "addrs_fit A" and "conv_ok A kp tr (cap_shm c)" "tr \<noteq> []" "sim_at s0 ts0 (map (\<lambda>p. hdr_ts (fst p)) pkts) (cap_sim c)" "tv_sec ts0 \<noteq> 0"
    and "plain_file A buf pkts"
  shows "\<exists>buf' c'. fold_r (handle_packet sim_before_packet sim_after_packet kp ck) pkts (buf, c) = Inr (buf', c') \<and>
    conv_ok A kp (tr @ file_trace (handled buf pkts)) (cap_shm c') \<and>
    sim_at s0 (last (ts0 # map (\<lambda>p. hdr_ts (fst p)) pkts)) [] (cap_sim c')"
  using assms(2-)
proof (induction pkts arbitrary: tr c ts0 buf)
  case Nil
  then show ?case by (simp add: file_trace_def)
next
  case (Cons p pkts)
  let ?ts = "hdr_ts (fst p)" and ?later = "map (\<lambda>p. hdr_ts (fst p)) pkts"
  note h = plain_file_cons [OF Cons.prems(5)]
  have "sim_at s0 ts0 (?ts # ?later) (cap_sim c)" using Cons.prems(3) by simp
  note before = sim_next [OF this conv_reportable [OF Cons.prems(1)] conv_used [OF Cons.prems(1,2)] Cons.prems(4) h(2)]
  obtain buf1 c1 where c1: "handle_packet sim_before_packet sim_after_packet kp ck p (buf, c) = Inr (buf1, c1)"
    "handled buf (p # pkts) = (fst p, buf1) # handled buf1 pkts" "plain_file A buf1 pkts"
    "conv_ok A kp (tr @ packet_trace (fst p) buf1) (cap_shm c1)" "sim_at s0 ?ts ?later (cap_sim c1)"
    by (rule plain_handled [OF Cons.prems(1) fit Cons.prems(5) before])
  have "tr @ packet_trace (fst p) buf1 \<noteq> []" using Cons.prems(2) by simp
  from Cons.IH [OF c1(4) this c1(5) h(1) c1(3)] show ?case
    unfolding c1(2) file_trace_cons fold_r.simps c1(1) bind_r_simps by simp
qed

text \<open>The program that is built to read files (\<^verbatim>\<open>NOPCAP\<close>), whose memory can be allocated.\<close>

definition rminflo :: "(nat \<Rightarrow> u64) \<Rightarrow> (akptr \<Rightarrow> u64) \<Rightarrow> nat \<Rightarrow> nat \<Rightarrow> u8 list \<Rightarrow> (string \<Rightarrow> u8 list option) \<Rightarrow> sim_state cap_env" where
  "rminflo skaddr akaddr kp ck buf files =
     \<lparr>READ_FROM_FILE = True, env_before = sim_before_packet, env_after = sim_after_packet, env_finish = sim_end,
      env_kp = kp, env_ck = ck, env_skaddr = skaddr, env_akaddr = akaddr, env_shm_ok = True, env_stack = buf, env_files = files,
      env_device = \<lparr>dev_opens = False, dev_errbuf = [], dev_packets = [], dev_status = 0, dev_geterr = []\<rparr>, env_cmdname = ''rminflo''\<rparr>"

text \<open>A run of the program on a file, from the arguments on: the packets are handled one after the other, and then comes the last report.\<close>

lemma rminflo_file:
  assumes "heap_ok st0" "length name < FILENAME_BYTES" "files name = Some (capture_file fhdr pkts tail)"
    and "length fhdr = PCAP_FILE_HEADER" "length tail < 16" "int (length pkts) \<le> INT_MAX" "length buf = MAX_PKT_BYTES"
    and "\<forall>(hdr, data) \<in> set pkts. unat (caplen hdr) = length data \<and> length data \<le> MAX_PKT_BYTES"
  obtains c where "conv_ok A kp [] (cap_shm c)" "cap_sim c = sim_start"
    "capture_main (rminflo skaddr akaddr kp ck buf files) [] [name] st0 sim_start =
      bind_r (fold_r (handle_packet sim_before_packet sim_after_packet kp ck) pkts (buf, c)) (\<lambda>(_, c1).
        bind_r (sim_end 0 (g_shm (cap_shm c1)) (cap_sim c1)) (\<lambda>sim.
          Inr \<lparr>end_stdout = [], end_stderr = [], end_state = Some (c1\<lparr>cap_sim := sim\<rparr>)\<rparr>))"
proof -
  obtain st where init: "shm_data_init skaddr akaddr True st0 = Inr (True, st)" and ok: "conv_ok A kp [] (cleanup_init st)"
    by (rule conv_start [OF assms(1), of skaddr akaddr A kp])
  let ?c = "\<lparr>cap_shm = cleanup_init st, last_sec = 0, cap_sim = sim_start\<rparr>"
  have fits: "\<forall>(hdr, data) \<in> set pkts. unat (caplen hdr) = length data \<and> length data \<le> length buf" using assms(7,8) by simp
  show ?thesis
    by (rule that [of ?c]) (use assms(2,3) init ok in \<open>simp_all add: capture_main_def capture_args_def set_filename_def rminflo_def
        main_file_handles [OF assms(4) fits assms(5,6)] bind_r_assoc split_def\<close>)
qed

lemma final_report:
  assumes ok: "conv_ok A kp tr (cap_shm c)" "tr \<noteq> []" and at: "sim_at s0 ts [] (cap_sim c)" "s0 < tv_sec ts"
  obtains sim where "sim_end 0 (g_shm (cap_shm c)) (cap_sim c) = Inr sim"
proof -
  have "minute_ready (sim_stat (cap_sim c))" using at by (simp add: sim_at_def sim_ok_def stat_ok_def)
  then obtain copy prev ex t where "check_minute 0 (g_shm (cap_shm c)) (sim_stat (cap_sim c)) = Inr (minute_done t copy prev ex (sim_stat (cap_sim c)))"
    by (rule minute_ok [OF _ conv_reportable [OF ok(1)] conv_used [OF ok]])
  then show ?thesis using that by (simp add: sim_end_def sim_finish_def)
qed

lemma file_run:
  assumes fit: "addrs_fit A" and ok: "conv_ok A kp [] (cap_shm c)" and sim: "cap_sim c = sim_start" and pl: "plain_file A buf (p # pkts)"
    and first: "file_trace [hd (handled buf (p # pkts))] \<noteq> []"
  shows "\<exists>buf' c'. fold_r (handle_packet sim_before_packet sim_after_packet kp ck) (p # pkts) (buf, c) = Inr (buf', c') \<and>
    conv_ok A kp (file_trace (handled buf (p # pkts))) (cap_shm c') \<and>
    sim_at (tv_sec (hdr_ts (fst p))) (last (map (\<lambda>p. hdr_ts (fst p)) (p # pkts))) [] (cap_sim c')"
proof -
  let ?ts = "hdr_ts (fst p)" and ?later = "map (\<lambda>p. hdr_ts (fst p)) pkts"
  note h = plain_file_cons [OF pl]
  note before = sim_first [OF h(1,2), of "g_shm (cap_shm c)", folded sim]
  obtain buf1 c1 where c1: "handle_packet sim_before_packet sim_after_packet kp ck p (buf, c) = Inr (buf1, c1)"
    "handled buf (p # pkts) = (fst p, buf1) # handled buf1 pkts" "plain_file A buf1 pkts"
    "conv_ok A kp ([] @ packet_trace (fst p) buf1) (cap_shm c1)" "sim_at (tv_sec ?ts) ?ts ?later (cap_sim c1)"
    by (rule plain_handled [OF ok fit pl before])
  have "[] @ packet_trace (fst p) buf1 \<noteq> []" using first unfolding c1(2) by (simp add: file_trace_def)
  from handled_run [OF fit c1(4) this c1(5) h(1) c1(3)] show ?thesis
    unfolding c1(2) file_trace_cons fold_r.simps c1(1) bind_r_simps by simp
qed

subsection \<open>Files of one second\<close>

text \<open>While all packets are of second \<open>s\<close>, the statistics are as they were at the start.\<close>

definition same_second :: "u32 \<Rightarrow> tval_t \<Rightarrow> sim_state \<Rightarrow> bool" where
  "same_second s ts sim \<longleftrightarrow> sim_stat sim = stat_start \<and> (tv_sec (sim_last_sec sim) = 0 \<or>
     tv_sec (sim_last_sec sim) = s \<and> tv_usec (sim_last_sec sim) \<le> tv_usec ts \<and> tv_usec ts < 1000000)"

lemma same_second_before:
  assumes "same_second s ts sim" "tv_sec ts = s" "s \<noteq> 0" "tv_usec ts < 1000000"
  shows "\<exists>sim'. sim_before_packet ts shm sim = Inr sim' \<and> (\<forall>shm. sim_after_packet ts shm sim' = Inr sim') \<and> sim_stat sim' = stat_start \<and>
    (sim_last_sec sim' = ts \<or> sim_last_sec sim' = sim_last_sec sim)"
proof (cases "tv_sec (sim_last_sec sim) = 0")
  case True
  then show ?thesis using assms by (simp add: sim_before_packet_def sim_after_packet_def same_second_def tval_diff_ms_def)
next
  case False
  then have l: "tv_sec (sim_last_sec sim) = s" "tv_usec (sim_last_sec sim) \<le> tv_usec ts" using assms(1) by (simp_all add: same_second_def)
  then have "tv_usec (sim_last_sec sim) < 1000000" using assms(4) by simp
  with l have "in_order (sim_last_sec sim) ts" using assms(2,4) by (simp add: in_order_def elapsed_us_def word_le_def)
  from new_second [OF this] l assms(2) have "\<not> tval_diff_ms (sim_last_sec sim) ts \<ge> 1000" by simp
  then show ?thesis using False assms(1) by (simp add: sim_before_packet_def sim_after_packet_def same_second_def)
qed

lemma one_second_run:
  assumes "addrs_fit A" "s \<noteq> 0" and "conv_ok A kp tr (cap_shm c)" "steady_file A buf pkts"
    and "sorted_wrt (\<le>) (map (\<lambda>p. tv_usec (hdr_ts (fst p))) pkts)"
    and "\<forall>p \<in> set pkts. tv_sec (hdr_ts (fst p)) = s \<and> tv_usec (hdr_ts (fst p)) < 1000000"
    and "\<forall>p \<in> set pkts. same_second s (hdr_ts (fst p)) (cap_sim c)" "sim_stat (cap_sim c) = stat_start"
  shows "\<exists>buf' c'. fold_r (handle_packet sim_before_packet sim_after_packet kp ck) pkts (buf, c) = Inr (buf', c') \<and>
    sim_stat (cap_sim c') = stat_start"
  using assms(3-)
proof (induction pkts arbitrary: tr c buf)
  case (Cons p pkts)
  let ?ts = "hdr_ts (fst p)"
  have ts: "tv_sec ?ts = s" "tv_usec ?ts < 1000000" "same_second s ?ts (cap_sim c)" using Cons.prems(4,5) by simp_all
  obtain sim where sim: "sim_before_packet ?ts (g_shm (cap_shm c)) (cap_sim c) = Inr sim" "\<And>shm. sim_after_packet ?ts shm sim = Inr sim"
      "sim_stat sim = stat_start" "sim_last_sec sim = ?ts \<or> sim_last_sec sim = sim_last_sec (cap_sim c)"
    using same_second_before [OF ts(3,1) assms(2) ts(2)] by blast
  obtain buf1 c1 where c1: "handle_packet sim_before_packet sim_after_packet kp ck p (buf, c) = Inr (buf1, c1)" "steady_file A buf1 pkts"
      "conv_ok A kp (tr @ packet_trace (fst p) buf1) (cap_shm c1)" "cap_sim c1 = sim"
    by (rule handled_cons [OF Cons.prems(1) assms(1) Cons.prems(2) sim(1,2)])
  have "same_second s (hdr_ts (fst q)) (cap_sim c1)" if "q \<in> set pkts" for q
    using that Cons.prems(3-5) sim(3,4) c1(4) ts by (auto simp: same_second_def)
  then show ?case using Cons.IH [OF c1(3,2)] Cons.prems(3,4) c1 sim(3) by simp
qed simp

subsection \<open>Files out of order\<close>

text \<open>A step to another second of the same minute, forth or back, is taken for a new second.\<close>

lemma other_second:
  assumes "tv_usec p < 1000000" "tv_usec q < 1000000" "tv_sec p \<noteq> tv_sec q" "tv_sec p div 60 = tv_sec q div 60"
  shows "1000 \<le> tval_diff_ms p q"
proof -
  define ds where "ds = uint (tv_sec q) - uint (tv_sec p)"
  define du where "du = uint (tv_usec q) - uint (tv_usec p)"
  have "uint (tv_usec p) < 1000000" "uint (tv_usec q) < 1000000" "0 \<le> uint (tv_usec p)" "0 \<le> uint (tv_usec q)"
    using assms(1,2) by (simp_all add: word_less_def)
  then have "- 1000000 < du" "du < 1000000" unfolding du_def by linarith+
  then have u: "- 1000 \<le> du div 1000" "du div 1000 \<le> 999" by linarith+
  have "uint (tv_sec p) div 60 = uint (tv_sec q) div 60" using arg_cong [OF assms(4), of uint] by (simp add: uint_div)
  moreover have "uint (tv_sec p) \<noteq> uint (tv_sec q)" using assms(3) by (metis word_uint_eqI)
  ultimately have s: "- 59 \<le> ds" "ds \<le> 59" "ds \<noteq> 0" unfolding ds_def by linarith+
  have ms: "elapsed_us p q div 1000 = ds * 1000 + du div 1000" unfolding ds_def du_def by (rule elapsed_ms)
  have big: "1000 \<le> (of_int x :: u32)" if "1000 \<le> x \<and> x < 4294967296 \<or> - 4294966296 \<le> x \<and> x < 0" for x
  proof -
    have w: "uint (of_int x :: u32) = x mod 4294967296" by (simp add: uint_word_of_int)
    show ?thesis
    proof (cases "x < 0")
      case True
      have "x mod 4294967296 = (x + 4294967296) mod 4294967296" by (rule mod_add_self2 [symmetric])
      also have "\<dots> = x + 4294967296" by (rule mod_pos_pos_trivial) (use that True in linarith)+
      finally show ?thesis using w that True by (simp add: word_le_def)
    next
      case False
      then have "x mod 4294967296 = x" by (intro mod_pos_pos_trivial) (use that in linarith)+
      then show ?thesis using w that False by (simp add: word_le_def)
    qed
  qed
  show ?thesis
  proof (cases "tv_usec p \<le> tv_usec q")
    case True
    then have "0 \<le> du" by (simp add: word_le_def du_def)
    then have "0 \<le> du div 1000" by simp
    then show ?thesis unfolding diff_ms_exact [OF True] ms using s u by (intro big) linarith
  next
    case False
    then have "tval_diff_ms p q = of_int (elapsed_us p q div 1000 + 4294967) \<or> tval_diff_ms p q = of_int (elapsed_us p q div 1000 + 4294968)"
      using diff_ms_borrow [of q p] by auto
    moreover have "1000 \<le> ds * 1000 + du div 1000 + 4294967" "ds * 1000 + du div 1000 + 4294968 < 4294967296" using s u by linarith+
    then have "1000 \<le> (of_int (ds * 1000 + du div 1000 + 4294967) :: u32)" "1000 \<le> (of_int (ds * 1000 + du div 1000 + 4294968) :: u32)"
      by (intro big, linarith)+
    ultimately show ?thesis unfolding ms by metis
  qed
qed

text \<open>The statistics in minute \<open>m\<close>, at column \<open>k\<close>; the last packet was at \<open>ts\<close>.\<close>

definition counting :: "u32 \<Rightarrow> nat \<Rightarrow> tval_t \<Rightarrow> sim_state \<Rightarrow> bool" where
  "counting m k ts sim \<longleftrightarrow> sim_last_sec sim = ts \<and> sp_initialized (sim_stat sim) \<and> tlast_min (sim_stat sim) = m * 60 \<and>
     sec_i (sim_stat sim) = int k"

definition in_minute :: "u32 \<Rightarrow> tval_t \<Rightarrow> bool" where
  "in_minute m ts \<longleftrightarrow> tv_sec ts div 60 = m \<and> tv_usec ts < 1000000 \<and> tv_sec ts \<noteq> 0"

lemma in_minute_less:
  assumes "in_minute m ts"
  shows "tv_sec ts - m * 60 < 60"
proof -
  have "m * 60 = tv_sec ts div 60 * 60" using assms by (simp add: in_minute_def)
  moreover have "tv_sec ts = tv_sec ts div 60 * 60 + tv_sec ts mod 60" by (simp add: word_mod_div_equality)
  ultimately have "tv_sec ts - m * 60 = tv_sec ts mod 60" by (metis add_diff_cancel_left')
  then show ?thesis by (simp add: word_mod_less_divisor)
qed

lemma same_packet_after: "sim_last_sec sim = ts \<Longrightarrow> tv_sec ts \<noteq> 0 \<Longrightarrow> sim_after_packet ts shm sim = Inr sim"
  by (simp add: sim_after_packet_def sim_before_packet_def tval_diff_ms_def)

lemma counting_next:
  assumes "counting m k ts0 sim" "in_minute m ts0" "in_minute m ts" "tv_sec ts0 \<noteq> tv_sec ts" "k \<le> 60"
  shows "if k = 60 then sim_before_packet ts shm sim = Inl AssertFail
    else \<exists>sim'. sim_before_packet ts shm sim = Inr sim' \<and> counting m (k + 1) ts sim'"
proof -
  have "1000 \<le> tval_diff_ms ts0 ts" using assms(2-4) by (intro other_second) (simp_all add: in_minute_def)
  moreover have "\<not> 60 \<le> tv_sec ts - m * 60" using in_minute_less [OF assms(3)] by (simp add: not_le)
  ultimately show ?thesis using assms(1,2,5)
    by (auto simp: counting_def in_minute_def sim_before_packet_def every_second_def store_second_def c_assert_def Let_def)
qed

lemma reordered_run:
  assumes "addrs_fit A" and "conv_ok A kp tr (cap_shm c)" "steady_file A buf pkts" "counting m k ts0 (cap_sim c)" "in_minute m ts0"
    and "\<forall>p \<in> set pkts. in_minute m (hdr_ts (fst p))" "distinct_adj (map tv_sec (ts0 # map (\<lambda>p. hdr_ts (fst p)) pkts))"
    and "k \<le> 60" "60 < k + length pkts"
  shows "fold_r (handle_packet sim_before_packet sim_after_packet kp ck) pkts (buf, c) = Inl AssertFail"
  using assms(2-)
proof (induction pkts arbitrary: tr c buf k ts0)
  case (Cons p pkts)
  let ?ts = "hdr_ts (fst p)"
  have ts: "in_minute m ?ts" "tv_sec ts0 \<noteq> tv_sec ?ts" using Cons.prems(5,6) by simp_all
  note nx = counting_next [OF Cons.prems(3,4) ts Cons.prems(7), of "g_shm (cap_shm c)"]
  show ?case
  proof (cases "k = 60")
    case True
    then show ?thesis using nx by (simp add: handle_packet_def on_packet_def split_def Let_def)
  next
    case False
    with nx obtain sim where sim: "sim_before_packet ?ts (g_shm (cap_shm c)) (cap_sim c) = Inr sim" "counting m (k + 1) ?ts sim" by auto
    have after: "sim_after_packet ?ts shm sim = Inr sim" for shm
      using sim(2) ts(1) by (intro same_packet_after) (simp_all add: counting_def in_minute_def)
    obtain buf1 c1 where c1: "handle_packet sim_before_packet sim_after_packet kp ck p (buf, c) = Inr (buf1, c1)" "steady_file A buf1 pkts"
        "conv_ok A kp (tr @ packet_trace (fst p) buf1) (cap_shm c1)" "cap_sim c1 = sim"
      by (rule handled_cons [OF Cons.prems(1) assms(1) Cons.prems(2) sim(1) after])
    have "counting m (k + 1) ?ts (cap_sim c1)" using sim(2) c1(4) by simp
    then have "fold_r (handle_packet sim_before_packet sim_after_packet kp ck) pkts (buf1, c1) = Inl AssertFail"
      using Cons.IH [OF c1(3,2) _ ts(1)] Cons.prems(5-8) False by (simp add: distinct_adj_Cons)
    then show ?thesis using c1(1) by simp
  qed
qed simp

end
