(* ===== verification/Spec2Isabelle.thy ===== *)
theory Spec2Isabelle
  imports Prelude Sort MgArray HashTable Tval IpUtils StreamKey Parse Structs ShmData Cleanup Capture CaptureRun StreamTable Conversations Ipc Export StatProc StatReport StatClock TwoProcesses Sigsegv EndToEnd
begin

text \<open>
  minflow watches the packets of a network and reports, every minute, the conversations (streams), ports and
  addresses with the most traffic. A capture process (\<^verbatim>\<open>capture/\<close>) takes packets from libpcap or from a capture
  file, parses them (\<^verbatim>\<open>net/\<close>) and counts them in a shared segment (\<^verbatim>\<open>common/\<close>), where streams and addresses live in
  tables of fixed size that are managed by a slot allocator (\<^verbatim>\<open>utils/mgarray.c\<close>) and found through hash tables
  (\<^verbatim>\<open>utils/hashtable.c\<close>). A statistics process (\<^verbatim>\<open>statproc/\<close>) reads the segment every second, takes differences, sorts
  (\<^verbatim>\<open>utils/sort.c\<close>) and prints a report (\<^verbatim>\<open>export/\<close>, \<^verbatim>\<open>utils/stringbuf.c\<close>). When a file is read, one process does both.

  \<^bold>\<open>Conventions.\<close> A C function is a function of the same name on explicit state; its result is \<open>Inr\<close> of the new state
  or \<open>Inl\<close> of a fault: an access out of bounds, a read through a null pointer or of memory never written, a
  failed assertion, an overflow of a signed integer (\<^verbatim>\<open>c_fault\<close> in \<open>Prelude\<close>). Integers are words of their width;
  \<^verbatim>\<open>int\<close> variables that count are integers with the overflow as a fault. The machine is little-endian. A pointer
  into an array is an index, a pointer to a key the address of a cell of a memory that is part of the state.
  System and library calls (\<^verbatim>\<open>malloc\<close>, shared memory, \<^verbatim>\<open>getopt\<close>, files, libpcap, the clock) are arguments: what they
  return. Output is text in the state. Debug output that is compiled out is left out.

  \<^bold>\<open>Theories.\<close>
  \<^item> \<open>Prelude\<close>: faults, arrays, bytes and decimal numbers, loops whose body can fault.
  \<^item> \<open>Sort\<close> (\<^verbatim>\<open>utils/sort.c\<close>, \<^verbatim>\<open>test/sort_test.c\<close>): for every comparison function that is a total preorder (locale
    \<open>comparator\<close>) quicksort returns a sorted permutation, without leaving the array.
  \<^item> \<open>MgArray\<close> (\<^verbatim>\<open>utils/mgarray.c\<close>, \<^verbatim>\<open>common/mgainfo.h\<close>, \<^verbatim>\<open>test/mga_test.c\<close>): allocation and release refine taking a
    free slot from a set and giving it back (locales \<open>slot_status\<close>, \<open>managed_array\<close>); where the bounds go wrong.
  \<^item> \<open>HashTable\<close> (\<^verbatim>\<open>utils/hashtable.c\<close>): the table refines a map from the contents of keys to values (locale
    \<open>hashed_keys\<close>), also across rehashing; the search for a number of buckets ends, with the next number that trial division accepts.
  \<^item> \<open>Tval\<close>, \<open>IpUtils\<close>, \<open>StreamKey\<close>, \<open>Parse\<close> (\<^verbatim>\<open>common/tval.c\<close>, \<^verbatim>\<open>statproc/statproc_utils.c\<close>, \<^verbatim>\<open>net/\<close>): times and counters,
    addresses and their text, keys that do not depend on the direction of a packet, and the parser, which
    gives back the fields of a well-formed frame and never leaves a buffer of 96 bytes.
  \<^item> \<open>Structs\<close>, \<open>ShmData\<close> (\<^verbatim>\<open>common/structs.h\<close>, \<^verbatim>\<open>common/sharedif.h\<close>, \<^verbatim>\<open>common/shmdata.c\<close>): the segment and its operations,
    on a state with the tables, the arrays and the memory behind the keys; allocation followed by lookup.
  \<^item> \<open>Cleanup\<close> (\<^verbatim>\<open>capture/cleanup.c\<close>): queueing, expiry and release of streams; what a pass does to the lists and a release to the
    addresses.
  \<^item> \<open>Capture\<close> (\<^verbatim>\<open>capture/main.c\<close>, \<^verbatim>\<open>capture/readcap.c\<close>, \<^verbatim>\<open>capture/capmain.c\<close>): one packet, the loop over a file, the
    callback of libpcap, the program. \<open>CaptureRun\<close>: every operation keeps the segment in order (layout, windows, the flow
    type and addresses of each stream, the values of the address table), and every packet is counted once per level,
    as an invariant of all runs (\<open>cap_run\<close>). \<open>StreamTable\<close>: the form of the hash table of the streams in every run, whose
    keys are all the address of one variable; on it, the release of one stream and a whole cleanup pass, which returns. \<open>Conversations\<close>: a capture in which no connection ends never faults, and counts
    exactly the packets and bytes of each conversation that has a bucket of its own.
  \<^item> \<open>Ipc\<close> (\<^verbatim>\<open>utils/ipc.c\<close>): the shared segment and how both processes come to it. Where \<^verbatim>\<open>shm_data_init\<close> has \<open>shm_ok\<close> and the
    statistics process has \<open>attached\<close>, they are whether \<open>obtain_segment\<close> and \<open>attach_segment\<close> return an address.
  \<^item> \<open>Export\<close> (\<^verbatim>\<open>utils/stringbuf.c\<close>, \<^verbatim>\<open>export/export.c\<close>): buffers collect lines (locale \<open>text_buffer\<close>); a report fits.
  \<^item> \<open>StatProc\<close> (\<^verbatim>\<open>statproc/\<close>): the definitions of the statistics, their comparison functions as instances of
    \<open>comparator\<close>, the port masks. \<open>StatReport\<close>: the loops of a report (locale \<open>slot_loop\<close>) as pure functions, the order
    of what is reported, and that a report is completed. \<open>StatClock\<close>: seconds, minutes and the runs of the
    statistics process and of the file mode.
  \<^item> \<open>TwoProcesses\<close>: the live system as a relation, in which the steps of the capture process and of the statistics process
    interleave on the segment; the only two ways in which the statistics process can fail.
  \<^item> \<open>EndToEnd\<close>: while no connection ends, what the capture keeps of the segment is what the statistics need of it: the live
    system runs (\<open>calm_system\<close>), and the lemmas on the file mode, whose packets are handled between the calls of the statistics: files in
    the order of their times, of one second, and out of order.
  \<^item> \<open>Sigsegv\<close> (\<^verbatim>\<open>utils/sigsegv.c\<close>): the handler that prints the frames of the stack; when it returns and what it prints.
  \<^item> This theory: the program for capture files composed of its parts, from its arguments to the last report or to the fault that a
    file of one second or out of order ends in.

  \<^bold>\<open>Loops.\<close> Loops over arrays are structural recursion or functions with a measure. Quicksort and the search for a
  prime are partial functions in the option type, and are shown to return. No fuel is used.

  \<^bold>\<open>Not modelled.\<close> The messages of \<^verbatim>\<open>shm_data_init\<close>, and the user id that \<^verbatim>\<open>capture/capmain.c\<close> gives up; the variants of
  \<^verbatim>\<open>utils/sigsegv.c\<close> for machines other than x86-64; the profile of report times. \<^verbatim>\<open>net/stream_state.h\<close>, \<^verbatim>\<open>test/streamkey_test.c\<close> and
  \<^verbatim>\<open>test/misc.c\<close> name things that do not exist and do not compile. The two processes share the segment without
  locks; in the model the steps of the two (one packet, one iteration) are not interrupted by each other. That a capture in
  which connections end does not fault is not shown: released streams stay in the table (\<open>StreamTable\<close>), and are released again.
  Memory is found always or never in a run (\<open>heap_ok\<close>). Hash tables of 2^31 buckets and more, whose loops have an \<^verbatim>\<open>int\<close> counter,
  and times after the year 2106 are not considered. A \<^verbatim>\<open>float\<close> out of the range of the integer it is converted to is converted as x86-64 does it.
\<close>

subsection \<open>A capture file from end to end\<close>

text \<open>
  The capture of a file composed of its parts: \<^verbatim>\<open>read_pcap_loop\<close> hands the packets to \<^verbatim>\<open>on_packet\<close>, which calls the
  statistics of the file mode around each packet, and \<^verbatim>\<open>main_file\<close> ends with the last report.
\<close>

text \<open>
  C16: Reading a capture file handles every packet of the file, in order and each with its own bytes in the
  buffer, and ends with the final report; an incomplete record at the end is left out.
\<close>

theorem main_file_handles_packets:
  assumes "length fhdr = PCAP_FILE_HEADER" "\<forall>(hdr, data) \<in> set pkts. unat (caplen hdr) = length data \<and> length data \<le> length buf"
    and "length tail < 16" "int (length pkts) \<le> INT_MAX"
  shows "main_file before after finish kp ck buf (Some (capture_file fhdr pkts tail)) c =
    bind_r (fold_r (handle_packet before after kp ck) pkts (buf, c)) (\<lambda>(_, c1).
      bind_r (finish 0 (g_shm (cap_shm c1)) (cap_sim c1)) (\<lambda>s. Inr (0, c1\<lparr>cap_sim := s\<rparr>)))"
  by (rule main_file_handles [OF assms])

theorem main_file_handles_packets_witness:
  "\<forall>c. main_file (\<lambda>_ _ s. Inr (s + 1)) (\<lambda>_ _ s. Inr s) (\<lambda>_ _ s. Inr s) 7 8 (replicate 1700 0)
     (Some (capture_file (replicate 24 0) [(cut_hdr, replicate 10 0), (cut_hdr, replicate 10 1)] [1, 2])) c =
   bind_r (fold_r (handle_packet (\<lambda>_ _ s. Inr (s + 1 :: nat)) (\<lambda>_ _ s. Inr s) 7 8) [(cut_hdr, replicate 10 0), (cut_hdr, replicate 10 1)]
     (replicate 1700 0, c)) (\<lambda>(_, c1). Inr (0, c1))"
  by (intro allI, subst main_file_handles_packets) (simp_all add: PCAP_FILE_HEADER_def INT_MAX_def cut_hdr_def)

text \<open>
  C1: The program that reads capture files, from its start to its end: for every file whose packets are in the order of their
  times, close no connection and have addresses that fit the address table, whose first packet is tracked and which lasts into
  a second second, \<^verbatim>\<open>rminflo\<close> faults nowhere, in the capture or in the statistics, completes every report and the last one,
  and the table of the streams has the counts of the conversations of the file.
\<close>

theorem rminflo_counts_and_reports:
  assumes "heap_ok st0" "length name < FILENAME_BYTES" "files name = Some (capture_file fhdr pkts tail)"
    and "length fhdr = PCAP_FILE_HEADER" "length tail < 16" "int (length pkts) \<le> INT_MAX" "length buf = MAX_PKT_BYTES"
    and "\<forall>(hdr, data) \<in> set pkts. unat (caplen hdr) = length data \<and> length data \<le> MAX_PKT_BYTES"
    and "plain_file A buf pkts" "addrs_fit A" "pkts \<noteq> []" "file_trace [hd (handled buf pkts)] \<noteq> []"
    and "tv_sec (hdr_ts (fst (hd pkts))) < tv_sec (hdr_ts (fst (List.last pkts)))"
  shows "\<exists>c. capture_main (rminflo skaddr akaddr kp ck buf files) [] [name] st0 sim_start = Inr \<lparr>end_stdout = [], end_stderr = [], end_state = Some c\<rparr> \<and>
    conversations_counted kp (file_trace (handled buf pkts)) (cap_shm c)"
proof -
  obtain p ps where pkts: "pkts = p # ps" using assms(11) by (cases pkts) simp
  obtain c where start: "conv_ok A kp [] (cap_shm c)" "cap_sim c = sim_start"
    and main: "capture_main (rminflo skaddr akaddr kp ck buf files) [] [name] st0 sim_start =
      bind_r (fold_r (handle_packet sim_before_packet sim_after_packet kp ck) pkts (buf, c)) (\<lambda>(_, c1).
        bind_r (sim_end 0 (g_shm (cap_shm c1)) (cap_sim c1)) (\<lambda>sim.
          Inr \<lparr>end_stdout = [], end_stderr = [], end_state = Some (c1\<lparr>cap_sim := sim\<rparr>)\<rparr>))"
    by (rule rminflo_file [where files = files, OF assms(1-8)])
  obtain buf' c' where run: "fold_r (handle_packet sim_before_packet sim_after_packet kp ck) pkts (buf, c) = Inr (buf', c')"
    "conv_ok A kp (file_trace (handled buf pkts)) (cap_shm c')"
    "sim_at (tv_sec (hdr_ts (fst p))) (List.last (map (\<lambda>p. hdr_ts (fst p)) pkts)) [] (cap_sim c')"
    using file_run [OF assms(10) start assms(9,12) [unfolded pkts], of ck] unfolding pkts by blast
  have ne: "file_trace (handled buf pkts) \<noteq> []" using assms(12) by (simp add: pkts file_trace_def Let_def)
  have later: "tv_sec (hdr_ts (fst p)) < tv_sec (List.last (map (\<lambda>p. hdr_ts (fst p)) pkts))" using assms(13) unfolding last_map [OF assms(11)] by (simp only: pkts list.sel)
  obtain sim where "sim_end 0 (g_shm (cap_shm c')) (cap_sim c') = Inr sim" by (rule final_report [OF run(2) ne run(3) later])
  then show ?thesis using conv_counted [OF run(2)] by (simp add: main run(1))
qed

text \<open>A file with a question and its answer two seconds later.\<close>

definition demo_file :: "file_packet list" where
  "demo_file = map2 (\<lambda>p sec. ((live_hdr p)\<lparr>hdr_ts := \<lparr>tv_sec = sec, tv_usec = 0\<rparr>\<rparr>, live_bytes p)) [demo_traffic ! 0, demo_traffic ! 2] [5, 7]"

lemma demo_file_sizes:
  "\<forall>(hdr, data) \<in> set demo_file. unat (caplen hdr) = length data \<and> length data \<le> MAX_PKT_BYTES" "length demo_file = 2"
  by code_simp+

lemma demo_file_times:
  "\<forall>(hdr, b) \<in> set (handled (replicate MAX_PKT_BYTES 0) demo_file). tv_sec (hdr_ts hdr) \<noteq> 0 \<and> tv_usec (hdr_ts hdr) < 1000000 \<and> \<not> ends_connection hdr b"
  by code_simp

lemma demo_file_trace: "file_trace (handled (replicate MAX_PKT_BYTES 0) demo_file) = [(dns, 100), (dns, 200)]"
  by code_simp

theorem rminflo_counts_and_reports_witness:
  "\<exists>c i. capture_main (rminflo (\<lambda>_. 0) (\<lambda>_. 0) 7 8 (replicate MAX_PKT_BYTES 0)
       (\<lambda>name. if name = ''dns.cap'' then Some (capture_file (replicate 24 0) demo_file [1, 2]) else None)) [] [''dns.cap''] (shm_statics True) sim_start =
       Inr \<lparr>end_stdout = [], end_stderr = [], end_state = Some c\<rparr> \<and>
     shm_stream_lookup ((cap_shm c)\<lparr>stream_key_mem := (stream_key_mem (cap_shm c))(7 := dns)\<rparr>) 7 = Inr (Some i) \<and>
     packets (entry_at (cap_shm c) i) = 2 \<and> bytes (entry_at (cap_shm c) i) = 300"
proof -
  let ?A = "trace_addrs (live_trace demo_traffic)" and ?buf = "replicate MAX_PKT_BYTES (0 :: u8)"
  let ?files = "\<lambda>name. if name = ''dns.cap'' then Some (capture_file (replicate 24 0) demo_file [1, 2]) else None"
  have "sorted_wrt in_order (map (\<lambda>p. hdr_ts (fst p)) demo_file)" by (simp add: demo_file_def in_order_def elapsed_us_def)
  then have plain: "plain_file ?A ?buf demo_file"
    unfolding plain_file_def demo_file_trace using demo_file_times by (simp add: demo_trace trace_addrs_def MAX_PKT_BYTES_def)
  have first: "file_trace [hd (handled ?buf demo_file)] \<noteq> []" by code_simp
  have secs: "tv_sec (hdr_ts (fst (hd demo_file))) < tv_sec (hdr_ts (fst (List.last demo_file)))" by (simp add: demo_file_def)
  obtain c where c: "capture_main (rminflo (\<lambda>_. 0) (\<lambda>_. 0) 7 8 ?buf ?files) [] [''dns.cap''] (shm_statics True) sim_start =
       Inr \<lparr>end_stdout = [], end_stderr = [], end_state = Some c\<rparr>"
    "conversations_counted 7 [(dns, 100), (dns, 200)] (cap_shm c)"
    using rminflo_counts_and_reports [of "shm_statics True" "''dns.cap''" ?files "replicate 24 0" demo_file "[1, 2]" ?buf ?A "\<lambda>_. 0" "\<lambda>_. 0" 7 8]
      demo_file_sizes plain demo_fit first secs
    by (force simp: demo_file_trace shm_statics_def FILENAME_BYTES_def PCAP_FILE_HEADER_def INT_MAX_def)
  then obtain i where i: "shm_stream_lookup ((cap_shm c)\<lparr>stream_key_mem := (stream_key_mem (cap_shm c))(7 := dns)\<rparr>) 7 = Inr (Some i)"
    "counts (filter (\<lambda>p. bucket (fst p) = bucket dns) [(dns, 100), (dns, 200)]) (entry_at (cap_shm c) i)"
    by (auto simp: conversations_counted_def)
  have "packets (entry_at (cap_shm c) i) = 2 \<and> bytes (entry_at (cap_shm c) i) = 300" using i(2) by (simp add: counts_def)
  then show ?thesis using c(1) i(1) by blast
qed

text \<open>
  C38: The order of the packets matters: a file whose packets are all of one minute and change their second from one to the
  next, forth and back, with more packets than the minute has seconds left after the second packet, aborts \<^verbatim>\<open>rminflo\<close>: every step to another second,
  also one back in time, counts as a second, until the assertion on the second of the minute fails. The
  packets themselves are in order otherwise: they close no connection and their addresses fit the address table.
\<close>

theorem reordered_file_aborts:
  assumes "heap_ok st0" "length name < FILENAME_BYTES" "files name = Some (capture_file fhdr pkts tail)"
    and "length fhdr = PCAP_FILE_HEADER" "length tail < 16" "int (length pkts) \<le> INT_MAX" "length buf = MAX_PKT_BYTES"
    and "\<forall>(hdr, data) \<in> set pkts. unat (caplen hdr) = length data \<and> length data \<le> MAX_PKT_BYTES"
    and "steady_file A buf pkts" "addrs_fit A"
    and "\<forall>p \<in> set pkts. tv_sec (hdr_ts (fst p)) div 60 = m \<and> tv_usec (hdr_ts (fst p)) < 1000000"
    and "distinct_adj (map (\<lambda>p. tv_sec (hdr_ts (fst p))) pkts)"
    and "2 \<le> length pkts" "60 < unat (tv_sec (hdr_ts (fst (pkts ! 1))) mod 60) + (length pkts - 2)"
  shows "capture_main (rminflo skaddr akaddr kp ck buf files) [] [name] st0 sim_start = Inl AssertFail"
proof -
  obtain p q ps where pkts: "pkts = p # q # ps" using assms(13) by (cases pkts; cases "tl pkts") auto
  let ?t = "hdr_ts (fst p)" and ?u = "hdr_ts (fst q)"
  obtain c where start: "conv_ok A kp [] (cap_shm c)" "cap_sim c = sim_start"
    and main: "capture_main (rminflo skaddr akaddr kp ck buf files) [] [name] st0 sim_start =
      bind_r (fold_r (handle_packet sim_before_packet sim_after_packet kp ck) pkts (buf, c)) (\<lambda>(_, c1).
        bind_r (sim_end 0 (g_shm (cap_shm c1)) (cap_sim c1)) (\<lambda>sim.
          Inr \<lparr>end_stdout = [], end_stderr = [], end_state = Some (c1\<lparr>cap_sim := sim\<rparr>)\<rparr>))"
    by (rule rminflo_file [where files = files, OF assms(1-8)])
  have min: "\<forall>x \<in> set pkts. in_minute m (hdr_ts (fst x))"
    using assms(11) steady_times [OF assms(9)] by (auto simp: in_minute_def)
  then have tu: "in_minute m ?t" "in_minute m ?u" "tv_sec ?t \<noteq> 0" "tv_sec ?u \<noteq> 0" by (simp_all add: pkts in_minute_def)
  have first: "sim_before_packet ?t shm (cap_sim c) = Inr (sim_start\<lparr>sim_last_sec := ?t\<rparr>)" for shm
    by (simp add: start(2) sim_before_packet_def sim_start_def zero_tval_def)
  obtain buf1 c1 where c1: "handle_packet sim_before_packet sim_after_packet kp ck p (buf, c) = Inr (buf1, c1)" "steady_file A buf1 (q # ps)"
      "conv_ok A kp ([] @ packet_trace (fst p) buf1) (cap_shm c1)" "cap_sim c1 = sim_start\<lparr>sim_last_sec := ?t\<rparr>"
    by (rule handled_cons [OF start(1) assms(10) assms(9) [unfolded pkts] first]) (use tu in \<open>simp_all add: same_packet_after\<close>)
  have "tv_sec ?t \<noteq> tv_sec ?u" using assms(12) by (simp add: pkts)
  then have diff: "1000 \<le> tval_diff_ms ?t ?u" using tu(1,2) by (intro other_second) (simp_all add: in_minute_def)
  define sim where "sim = \<lparr>sim_last_sec = ?u, sim_stat = init_state ?u (g_shm (cap_shm c1)) stat_start\<rparr>"
  have second: "sim_before_packet ?u (g_shm (cap_shm c1)) (cap_sim c1) = Inr sim"
    using diff tu(3) by (simp add: c1(4) sim_def sim_before_packet_def sim_start_def every_second_def stat_start_def)
  have cnt: "counting m (unat (tv_sec ?u mod 60)) ?u sim" using tu(2) by (simp add: counting_def sim_def init_state_def in_minute_def Let_def)
  obtain buf2 c2 where c2: "handle_packet sim_before_packet sim_after_packet kp ck q (buf1, c1) = Inr (buf2, c2)" "steady_file A buf2 ps"
      "conv_ok A kp (([] @ packet_trace (fst p) buf1) @ packet_trace (fst q) buf2) (cap_shm c2)" "cap_sim c2 = sim"
    by (rule handled_cons [OF c1(3) assms(10) c1(2) second]) (use tu in \<open>simp_all add: same_packet_after sim_def\<close>)
  have "fold_r (handle_packet sim_before_packet sim_after_packet kp ck) ps (buf2, c2) = Inl AssertFail"
  proof (rule reordered_run [OF assms(10) c2(3,2) _ tu(2)])
    show "counting m (unat (tv_sec ?u mod 60)) ?u (cap_sim c2)" using cnt c2(4) by simp
    show "\<forall>p \<in> set ps. in_minute m (hdr_ts (fst p))" using min by (simp add: pkts)
    show "distinct_adj (map tv_sec (?u # map (\<lambda>p. hdr_ts (fst p)) ps))" using assms(12) by (simp add: pkts comp_def)
    show "unat (tv_sec ?u mod 60) \<le> 60" by (simp add: minute_of)
    show "60 < unat (tv_sec ?u mod 60) + length ps" using assms(14) by (simp add: pkts)
  qed
  then show ?thesis by (simp add: main pkts c1(1) c2(1))
qed

text \<open>A file of packets of a question and its answer, at the given times.\<close>

definition timed_file :: "tval_t list \<Rightarrow> file_packet list" where
  "timed_file = map (\<lambda>ts. ((live_hdr (demo_traffic ! 0))\<lparr>hdr_ts := ts\<rparr>, live_bytes (demo_traffic ! 0)))"

definition swapped_file :: "file_packet list" where
  "swapped_file = timed_file (map (\<lambda>s. \<lparr>tv_sec = s, tv_usec = 0\<rparr>) [58, 59, 58, 59])"

definition second_file :: "file_packet list" where
  "second_file = timed_file [\<lparr>tv_sec = 5, tv_usec = 100\<rparr>, \<lparr>tv_sec = 5, tv_usec = 900000\<rparr>]"

lemma timed_sizes:
  "\<forall>(hdr, data) \<in> set swapped_file. unat (caplen hdr) = length data \<and> length data \<le> MAX_PKT_BYTES"
  "\<forall>(hdr, data) \<in> set second_file. unat (caplen hdr) = length data \<and> length data \<le> MAX_PKT_BYTES"
  by code_simp+

lemma timed_plain:
  "\<forall>(hdr, b) \<in> set (handled (replicate MAX_PKT_BYTES 0) swapped_file). tv_sec (hdr_ts hdr) \<noteq> 0 \<and> \<not> ends_connection hdr b"
  "\<forall>(hdr, b) \<in> set (handled (replicate MAX_PKT_BYTES 0) second_file). tv_sec (hdr_ts hdr) \<noteq> 0 \<and> \<not> ends_connection hdr b"
  by code_simp+

lemma timed_trace:
  "file_trace (handled (replicate MAX_PKT_BYTES 0) swapped_file) = replicate 4 (dns, 100)"
  "file_trace (handled (replicate MAX_PKT_BYTES 0) second_file) = replicate 2 (dns, 100)"
  by code_simp+

lemma timed_steady:
  "steady_file (trace_addrs (live_trace demo_traffic)) (replicate MAX_PKT_BYTES 0) swapped_file"
  "steady_file (trace_addrs (live_trace demo_traffic)) (replicate MAX_PKT_BYTES 0) second_file"
  unfolding steady_file_def timed_trace using timed_plain by (simp_all add: demo_trace trace_addrs_def MAX_PKT_BYTES_def)

theorem reordered_file_aborts_witness:
  "capture_main (rminflo (\<lambda>_. 0) (\<lambda>_. 0) 7 8 (replicate MAX_PKT_BYTES 0)
     (\<lambda>name. if name = ''swap.cap'' then Some (capture_file (replicate 24 0) swapped_file []) else None)) [] [''swap.cap''] (shm_statics True) sim_start =
     Inl AssertFail"
proof -
  have "\<forall>p \<in> set swapped_file. tv_sec (hdr_ts (fst p)) div 60 = 0 \<and> tv_usec (hdr_ts (fst p)) < 1000000"
    "distinct_adj (map (\<lambda>p. tv_sec (hdr_ts (fst p))) swapped_file)" "length swapped_file = 4" "tv_sec (hdr_ts (fst (swapped_file ! 1))) = 59"
    by (simp_all add: swapped_file_def timed_file_def)
  then show ?thesis
    by (intro reordered_file_aborts [OF _ _ _ _ _ _ _ timed_sizes(1) timed_steady(1) demo_fit, where m = 0 and fhdr = "replicate 24 0" and tail = "[]"])
      (simp_all add: shm_statics_def FILENAME_BYTES_def PCAP_FILE_HEADER_def INT_MAX_def)
qed

text \<open>
  C40: A file whose packets are all of one second ends in a null pointer, however many they are: the first packet only sets the
  time, no later packet reaches another second, so that the statistics are never initialised and the final report reads the copy of the
  segment that was not allocated. A file without packets ends that way, too. The packets are in the order of their times,
  close no connection and have addresses that fit the address table, so that the capture itself faults nowhere.
\<close>

theorem one_second_file_faults:
  assumes "heap_ok st0" "length name < FILENAME_BYTES" "files name = Some (capture_file fhdr pkts tail)"
    and "length fhdr = PCAP_FILE_HEADER" "length tail < 16" "int (length pkts) \<le> INT_MAX" "length buf = MAX_PKT_BYTES"
    and "\<forall>(hdr, data) \<in> set pkts. unat (caplen hdr) = length data \<and> length data \<le> MAX_PKT_BYTES"
    and "steady_file A buf pkts" "addrs_fit A"
    and "sorted_wrt (\<le>) (map (\<lambda>p. tv_usec (hdr_ts (fst p))) pkts)"
    and "\<forall>p \<in> set pkts. tv_sec (hdr_ts (fst p)) = s \<and> tv_usec (hdr_ts (fst p)) < 1000000" "s \<noteq> 0"
  shows "capture_main (rminflo skaddr akaddr kp ck buf files) [] [name] st0 sim_start = Inl NullDeref"
proof -
  obtain c where start: "conv_ok A kp [] (cap_shm c)" "cap_sim c = sim_start"
    and main: "capture_main (rminflo skaddr akaddr kp ck buf files) [] [name] st0 sim_start =
      bind_r (fold_r (handle_packet sim_before_packet sim_after_packet kp ck) pkts (buf, c)) (\<lambda>(_, c1).
        bind_r (sim_end 0 (g_shm (cap_shm c1)) (cap_sim c1)) (\<lambda>sim.
          Inr \<lparr>end_stdout = [], end_stderr = [], end_state = Some (c1\<lparr>cap_sim := sim\<rparr>)\<rparr>))"
    by (rule rminflo_file [where files = files, OF assms(1-8)])
  have "\<forall>p \<in> set pkts. same_second s (hdr_ts (fst p)) (cap_sim c)" "sim_stat (cap_sim c) = stat_start"
    using start(2) by (simp_all add: same_second_def sim_start_def zero_tval_def)
  from one_second_run [OF assms(10,13) start(1) assms(9,11,12) this] obtain buf' c' where
    run: "fold_r (handle_packet sim_before_packet sim_after_packet kp ck) pkts (buf, c) = Inr (buf', c')" "sim_stat (cap_sim c') = stat_start"
    by blast
  have "sim_end 0 (g_shm (cap_shm c')) (cap_sim c') = Inl NullDeref"
    using run(2) by (simp add: sim_end_def sim_finish_def check_minute_def deref_seg_def stat_start_def Let_def)
  then show ?thesis by (simp add: main run(1))
qed

theorem one_second_file_faults_witness:
  "capture_main (rminflo (\<lambda>_. 0) (\<lambda>_. 0) 7 8 (replicate MAX_PKT_BYTES 0)
     (\<lambda>name. if name = ''one.cap'' then Some (capture_file (replicate 24 0) second_file []) else None)) [] [''one.cap''] (shm_statics True) sim_start =
     Inl NullDeref"
proof -
  have "\<forall>p \<in> set second_file. tv_sec (hdr_ts (fst p)) = 5 \<and> tv_usec (hdr_ts (fst p)) < 1000000"
    "sorted_wrt (\<le>) (map (\<lambda>p. tv_usec (hdr_ts (fst p))) second_file)" "length second_file = 2"
    by (simp_all add: second_file_def timed_file_def)
  then show ?thesis
    by (intro one_second_file_faults [OF _ _ _ _ _ _ _ timed_sizes(2) timed_steady(2) demo_fit, where s = 5 and fhdr = "replicate 24 0" and tail = "[]"])
      (simp_all add: shm_statics_def FILENAME_BYTES_def PCAP_FILE_HEADER_def INT_MAX_def)
qed

end
